(* ===== verification/Prelude.thy ===== *)
theory Prelude
  imports Complex_Main "HOL-Library.Word" "HOL-Library.AList"
begin

section \<open>Shared vocabulary of the development\<close>

text \<open>
  What every component theory uses: the C++ standard algorithms the sources call
  (\<open>std::find_if\<close>, \<open>std::min_element\<close>, \<open>std::max_element\<close>, \<open>std::count_if\<close>,
  \<open>std::clamp\<close>, \<open>std::string::find\<close>), signed indices checked against a vector, updates
  of one vector element, and the interface of a deterministic state machine with an
  invariant. A vector is a list, an \<open>int\<close> of the source that is only compared, added
  and bounded is an \<^typ>\<open>int\<close>, a \<open>std::uint64_t\<close> counter is a \<^typ>\<open>64 word\<close>, a
  \<open>steady_clock::time_point\<close> is an \<^typ>\<open>int\<close> number of ticks passed as an argument.
\<close>

named_theorems invariants \<open>one preservation fact per operation\<close>

type_synonym u64 = "64 word"
type_synonym byte = "8 word"
type_synonym time_point = int

subsection \<open>Vectors\<close>

definition in_range :: "int \<Rightarrow> 'a list \<Rightarrow> bool" where
  "in_range i xs \<longleftrightarrow> 0 \<le> i \<and> nat i < length xs"

definition upd_at :: "nat \<Rightarrow> ('a \<Rightarrow> 'a) \<Rightarrow> 'a list \<Rightarrow> 'a list" where
  "upd_at i f xs = xs[i := f (xs ! i)]"

lemma length_upd_at [simp]: "length (upd_at i f xs) = length xs"
  by (simp add: upd_at_def)

lemma nth_upd_at:
  "j < length xs \<Longrightarrow> upd_at i f xs ! j = (if i = j then f (xs ! j) else xs ! j)"
  by (auto simp: upd_at_def)

lemma upd_at_same [simp]: "i < length xs \<Longrightarrow> upd_at i f xs ! i = f (xs ! i)"
  by (simp add: nth_upd_at)

lemma upd_at_other [simp]: "i \<noteq> j \<Longrightarrow> upd_at i f xs ! j = xs ! j"
  by (simp add: upd_at_def)

lemma in_range_upd_at [simp]: "in_range i (upd_at j f xs) = in_range i xs"
  by (simp add: in_range_def)

lemma in_range_int [simp]: "in_range (int i) xs \<longleftrightarrow> i < length xs"
  by (simp add: in_range_def)

lemma upd_at_upd_at [simp]: "upd_at i f (upd_at i g xs) = upd_at i (f \<circ> g) xs"
  by (cases "i < length xs") (auto simp: upd_at_def list_update_beyond)

lemma upd_at_id: "f (xs ! i) = xs ! i \<Longrightarrow> upd_at i f xs = xs"
  by (simp add: upd_at_def)

lemma map_upd_at_inv: "(\<And>x. g (f x) = g x) \<Longrightarrow> map g (upd_at i f xs) = map g xs"
  by (rule nth_equalityI) (auto simp: nth_upd_at)

definition count_if :: "('a \<Rightarrow> bool) \<Rightarrow> 'a list \<Rightarrow> nat" where
  "count_if P xs = length (filter P xs)"

lemma count_if_Nil [simp]: "count_if P [] = 0"
  by (simp add: count_if_def)

lemma count_if_Cons [simp]: "count_if P (x # xs) = (if P x then Suc (count_if P xs) else count_if P xs)"
  by (simp add: count_if_def)

lemma count_if_append [simp]: "count_if P (xs @ ys) = count_if P xs + count_if P ys"
  by (simp add: count_if_def)

lemma count_if_le: "count_if P xs \<le> length xs"
  by (simp add: count_if_def)

lemma count_if_compl: "count_if P xs + count_if (\<lambda>x. \<not> P x) xs = length xs"
  by (simp add: count_if_def sum_length_filter_compl)

lemma count_if_0_iff: "count_if P xs = 0 \<longleftrightarrow> (\<forall>x \<in> set xs. \<not> P x)"
  by (auto simp: count_if_def filter_empty_conv)

lemma count_if_pos: "i < length xs \<Longrightarrow> P (xs ! i) \<Longrightarrow> 0 < count_if P xs"
  using count_if_0_iff [of P xs] nth_mem [of i xs] by (cases "count_if P xs") auto

lemma count_if_cong_nth:
  assumes "length xs = length ys" "\<And>i. i < length xs \<Longrightarrow> P (xs ! i) = Q (ys ! i)"
  shows "count_if P xs = count_if Q ys"
  using assms
proof (induction xs ys rule: list_induct2)
  case (Cons x xs y ys)
  have "P x = Q y" using Cons.prems [of 0] by simp
  moreover have "count_if P xs = count_if Q ys"
    by (rule Cons.IH) (use Cons.prems [of "Suc _"] in simp)
  ultimately show ?case by simp
qed simp

lemma count_if_update:
  "i < length xs \<Longrightarrow>
   count_if P (xs[i := y]) + (if P (xs ! i) then 1 else 0) = count_if P xs + (if P y then 1 else 0)"
proof (induction xs arbitrary: i)
  case (Cons x xs)
  then show ?case by (cases i) auto
qed simp

subsection \<open>Standard algorithms\<close>

primrec find_index :: "('a \<Rightarrow> bool) \<Rightarrow> 'a list \<Rightarrow> nat option" where
  "find_index P [] = None"
| "find_index P (x # xs) = (if P x then Some 0 else map_option Suc (find_index P xs))"

lemma find_index_None_iff: "find_index P xs = None \<longleftrightarrow> (\<forall>x \<in> set xs. \<not> P x)"
  by (induction xs) auto

lemma find_index_SomeD:
  "find_index P xs = Some i \<Longrightarrow> i < length xs \<and> P (xs ! i) \<and> (\<forall>j < i. \<not> P (xs ! j))"
proof (induction xs arbitrary: i)
  case (Cons x xs)
  show ?case
  proof (cases "P x")
    case True
    with Cons.prems show ?thesis by simp
  next
    case False
    with Cons.prems obtain k where "find_index P xs = Some k" "i = Suc k" by auto
    with Cons.IH [of k] False show ?thesis by (auto simp: nth_Cons split: nat.split)
  qed
qed simp

text \<open>
  \<open>best_index better xs\<close> is the position of the first element that no other one beats:
  \<open>std::min_element\<close> with \<open>better a b = (a < b)\<close>, \<open>std::max_element\<close> with
  \<open>better a b = (b < a)\<close>. An empty range gives \<^const>\<open>None\<close> (the end iterator).
\<close>

primrec best_index :: "('a \<Rightarrow> 'a \<Rightarrow> bool) \<Rightarrow> 'a list \<Rightarrow> nat option" where
  "best_index better [] = None"
| "best_index better (x # xs) =
     (case best_index better xs of
        None \<Rightarrow> Some 0
      | Some j \<Rightarrow> if better (xs ! j) x then Some (Suc j) else Some 0)"

definition min_element :: "('a \<Rightarrow> 'k::linorder) \<Rightarrow> 'a list \<Rightarrow> nat option" where
  "min_element key xs = best_index (\<lambda>a b. key a < key b) xs"

definition max_element :: "('a \<Rightarrow> 'k::linorder) \<Rightarrow> 'a list \<Rightarrow> nat option" where
  "max_element key xs = best_index (\<lambda>a b. key b < key a) xs"

lemma best_index_None_iff [simp]: "best_index better xs = None \<longleftrightarrow> xs = []"
  by (cases xs) (auto split: option.splits)

lemma min_element_None_iff [simp]: "min_element key xs = None \<longleftrightarrow> xs = []"
  by (simp add: min_element_def)

lemma max_element_None_iff [simp]: "max_element key xs = None \<longleftrightarrow> xs = []"
  by (simp add: max_element_def)

lemma min_element_SomeD:
  "min_element key xs = Some i \<Longrightarrow>
     i < length xs \<and> (\<forall>x \<in> set xs. key (xs ! i) \<le> key x) \<and> (\<forall>j < i. key (xs ! i) < key (xs ! j))"
  unfolding min_element_def
proof (induction xs arbitrary: i)
  case (Cons x xs)
  show ?case
  proof (cases "best_index (\<lambda>a b. key a < key b) xs")
    case None
    with Cons.prems show ?thesis by (auto split: option.splits)
  next
    case (Some k)
    note k = Cons.IH [OF Some]
    with Cons.prems Some show ?thesis
      by (fastforce simp: nth_Cons split: if_splits nat.splits)
  qed
qed simp

lemma max_element_SomeD:
  "max_element key xs = Some i \<Longrightarrow>
     i < length xs \<and> (\<forall>x \<in> set xs. key x \<le> key (xs ! i)) \<and> (\<forall>j < i. key (xs ! j) < key (xs ! i))"
  unfolding max_element_def
proof (induction xs arbitrary: i)
  case (Cons x xs)
  show ?case
  proof (cases "best_index (\<lambda>a b. key b < key a) xs")
    case None
    with Cons.prems show ?thesis by (auto split: option.splits)
  next
    case (Some k)
    note k = Cons.IH [OF Some]
    with Cons.prems Some show ?thesis
      by (fastforce simp: nth_Cons split: if_splits nat.splits)
  qed
qed simp

definition clamp :: "'a::linorder \<Rightarrow> 'a \<Rightarrow> 'a \<Rightarrow> 'a" where
  "clamp x lo hi = (if x < lo then lo else if hi < x then hi else x)"

lemma clamp_bounds: "lo \<le> hi \<Longrightarrow> lo \<le> clamp x lo hi \<and> clamp x lo hi \<le> hi"
  by (auto simp: clamp_def)

lemma clamp_id [simp]: "lo \<le> x \<Longrightarrow> x \<le> hi \<Longrightarrow> clamp x lo hi = x"
  by (auto simp: clamp_def)

subsection \<open>Tables\<close>

text \<open>An \<open>unordered_map\<close> is an association list with distinct keys.\<close>

lemma map_of_filter_distinct:
  "distinct (map fst es) \<Longrightarrow>
   map_of (filter P es) k = (case map_of es k of None \<Rightarrow> None | Some v \<Rightarrow> if P (k, v) then Some v else None)"
  by (induction es) (auto split: option.splits simp: map_of_eq_None_iff image_iff)

lemma in_set_update: "x \<in> set (AList.update k v es) \<Longrightarrow> x = (k, v) \<or> x \<in> set es"
  by (induction es) (auto split: if_splits)

subsection \<open>Decimal numbers as \<open>std::to_string\<close> and \<open>operator<<\<close> print them\<close>

fun nat_to_string :: "nat \<Rightarrow> string" where
  "nat_to_string n =
     (if n < 10 then [char_of (48 + n)] else nat_to_string (n div 10) @ [char_of (48 + n mod 10)])"

declare nat_to_string.simps [simp del]

definition int_to_string :: "int \<Rightarrow> string" where
  "int_to_string i = (if i < 0 then CHR ''-'' # nat_to_string (nat (- i)) else nat_to_string (nat i))"

definition string_to_nat :: "string \<Rightarrow> nat" where
  "string_to_nat = foldl (\<lambda>n ch. 10 * n + (of_char ch - 48)) 0"

lemma of_char_char_of_small: "n < 256 \<Longrightarrow> (of_char (char_of n :: char) :: nat) = n"
  by (simp add: of_char_of)

lemma string_to_nat_nat_to_string [simp]: "string_to_nat (nat_to_string n) = n"
proof (induction n rule: nat_to_string.induct)
  case (1 n)
  show ?case
  proof (cases "n < 10")
    case True
    then show ?thesis
      by (subst nat_to_string.simps) (simp add: string_to_nat_def of_char_char_of_small del: char_of_nat)
  next
    case False
    have "string_to_nat (xs @ [ch]) = 10 * string_to_nat xs + (of_char ch - 48)" for xs ch
      by (simp add: string_to_nat_def)
    with False 1 show ?thesis
      by (subst nat_to_string.simps) (simp add: of_char_char_of_small)
  qed
qed

lemma nat_to_string_inj: "nat_to_string m = nat_to_string n \<Longrightarrow> m = n"
  by (metis string_to_nat_nat_to_string)

lemma nat_to_string_digits: "ch \<in> set (nat_to_string n) \<Longrightarrow> ch \<in> set ''0123456789''"
proof (induction n rule: nat_to_string.induct)
  case (1 n)
  have dig: "m < 10 \<Longrightarrow> char_of (48 + m) \<in> set ''0123456789''" for m :: nat
  proof -
    assume "m < 10"
    then have "m \<in> {0, 1, 2, 3, 4, 5, 6, 7, 8, 9}" by auto
    then show ?thesis by (elim insertE) (simp_all add: char_of_def bit_0)
  qed
  show ?case
  proof (cases "n < 10")
    case True
    then have "nat_to_string n = [char_of (48 + n)]" by (subst nat_to_string.simps) simp
    then show ?thesis using 1(2) dig [OF True] by (simp only: list.set singleton_iff)
  next
    case False
    then have "nat_to_string n = nat_to_string (n div 10) @ [char_of (48 + n mod 10)]"
      by (subst nat_to_string.simps) simp
    then have "ch \<in> set (nat_to_string (n div 10)) \<or> ch = char_of (48 + n mod 10)" using 1(2) by auto
    moreover have "n mod 10 < 10" by simp
    ultimately show ?thesis using 1(1) [OF False] dig [of "n mod 10"] by blast
  qed
qed

lemma nat_to_string_nonempty [simp]: "nat_to_string n \<noteq> []"
  by (subst nat_to_string.simps) simp

lemma int_to_string_inj: "int_to_string i = int_to_string j \<Longrightarrow> i = j"
proof -
  have neg: "nat_to_string n \<noteq> CHR ''-'' # xs" for n xs
    using nat_to_string_digits [of "CHR ''-''" n] by auto
  show "int_to_string i = int_to_string j \<Longrightarrow> i = j"
    by (auto simp: int_to_string_def neg neg [symmetric] split: if_splits dest!: nat_to_string_inj)
qed

lemma int_to_string_no_comma: "CHR '','' \<notin> set (int_to_string i)"
  using nat_to_string_digits [of "CHR '',''"] by (auto simp: int_to_string_def)

subsection \<open>State machines with an invariant\<close>

text \<open>
  A component whose public methods each run under one mutex is a deterministic machine:
  a state, an operation type with one constructor per method, a step function. What its
  clients rely on is that an invariant of the state survives any sequence of calls.
\<close>

primrec legal_run :: "('s \<Rightarrow> 'op \<Rightarrow> 's) \<Rightarrow> ('s \<Rightarrow> 'op \<Rightarrow> bool) \<Rightarrow> 's \<Rightarrow> 'op list \<Rightarrow> bool" where
  "legal_run step legal s [] = True"
| "legal_run step legal s (a # as) = (legal s a \<and> legal_run step legal (step s a) as)"

lemma legal_run_total: "(\<And>s a. legal s a) \<Longrightarrow> legal_run step legal s as"
  by (induction as arbitrary: s) auto

lemma legal_run_append:
  "legal_run step legal s (as @ bs) \<longleftrightarrow>
     legal_run step legal s as \<and> legal_run step legal (foldl step s as) bs"
  by (induction as arbitrary: s) auto

locale machine =
  fixes step :: "'s \<Rightarrow> 'op \<Rightarrow> 's"
    and ok :: "'s \<Rightarrow> bool"
    and legal :: "'s \<Rightarrow> 'op \<Rightarrow> bool"
  assumes step_inv: "ok s \<Longrightarrow> legal s a \<Longrightarrow> ok (step s a)"
begin

lemma run_inv: "ok s \<Longrightarrow> legal_run step legal s as \<Longrightarrow> ok (foldl step s as)"
  by (induction as arbitrary: s) (auto intro: step_inv)

lemma run_measure_mono:
  assumes step: "\<And>s a. ok s \<Longrightarrow> legal s a \<Longrightarrow> (m s :: 'm::preorder) \<le> m (step s a)"
    and "ok s" "legal_run step legal s as"
  shows "m s \<le> m (foldl step s as)"
  using assms(2,3)
proof (induction as arbitrary: s)
  case (Cons a as)
  then have "m s \<le> m (step s a)" and "ok (step s a)"
    by (auto intro: step step_inv)
  with Cons show ?case by (auto intro: order_trans)
qed simp

end

end
