(* ===== verification/Block_Pool.thy ===== *)
theory Block_Pool
  imports Prelude "HOL-Library.Multiset"
begin

section \<open>The interface of a reference-counted block pool\<close>

text \<open>
  The contract between the KV cache and its clients (the scheduler, the radix prefix cache,
  the session store): blocks are reserved with one reference, shared by acquiring further
  references, and returned by releasing them. A client that keeps a ledger, the multiset of
  references it owns, and only releases what the ledger holds, finds the pool's counts equal
  to its ledger after any sequence of calls. The theory \<open>Paged_KV_Cache\<close> interprets the
  locale on \<open>ReserveBlocks\<close>, \<open>AcquireBlocks\<close> and \<open>ReleaseBlocks\<close>.
\<close>

datatype pool_op = PoolReserve nat | PoolAcquire "int list" | PoolRelease "int list"

fun pool_step ::
  "(nat \<Rightarrow> 's \<Rightarrow> 's \<times> ('e + int list)) \<Rightarrow> (int list \<Rightarrow> 's \<Rightarrow> 's) \<Rightarrow> (int list \<Rightarrow> 's \<Rightarrow> 's) \<Rightarrow>
   's \<times> int multiset \<Rightarrow> pool_op \<Rightarrow> 's \<times> int multiset" where
  "pool_step reserve acquire release (s, L) (PoolReserve n) =
     (case reserve n s of (s', Inr bs) \<Rightarrow> (s', L + mset bs) | (s', Inl e) \<Rightarrow> (s', L))"
| "pool_step reserve acquire release (s, L) (PoolAcquire bs) = (acquire bs s, L + mset bs)"
| "pool_step reserve acquire release (s, L) (PoolRelease bs) = (release bs s, L - mset bs)"

fun pool_legal :: "'s \<times> int multiset \<Rightarrow> pool_op \<Rightarrow> bool" where
  "pool_legal (s, L) (PoolReserve n) = True"
| "pool_legal (s, L) (PoolAcquire bs) = list_all (\<lambda>b. b \<in># L) bs"
| "pool_legal (s, L) (PoolRelease bs) = (mset bs \<subseteq># L)"

definition balanced :: "('s \<Rightarrow> bool) \<Rightarrow> ('s \<Rightarrow> int \<Rightarrow> nat) \<Rightarrow> 's \<times> int multiset \<Rightarrow> bool" where
  "balanced ok refs = (\<lambda>(s, L). ok s \<and> refs s = count L)"

locale block_pool =
  fixes ok :: "'s \<Rightarrow> bool"
    and refs :: "'s \<Rightarrow> int \<Rightarrow> nat"
    and reserve :: "nat \<Rightarrow> 's \<Rightarrow> 's \<times> ('e + int list)"
    and acquire :: "int list \<Rightarrow> 's \<Rightarrow> 's"
    and release :: "int list \<Rightarrow> 's \<Rightarrow> 's"
  assumes reserve_inv: "ok s \<Longrightarrow> ok (fst (reserve n s))"
    and acquire_inv: "ok s \<Longrightarrow> ok (acquire bs s)"
    and release_inv: "ok s \<Longrightarrow> ok (release bs s)"
    and reserve_fresh: "ok s \<Longrightarrow> reserve n s = (s', Inr bs) \<Longrightarrow> distinct bs \<and> (\<forall>b \<in> set bs. refs s b = 0)"
    and reserve_refs: "ok s \<Longrightarrow> reserve n s = (s', Inr bs) \<Longrightarrow> refs s' b = refs s b + count (mset bs) b"
    and reserve_error: "ok s \<Longrightarrow> reserve n s = (s', Inl e) \<Longrightarrow> refs s' b = refs s b"
    and acquire_refs: "ok s \<Longrightarrow> \<forall>b \<in> set bs. 0 < refs s b \<Longrightarrow>
          refs (acquire bs s) b = refs s b + count (mset bs) b"
    and release_refs: "ok s \<Longrightarrow> \<forall>b. count (mset bs) b \<le> refs s b \<Longrightarrow>
          refs (release bs s) b = refs s b - count (mset bs) b"
begin

lemma balanced_reserve:
  assumes "balanced ok refs (s, L)" "reserve n s = (s', Inr bs)"
  shows "balanced ok refs (s', L + mset bs)"
  using assms reserve_inv [of s n] reserve_refs [of s n s' bs] by (auto simp: balanced_def)

lemma balanced_reserve_error:
  assumes "balanced ok refs (s, L)" "reserve n s = (s', Inl e)"
  shows "balanced ok refs (s', L)"
  using assms reserve_inv [of s n] reserve_error [of s n s' e] by (auto simp: balanced_def)

lemma balanced_acquire:
  assumes "balanced ok refs (s, L)" "\<forall>b \<in> set bs. b \<in># L"
  shows "balanced ok refs (acquire bs s, L + mset bs)"
  using assms acquire_inv [of s bs] acquire_refs [of s bs] by (auto simp: balanced_def)

lemma balanced_release:
  assumes "balanced ok refs (s, L)" "mset bs \<subseteq># L"
  shows "balanced ok refs (release bs s, L - mset bs)"
proof -
  have "\<forall>b. count (mset bs) b \<le> count L b" using assms(2) by (simp add: mset_subset_eq_count)
  with assms(1) release_inv [of s bs] release_refs [of s bs] show ?thesis
    by (auto simp: balanced_def)
qed

lemma acquire_release_refs:
  assumes "balanced ok refs (s, L)" "\<forall>b \<in> set bs. b \<in># L"
  shows "refs (release bs (acquire bs s)) = refs s"
  using balanced_release [OF balanced_acquire [OF assms], of bs] assms(1) by (simp add: balanced_def)

sublocale ledger: machine "pool_step reserve acquire release" "balanced ok refs" pool_legal
proof
  fix t a assume "balanced ok refs t" "pool_legal t a"
  then show "balanced ok refs (pool_step reserve acquire release t a)"
    by (cases t; cases a)
       (auto split: prod.split sum.split intro: balanced_reserve balanced_reserve_error
             balanced_acquire balanced_release simp: list_all_iff)
qed

end

end
