(* ===== verification/Paged_KV_Cache.thy ===== *)
theory Paged_KV_Cache
  imports Block_Pool
begin

unbundle bit_operations_syntax

section \<open>The paged KV cache\<close>

text \<open>
  \<open>runtime/kv_cache/paged_kv_cache.{h,cpp}\<close>. A fixed vector of pages with reference counts,
  a host-memory tier for swapped blocks, two eviction policies (LRU and clock), and
  persistence of dirty pages to files. Every public method takes the mutex for its whole
  body, so a method is one step on the record \<open>PagedKVCache\<close>. A method that throws
  returns the state it leaves behind together with the error. Calls to the asynchronous
  writer and direct file writes are recorded, in order, in the field \<open>kv_io\<close>; a read takes
  the directory's content as an argument. The theory \<open>Async_Writer\<close> runs the recorded
  tasks. A \<open>float\<close> is its 32-bit pattern, which is what the code moves and persists.
\<close>

subsection \<open>Data\<close>

record KVPage =
  data :: "32 word list"
  in_use :: bool
  ref_count :: int
  last_used :: u64
  dirty :: bool

datatype EvictionPolicy = kLRU | kClock

record UsageSnapshot =
  total_blocks :: nat
  used_blocks :: nat
  free_blocks :: nat
  snap_page_size_bytes :: nat

text \<open>What the cache asks of the file system and of its writer object.\<close>

datatype kv_io_event =
    WriterConfigure nat nat
  | WriterStart nat
  | WriterStop
  | WriterEnqueue string "byte list"
  | DirectWrite string "byte list"

record PagedKVCache =
  page_size_bytes :: nat
  pages :: "KVPage list"
  host_blocks :: "KVPage list"
  offload_path :: string
  writer :: bool
  usage_counter :: u64
  eviction_policy :: EvictionPolicy
  clock_ref_bits :: "bool list"
  clock_hand :: nat
  writer_workers :: nat
  writer_queue_depth :: nat
  kv_io :: "kv_io_event list"

datatype kv_error =
    KVCacheExhausted
  | KVCacheExhaustedMultiBlock
  | InvalidPageId
  | HostPoolExhausted
  | SwapInSizeMismatch

type_synonym 'a kv_result = "PagedKVCache \<times> (kv_error + 'a)"

text \<open>A file of the offload directory: its bytes and whether it can be opened.\<close>

type_synonym directory = "string \<Rightarrow> (byte list \<times> bool) option"

definition total_bytes :: "UsageSnapshot \<Rightarrow> nat" where
  "total_bytes u = total_blocks u * snap_page_size_bytes u"

definition used_bytes :: "UsageSnapshot \<Rightarrow> nat" where
  "used_bytes u = used_blocks u * snap_page_size_bytes u"

definition free_bytes :: "UsageSnapshot \<Rightarrow> nat" where
  "free_bytes u = free_blocks u * snap_page_size_bytes u"

definition fresh_page :: KVPage where
  "fresh_page = \<lparr>data = [], in_use = False, ref_count = 0, last_used = 0, dirty = False\<rparr>"

definition PagedKVCache_init :: "nat \<Rightarrow> nat \<Rightarrow> EvictionPolicy \<Rightarrow> PagedKVCache" where
  "PagedKVCache_init n psize policy =
     \<lparr>page_size_bytes = psize, pages = replicate n fresh_page,
      host_blocks = replicate (n * 2) fresh_page, offload_path = [], writer = False,
      usage_counter = 0, eviction_policy = policy, clock_ref_bits = replicate n False,
      clock_hand = 0, writer_workers = 1, writer_queue_depth = 256, kv_io = []\<rparr>"

subsection \<open>Files of pages\<close>

definition path_join :: "string \<Rightarrow> string \<Rightarrow> string" where
  "path_join p f = (if p = [] then f else if last p = CHR ''/'' then p @ f else p @ CHR ''/'' # f)"

definition page_file :: "string \<Rightarrow> int \<Rightarrow> string" where
  "page_file p page_id = path_join p (''page_'' @ int_to_string page_id @ ''.bin'')"

definition float_bytes :: "32 word \<Rightarrow> byte list" where
  "float_bytes w = [ucast w, ucast (drop_bit 8 w), ucast (drop_bit 16 w), ucast (drop_bit 24 w)]"

definition bytes_float :: "byte \<Rightarrow> byte \<Rightarrow> byte \<Rightarrow> byte \<Rightarrow> 32 word" where
  "bytes_float a b c d =
     ucast a OR push_bit 8 (ucast b) OR push_bit 16 (ucast c) OR push_bit 24 (ucast d)"

definition floats_bytes :: "32 word list \<Rightarrow> byte list" where
  "floats_bytes values = concat (map float_bytes values)"

fun bytes_floats :: "byte list \<Rightarrow> 32 word list" where
  "bytes_floats (a # b # c # d # bs) = bytes_float a b c d # bytes_floats bs"
| "bytes_floats _ = []"

definition PersistPage :: "int \<Rightarrow> 32 word list \<Rightarrow> PagedKVCache \<Rightarrow> PagedKVCache" where
  "PersistPage page_id values c =
     (if offload_path c = [] then c
      else
        let file = page_file (offload_path c) page_id;
            buffer = floats_bytes values
        in if writer c then c\<lparr>kv_io := kv_io c @ [WriterEnqueue file buffer]\<rparr>
           else c\<lparr>kv_io := kv_io c @ [DirectWrite file buffer]\<rparr>)"

definition LoadPage :: "directory \<Rightarrow> int \<Rightarrow> PagedKVCache \<Rightarrow> 32 word list" where
  "LoadPage dir page_id c =
     (if offload_path c = [] then []
      else case dir (page_file (offload_path c) page_id) of
          None \<Rightarrow> []
        | Some (bytes, good) \<Rightarrow>
            if length bytes mod 4 \<noteq> 0 then []
            else if \<not> good then []
            else bytes_floats bytes)"

subsection \<open>Choosing, acquiring and releasing one page\<close>

fun lru_scan :: "nat \<Rightarrow> KVPage list \<Rightarrow> nat option \<Rightarrow> u64 \<Rightarrow> nat option" where
  "lru_scan i [] candidate oldest = candidate"
| "lru_scan i (p # ps) candidate oldest =
     (if \<not> in_use p \<and> last_used p \<le> oldest
      then lru_scan (Suc i) ps (Some i) (last_used p)
      else lru_scan (Suc i) ps candidate oldest)"

fun clock_scan :: "nat \<Rightarrow> PagedKVCache \<Rightarrow> PagedKVCache \<times> nat option" where
  "clock_scan 0 c = (c, None)"
| "clock_scan (Suc left) c =
     (let idx = (if clock_hand c \<ge> length (pages c) then 0 else clock_hand c);
          c1 = c\<lparr>clock_hand := (idx + 1) mod length (pages c)\<rparr>
      in if in_use (pages c1 ! idx) then clock_scan left c1
         else if \<not> clock_ref_bits c1 ! idx then (c1, Some idx)
         else clock_scan left (c1\<lparr>clock_ref_bits := (clock_ref_bits c1)[idx := False]\<rparr>))"

definition SelectEvictionCandidate :: "PagedKVCache \<Rightarrow> PagedKVCache \<times> nat option" where
  "SelectEvictionCandidate c =
     (if pages c = [] then (c, None)
      else if eviction_policy c = kClock then
        (case clock_scan (length (pages c) * 2) c of
           (c', Some idx) \<Rightarrow> (c', Some idx)
         | (c', None) \<Rightarrow> (c', find_index (\<lambda>p. \<not> in_use p) (pages c')))
      else (c, lru_scan 0 (pages c) None (- 1)))"

definition set_clock_bit :: "nat \<Rightarrow> bool \<Rightarrow> PagedKVCache \<Rightarrow> PagedKVCache" where
  "set_clock_bit i b c =
     (if i < length (clock_ref_bits c) then c\<lparr>clock_ref_bits := (clock_ref_bits c)[i := b]\<rparr> else c)"

definition acquire_page :: "nat \<Rightarrow> u64 \<Rightarrow> KVPage \<Rightarrow> KVPage" where
  "acquire_page floats stamp p =
     p\<lparr>last_used := stamp, in_use := True, ref_count := 1, dirty := False,
       data := (if length (data p) \<noteq> floats then replicate floats 0 else data p)\<rparr>"

definition AcquirePageLocked :: "nat \<Rightarrow> PagedKVCache \<Rightarrow> PagedKVCache" where
  "AcquirePageLocked candidate c =
     set_clock_bit candidate True
       (c\<lparr>pages := upd_at candidate (acquire_page (page_size_bytes c div 4) (usage_counter c)) (pages c),
          usage_counter := usage_counter c + 1\<rparr>)"

definition ReleasePageLocked :: "int \<Rightarrow> PagedKVCache \<Rightarrow> PagedKVCache" where
  "ReleasePageLocked page_id c =
     (if \<not> in_range page_id (pages c) then c
      else
        let i = nat page_id;
            c1 = c\<lparr>pages := upd_at i (\<lambda>p. p\<lparr>ref_count := ref_count p - 1\<rparr>) (pages c)\<rparr>;
            p = pages c1 ! i
        in if ref_count p > 0 then c1
           else
             let c2 = (if offload_path c1 \<noteq> [] \<and> data p \<noteq> [] \<and> dirty p
                       then PersistPage page_id (data p) c1 else c1);
                 c3 = c2\<lparr>pages := upd_at i (\<lambda>p. p\<lparr>in_use := False, data := [], dirty := False\<rparr>) (pages c2)\<rparr>
             in set_clock_bit i False c3)"

subsection \<open>The public methods\<close>

definition ReservePage :: "PagedKVCache \<Rightarrow> int kv_result" where
  "ReservePage c =
     (case SelectEvictionCandidate c of
        (c', None) \<Rightarrow> (c', Inl KVCacheExhausted)
      | (c', Some candidate) \<Rightarrow> (AcquirePageLocked candidate c', Inr (int candidate)))"

definition clear_in_use :: "nat list \<Rightarrow> PagedKVCache \<Rightarrow> PagedKVCache" where
  "clear_in_use ids c =
     c\<lparr>pages := foldl (\<lambda>ps i. upd_at i (\<lambda>p. p\<lparr>in_use := False\<rparr>) ps) (pages c) ids\<rparr>"

fun reserve_loop :: "nat \<Rightarrow> nat list \<Rightarrow> PagedKVCache \<Rightarrow> int list kv_result" where
  "reserve_loop 0 reserved c = (c, Inr (map int reserved))"
| "reserve_loop (Suc n) reserved c =
     (case SelectEvictionCandidate c of
        (c', None) \<Rightarrow> (clear_in_use reserved c', Inl KVCacheExhaustedMultiBlock)
      | (c', Some candidate) \<Rightarrow>
          reserve_loop n (reserved @ [candidate]) (AcquirePageLocked candidate c'))"

definition ReserveBlocks :: "nat \<Rightarrow> PagedKVCache \<Rightarrow> int list kv_result" where
  "ReserveBlocks n c = reserve_loop n [] c"

definition ReleasePage :: "int \<Rightarrow> PagedKVCache \<Rightarrow> PagedKVCache" where
  "ReleasePage page_id c = ReleasePageLocked page_id c"

definition ReleaseBlocks :: "int list \<Rightarrow> PagedKVCache \<Rightarrow> PagedKVCache" where
  "ReleaseBlocks blocks c = foldl (\<lambda>c b. ReleasePageLocked b c) c blocks"

definition ReleaseBlocksRef :: "int list \<Rightarrow> PagedKVCache \<Rightarrow> PagedKVCache" where
  "ReleaseBlocksRef blocks c = ReleaseBlocks blocks c"

definition acquire_ref :: "PagedKVCache \<Rightarrow> int \<Rightarrow> PagedKVCache" where
  "acquire_ref c page_id =
     (if in_range page_id (pages c)
      then c\<lparr>pages := upd_at (nat page_id) (\<lambda>p. p\<lparr>ref_count := ref_count p + 1\<rparr>) (pages c)\<rparr>
      else c)"

definition AcquireBlocks :: "int list \<Rightarrow> PagedKVCache \<Rightarrow> PagedKVCache" where
  "AcquireBlocks blocks c = foldl acquire_ref c blocks"

definition kv_Write :: "int \<Rightarrow> 32 word list \<Rightarrow> PagedKVCache \<Rightarrow> unit kv_result" where
  "kv_Write page_id values c =
     (if \<not> in_range page_id (pages c) then (c, Inl InvalidPageId)
      else
        let i = nat page_id;
            c1 = c\<lparr>pages := upd_at i (\<lambda>p. p\<lparr>data := values, dirty := True, last_used := usage_counter c\<rparr>) (pages c),
                   usage_counter := usage_counter c + 1\<rparr>;
            c2 = set_clock_bit i True c1
        in ((if offload_path c2 \<noteq> [] then PersistPage page_id values c2 else c2), Inr ()))"

definition kv_Read :: "directory \<Rightarrow> int \<Rightarrow> PagedKVCache \<Rightarrow> 32 word list kv_result" where
  "kv_Read dir page_id c =
     (if \<not> in_range page_id (pages c) then (c, Inl InvalidPageId)
      else
        let i = nat page_id;
            c1 = (if data (pages c ! i) = [] \<and> offload_path c \<noteq> []
                  then c\<lparr>pages := upd_at i (\<lambda>p. p\<lparr>data := LoadPage dir page_id c\<rparr>) (pages c)\<rparr>
                  else c);
            c2 = c1\<lparr>pages := upd_at i (\<lambda>p. p\<lparr>last_used := usage_counter c1\<rparr>) (pages c1),
                    usage_counter := usage_counter c1 + 1\<rparr>;
            c3 = set_clock_bit i True c2
        in (c3, Inr (data (pages c3 ! i))))"

definition SetOffloadPath :: "string \<Rightarrow> PagedKVCache \<Rightarrow> PagedKVCache" where
  "SetOffloadPath path c =
     (let c1 = c\<lparr>offload_path := path\<rparr>
      in if path \<noteq> [] then
           c1\<lparr>writer := True,
              kv_io := kv_io c1 @ [WriterConfigure (writer_workers c1) (writer_queue_depth c1),
                                   WriterStart (writer_workers c1)]\<rparr>
         else if writer c1 then c1\<lparr>writer := False, kv_io := kv_io c1 @ [WriterStop]\<rparr>
         else c1)"

definition SetEvictionPolicy :: "EvictionPolicy \<Rightarrow> PagedKVCache \<Rightarrow> PagedKVCache" where
  "SetEvictionPolicy policy c = c\<lparr>eviction_policy := policy\<rparr>"

definition ConfigureAsyncWriter :: "nat \<Rightarrow> nat \<Rightarrow> PagedKVCache \<Rightarrow> PagedKVCache" where
  "ConfigureAsyncWriter workers queue_depth c =
     (let c1 = c\<lparr>writer_workers := (if workers = 0 then 1 else workers),
                 writer_queue_depth := (if queue_depth = 0 then 64 else queue_depth)\<rparr>
      in if writer c1 then
           c1\<lparr>kv_io := kv_io c1 @ [WriterConfigure (writer_workers c1) (writer_queue_depth c1),
                                   WriterStart (writer_workers c1)]\<rparr>
         else c1)"

definition swap_out_block :: "nat \<Rightarrow> nat \<Rightarrow> PagedKVCache \<Rightarrow> PagedKVCache" where
  "swap_out_block host_idx i c =
     set_clock_bit i False
       (c\<lparr>host_blocks := upd_at host_idx
              (\<lambda>p. p\<lparr>data := data (pages c ! i), in_use := True, last_used := usage_counter c\<rparr>)
              (host_blocks c),
          usage_counter := usage_counter c + 1,
          pages := upd_at i (\<lambda>p. p\<lparr>data := [], in_use := False, dirty := False\<rparr>) (pages c)\<rparr>)"

fun swap_out_loop :: "int list \<Rightarrow> int list \<Rightarrow> PagedKVCache \<Rightarrow> int list kv_result" where
  "swap_out_loop [] host_handles c = (c, Inr host_handles)"
| "swap_out_loop (page_id # blocks) host_handles c =
     (if \<not> in_range page_id (pages c) then swap_out_loop blocks host_handles c
      else
        case find_index (\<lambda>b. \<not> in_use b) (host_blocks c) of
          None \<Rightarrow> (c, Inl HostPoolExhausted)
        | Some host_idx \<Rightarrow>
            swap_out_loop blocks (host_handles @ [int host_idx]) (swap_out_block host_idx (nat page_id) c))"

definition SwapOut :: "int list \<Rightarrow> PagedKVCache \<Rightarrow> int list kv_result" where
  "SwapOut blocks c = swap_out_loop blocks [] c"

definition swap_in_block :: "int \<Rightarrow> int \<Rightarrow> PagedKVCache \<Rightarrow> PagedKVCache" where
  "swap_in_block host_idx page_id c =
     (if \<not> in_range host_idx (host_blocks c) \<or> \<not> in_range page_id (pages c) then c
      else
        c\<lparr>pages := upd_at (nat page_id)
              (\<lambda>p. p\<lparr>data := data (host_blocks c ! nat host_idx), in_use := True,
                     last_used := usage_counter c, dirty := True\<rparr>) (pages c),
          usage_counter := usage_counter c + 1,
          host_blocks := upd_at (nat host_idx) (\<lambda>p. p\<lparr>in_use := False, data := []\<rparr>) (host_blocks c)\<rparr>)"

definition SwapIn :: "int list \<Rightarrow> int list \<Rightarrow> PagedKVCache \<Rightarrow> unit kv_result" where
  "SwapIn host_handles target_blocks c =
     (if length host_handles \<noteq> length target_blocks then (c, Inl SwapInSizeMismatch)
      else (foldl (\<lambda>c (h, t). swap_in_block h t c) c (zip host_handles target_blocks), Inr ()))"

definition NumAvailableHostBlocks :: "PagedKVCache \<Rightarrow> nat" where
  "NumAvailableHostBlocks c = count_if (\<lambda>b. \<not> in_use b) (host_blocks c)"

definition NumFreeBlocks :: "PagedKVCache \<Rightarrow> nat" where
  "NumFreeBlocks c = count_if (\<lambda>p. \<not> in_use p) (pages c)"

definition GetUsageSnapshot :: "PagedKVCache \<Rightarrow> UsageSnapshot" where
  "GetUsageSnapshot c =
     \<lparr>total_blocks = length (pages c), used_blocks = count_if in_use (pages c),
      free_blocks = length (pages c) - count_if in_use (pages c),
      snap_page_size_bytes = page_size_bytes c\<rparr>"

subsection \<open>Frames of the helpers\<close>

lemma set_clock_bit_frame [simp]:
  "pages (set_clock_bit i b c) = pages c"
  "host_blocks (set_clock_bit i b c) = host_blocks c"
  "length (clock_ref_bits (set_clock_bit i b c)) = length (clock_ref_bits c)"
  "clock_hand (set_clock_bit i b c) = clock_hand c"
  "writer (set_clock_bit i b c) = writer c"
  "offload_path (set_clock_bit i b c) = offload_path c"
  "usage_counter (set_clock_bit i b c) = usage_counter c"
  "page_size_bytes (set_clock_bit i b c) = page_size_bytes c"
  "eviction_policy (set_clock_bit i b c) = eviction_policy c"
  "kv_io (set_clock_bit i b c) = kv_io c"
  by (simp_all add: set_clock_bit_def)

lemma PersistPage_frame [simp]:
  "pages (PersistPage i v c) = pages c"
  "host_blocks (PersistPage i v c) = host_blocks c"
  "clock_ref_bits (PersistPage i v c) = clock_ref_bits c"
  "clock_hand (PersistPage i v c) = clock_hand c"
  "writer (PersistPage i v c) = writer c"
  "offload_path (PersistPage i v c) = offload_path c"
  by (simp_all add: PersistPage_def Let_def)

lemma acquire_page_sel [simp]:
  "in_use (acquire_page f s p)" "ref_count (acquire_page f s p) = 1"
  "length (data (acquire_page f s p)) = f" "\<not> dirty (acquire_page f s p)"
  by (simp_all add: acquire_page_def)

lemma AcquirePageLocked_frame [simp]:
  "pages (AcquirePageLocked i c) =
     upd_at i (acquire_page (page_size_bytes c div 4) (usage_counter c)) (pages c)"
  "host_blocks (AcquirePageLocked i c) = host_blocks c"
  "length (clock_ref_bits (AcquirePageLocked i c)) = length (clock_ref_bits c)"
  "clock_hand (AcquirePageLocked i c) = clock_hand c"
  "writer (AcquirePageLocked i c) = writer c"
  "offload_path (AcquirePageLocked i c) = offload_path c"
  "eviction_policy (AcquirePageLocked i c) = eviction_policy c"
  "page_size_bytes (AcquirePageLocked i c) = page_size_bytes c"
  by (simp_all add: AcquirePageLocked_def)

subsection \<open>Choosing a page\<close>

lemma clock_scan_frame:
  assumes "clock_scan n c = (c', r)" "pages c \<noteq> []"
  shows "\<exists>h bits. c' = c\<lparr>clock_hand := h, clock_ref_bits := bits\<rparr> \<and>
           length bits = length (clock_ref_bits c) \<and> (h < length (pages c) \<or> h = clock_hand c)"
  using assms
proof (induction n arbitrary: c)
  case 0
  then have "c' = c\<lparr>clock_hand := clock_hand c, clock_ref_bits := clock_ref_bits c\<rparr>" by simp
  then show ?case by blast
next
  case (Suc n)
  define idx where "idx = (if clock_hand c \<ge> length (pages c) then 0 else clock_hand c)"
  define h1 where "h1 = (idx + 1) mod length (pages c)"
  have h1: "h1 < length (pages c)" using Suc.prems(2) by (simp add: h1_def)
  let ?bits' = "(clock_ref_bits c)[idx := False]"
  have same: "c\<lparr>clock_hand := h1\<rparr> = c\<lparr>clock_hand := h1, clock_ref_bits := clock_ref_bits c\<rparr>"
    by simp
  have "c' = c\<lparr>clock_hand := h1\<rparr> \<or> clock_scan n (c\<lparr>clock_hand := h1\<rparr>) = (c', r) \<or>
        clock_scan n (c\<lparr>clock_hand := h1, clock_ref_bits := ?bits'\<rparr>) = (c', r)"
    using Suc.prems unfolding clock_scan.simps Let_def idx_def [symmetric] h1_def [symmetric]
    by (cases "in_use (pages c ! idx)"; cases "clock_ref_bits c ! idx") auto
  moreover have "length ?bits' = length (clock_ref_bits c)" by simp
  ultimately have "\<exists>bits. length bits = length (clock_ref_bits c) \<and>
          (c' = c\<lparr>clock_hand := h1, clock_ref_bits := bits\<rparr> \<or>
           clock_scan n (c\<lparr>clock_hand := h1, clock_ref_bits := bits\<rparr>) = (c', r))" using same by metis
  then obtain bits where bits: "length bits = length (clock_ref_bits c)"
    and n: "c' = c\<lparr>clock_hand := h1, clock_ref_bits := bits\<rparr> \<or>
         clock_scan n (c\<lparr>clock_hand := h1, clock_ref_bits := bits\<rparr>) = (c', r)" by blast
  from n show ?case
  proof
    assume "clock_scan n (c\<lparr>clock_hand := h1, clock_ref_bits := bits\<rparr>) = (c', r)"
    from Suc.IH [OF this] Suc.prems(2) bits h1 show ?thesis by auto
  qed (use bits h1 in blast)
qed

lemma clock_scan_Some:
  assumes "clock_scan n c = (c', Some i)" "pages c \<noteq> []"
  shows "i < length (pages c) \<and> \<not> in_use (pages c ! i)"
  using assms
proof (induction n arbitrary: c)
  case (Suc n)
  have "0 < length (pages c)" using Suc.prems(2) by simp
  then show ?case using Suc.prems
    by (auto simp: Let_def split: if_splits dest: Suc.IH)
qed simp

lemma lru_scan_Some_candidate:
  "lru_scan i ps cand old = Some k \<Longrightarrow>
     cand = Some k \<or> (i \<le> k \<and> k < i + length ps \<and> \<not> in_use (ps ! (k - i)))"
proof (induction i ps cand old rule: lru_scan.induct)
  case (2 i p ps cand old)
  then show ?case by (fastforce simp: nth_Cons' split: if_splits)
qed simp

lemma lru_scan_None:
  "lru_scan i ps cand old = None \<Longrightarrow>
     cand = None \<and> (\<forall>p \<in> set ps. \<not> in_use p \<longrightarrow> old < last_used p)"
proof (induction i ps cand old rule: lru_scan.induct)
  case (2 i p ps cand old)
  then show ?case by (auto split: if_splits)
qed simp

text \<open>The LRU scan keeps the oldest stamp seen so far, so it ends on a minimal one.\<close>

lemma lru_scan_minimal:
  assumes "lru_scan i ps cand old = Some k" "cand \<noteq> Some k \<or> k < i"
  shows "(cand = Some k \<longrightarrow> (\<forall>p \<in> set ps. \<not> in_use p \<longrightarrow> old < last_used p)) \<and>
         (cand \<noteq> Some k \<longrightarrow> last_used (ps ! (k - i)) \<le> old \<and>
            (\<forall>p \<in> set ps. \<not> in_use p \<longrightarrow> last_used (ps ! (k - i)) \<le> last_used p))"
  using assms
proof (induction i ps cand old rule: lru_scan.induct)
  case (2 i p ps cand old)
  show ?case
  proof (cases "\<not> in_use p \<and> last_used p \<le> old")
    case True
    then have s: "lru_scan (Suc i) ps (Some i) (last_used p) = Some k" using 2(3) by simp
    show ?thesis
    proof (cases "k = i")
      case True
      with 2(1) [OF \<open>\<not> in_use p \<and> last_used p \<le> old\<close> s] 2(4) \<open>\<not> in_use p \<and> last_used p \<le> old\<close>
      show ?thesis by auto
    next
      case False
      with lru_scan_Some_candidate [OF s] have "i < k" by auto
      with 2(1) [OF True s] 2(4) False True show ?thesis
        by (auto simp: nth_Cons' intro: order_trans)
    qed
  next
    case False
    with 2(3) have s: "lru_scan (Suc i) ps cand old = Some k" by (auto split: if_splits)
    from lru_scan_Some_candidate [OF s] have "cand = Some k \<or> i < k" by auto
    then show ?thesis
    proof
      assume "cand = Some k"
      with 2(2) [OF False s] 2(4) False show ?thesis by auto
    next
      assume "i < k"
      with 2(2) [OF False s] 2(4) False show ?thesis by (cases "cand = Some k") (auto simp: nth_Cons')
    qed
  qed
qed simp

lemma select_frame:
  assumes "SelectEvictionCandidate c = (c', r)"
  shows "\<exists>h bits. c' = c\<lparr>clock_hand := h, clock_ref_bits := bits\<rparr> \<and>
           length bits = length (clock_ref_bits c) \<and> (h < length (pages c) \<or> h = clock_hand c)"
proof (cases "pages c = [] \<or> eviction_policy c \<noteq> kClock")
  case True
  with assms have "c' = c\<lparr>clock_hand := clock_hand c, clock_ref_bits := clock_ref_bits c\<rparr>"
    by (auto simp: SelectEvictionCandidate_def split: if_splits)
  then show ?thesis by blast
next
  case False
  obtain c'' r' where s: "clock_scan (length (pages c) * 2) c = (c'', r')" by fastforce
  with assms False have "c' = c''"
    by (auto simp: SelectEvictionCandidate_def split: option.splits)
  with clock_scan_frame [OF s] False show ?thesis by simp
qed

lemma select_frameD:
  assumes "SelectEvictionCandidate c = (c', r)"
  shows "pages c' = pages c" "host_blocks c' = host_blocks c"
    "length (clock_ref_bits c') = length (clock_ref_bits c)"
    "writer c' = writer c" "offload_path c' = offload_path c" "eviction_policy c' = eviction_policy c"
    "usage_counter c' = usage_counter c" "page_size_bytes c' = page_size_bytes c"
    "clock_hand c' < length (pages c) \<or> clock_hand c' = clock_hand c" "kv_io c' = kv_io c"
  using select_frame [OF assms] by auto

lemma select_cases:
  assumes "SelectEvictionCandidate c = (c', r)"
  obtains (empty) "pages c = []" "r = None"
    | (clock) "pages c \<noteq> []" "clock_scan (length (pages c) * 2) c = (c', r)" "r \<noteq> None"
    | (fallback) "pages c \<noteq> []" "r = find_index (\<lambda>p. \<not> in_use p) (pages c)"
    | (lru) "pages c \<noteq> []" "eviction_policy c \<noteq> kClock" "r = lru_scan 0 (pages c) None (- 1)"
proof (cases "pages c = [] \<or> eviction_policy c \<noteq> kClock")
  case True
  with assms empty lru show ?thesis
    by (auto simp: SelectEvictionCandidate_def split: if_splits)
next
  case False
  obtain c'' r' where s: "clock_scan (length (pages c) * 2) c = (c'', r')" by fastforce
  have "pages c' = pages c" using assms by (rule select_frameD)
  with assms False s clock fallback show ?thesis
    by (cases r') (auto simp: SelectEvictionCandidate_def)
qed

lemma select_Some:
  assumes "SelectEvictionCandidate c = (c', Some i)"
  shows "i < length (pages c) \<and> \<not> in_use (pages c ! i)"
  using assms
proof (cases rule: select_cases)
  case lru
  show ?thesis using lru_scan_Some_candidate [OF lru(3) [symmetric]] by simp
qed (auto dest: clock_scan_Some dest: find_index_SomeD [OF sym])

lemma select_None:
  assumes "SelectEvictionCandidate c = (c', None)"
  shows "\<forall>p \<in> set (pages c). in_use p"
  using assms
proof (cases rule: select_cases)
  case lru
  with lru_scan_None [of 0 "pages c" None "- 1"] show ?thesis
    by (auto simp: not_less)
qed (auto simp: find_index_None_iff dest: sym)

subsection \<open>The invariant\<close>

definition page_ok :: "KVPage \<Rightarrow> bool" where
  "page_ok p \<longleftrightarrow> (in_use p \<longrightarrow> 1 \<le> ref_count p)"

definition host_ok :: "KVPage \<Rightarrow> bool" where
  "host_ok h \<longleftrightarrow> (\<not> in_use h \<longrightarrow> data h = [])"

text \<open>
  The shape of the vectors, the clock hand inside the page vector, at least one reference
  on every page in use, no data kept in a free host block, and a writer object exactly
  when there is an offload path.
\<close>

definition kv_wf :: "PagedKVCache \<Rightarrow> bool" where
  "kv_wf c \<longleftrightarrow>
     length (clock_ref_bits c) = length (pages c) \<and>
     length (host_blocks c) = 2 * length (pages c) \<and>
     (clock_hand c < length (pages c) \<or> clock_hand c = 0) \<and>
     list_all page_ok (pages c) \<and> list_all host_ok (host_blocks c) \<and>
     (writer c \<longleftrightarrow> offload_path c \<noteq> [])"

lemma list_all_upd_at:
  "list_all P xs \<Longrightarrow> (i < length xs \<Longrightarrow> P (f (xs ! i))) \<Longrightarrow> list_all P (upd_at i f xs)"
  by (auto simp: list_all_length nth_upd_at)

lemma list_all_page_nth: "list_all P xs \<Longrightarrow> i < length xs \<Longrightarrow> P (xs ! i)"
  by (simp add: list_all_length)

lemma in_range_nat: "in_range i xs \<Longrightarrow> nat i < length xs"
  by (simp add: in_range_def)

lemma kv_wf_init [invariants]: "kv_wf (PagedKVCache_init n psize policy)"
  by (simp add: kv_wf_def PagedKVCache_init_def fresh_page_def page_ok_def host_ok_def
                list_all_length)

lemma kv_wf_select: "SelectEvictionCandidate c = (c', r) \<Longrightarrow> kv_wf c \<Longrightarrow> kv_wf c'"
  using select_frameD [of c c' r] by (auto simp: kv_wf_def)

lemma kv_wf_AcquirePageLocked: "kv_wf c \<Longrightarrow> kv_wf (AcquirePageLocked i c)"
  by (auto simp: kv_wf_def page_ok_def intro!: list_all_upd_at)

lemma kv_wf_ReleasePageLocked [invariants]: "kv_wf c \<Longrightarrow> kv_wf (ReleasePageLocked b c)"
  unfolding ReleasePageLocked_def Let_def
  by (auto simp: kv_wf_def page_ok_def in_range_def intro!: list_all_upd_at)

lemma kv_wf_ReservePage [invariants]: "kv_wf c \<Longrightarrow> kv_wf (fst (ReservePage c))"
  by (auto simp: ReservePage_def split: prod.split option.split
           intro: kv_wf_select kv_wf_AcquirePageLocked)

lemma list_all_clear_in_use:
  "list_all page_ok ps \<Longrightarrow>
     list_all page_ok (foldl (\<lambda>ps i. upd_at i (\<lambda>p. p\<lparr>in_use := False\<rparr>) ps) ps ids)"
proof (induction ids arbitrary: ps)
  case (Cons i ids)
  have "list_all page_ok (upd_at i (\<lambda>p. p\<lparr>in_use := False\<rparr>) ps)"
    using Cons.prems by (rule list_all_upd_at) (simp add: page_ok_def)
  then show ?case by (simp add: Cons.IH)
qed simp

lemma length_clear_in_use [simp]: "length (pages (clear_in_use ids c)) = length (pages c)"
proof -
  have "length (foldl (\<lambda>ps i. upd_at i (\<lambda>p. p\<lparr>in_use := False\<rparr>) ps) ps ids) = length ps" for ps
    by (induction ids arbitrary: ps) auto
  then show ?thesis by (simp add: clear_in_use_def)
qed

lemma kv_wf_clear_in_use: "kv_wf c \<Longrightarrow> kv_wf (clear_in_use ids c)"
  using length_clear_in_use [of ids c]
  by (simp add: kv_wf_def clear_in_use_def list_all_clear_in_use)

lemma host_clear_in_use [simp]: "host_blocks (clear_in_use ids c) = host_blocks c"
  by (simp add: clear_in_use_def)

lemma kv_wf_reserve_loop: "kv_wf c \<Longrightarrow> kv_wf (fst (reserve_loop n acc c))"
proof (induction n arbitrary: acc c)
  case (Suc n)
  then show ?case
    by (auto split: prod.split option.split
             intro: kv_wf_clear_in_use kv_wf_select intro!: Suc.IH kv_wf_AcquirePageLocked)
qed simp

lemma kv_wf_ReserveBlocks [invariants]: "kv_wf c \<Longrightarrow> kv_wf (fst (ReserveBlocks n c))"
  by (simp add: ReserveBlocks_def kv_wf_reserve_loop)

lemma kv_wf_foldl:
  "(\<And>c x. kv_wf c \<Longrightarrow> kv_wf (f c x)) \<Longrightarrow> kv_wf c \<Longrightarrow> kv_wf (foldl f c xs)"
  by (induction xs arbitrary: c) auto

lemma kv_wf_ReleaseBlocks [invariants]: "kv_wf c \<Longrightarrow> kv_wf (ReleaseBlocks bs c)"
  unfolding ReleaseBlocks_def by (rule kv_wf_foldl) (auto intro: invariants)

lemma kv_wf_acquire_ref: "kv_wf c \<Longrightarrow> kv_wf (acquire_ref c b)"
  by (auto simp: acquire_ref_def kv_wf_def in_range_def page_ok_def list_all_length nth_upd_at)

lemma kv_wf_AcquireBlocks [invariants]: "kv_wf c \<Longrightarrow> kv_wf (AcquireBlocks bs c)"
  unfolding AcquireBlocks_def by (rule kv_wf_foldl) (auto intro: kv_wf_acquire_ref)

lemma kv_wf_Write [invariants]: "kv_wf c \<Longrightarrow> kv_wf (fst (kv_Write b v c))"
  by (auto simp: kv_Write_def Let_def kv_wf_def in_range_def page_ok_def list_all_length nth_upd_at)

lemma kv_wf_Read [invariants]: "kv_wf c \<Longrightarrow> kv_wf (fst (kv_Read dir b c))"
  by (auto simp: kv_Read_def Let_def kv_wf_def in_range_def page_ok_def list_all_length nth_upd_at)

lemma kv_wf_SetOffloadPath [invariants]: "kv_wf c \<Longrightarrow> kv_wf (SetOffloadPath p c)"
  by (auto simp: SetOffloadPath_def Let_def kv_wf_def)

lemma kv_wf_SetEvictionPolicy [invariants]: "kv_wf c \<Longrightarrow> kv_wf (SetEvictionPolicy p c)"
  by (simp add: SetEvictionPolicy_def kv_wf_def)

lemma kv_wf_ConfigureAsyncWriter [invariants]: "kv_wf c \<Longrightarrow> kv_wf (ConfigureAsyncWriter w d c)"
  by (auto simp: ConfigureAsyncWriter_def Let_def kv_wf_def)

lemma kv_wf_swap_out_block:
  "kv_wf c \<Longrightarrow> kv_wf (swap_out_block h i c)"
  by (auto simp: swap_out_block_def kv_wf_def page_ok_def host_ok_def intro!: list_all_upd_at)

lemma kv_wf_swap_out_loop: "kv_wf c \<Longrightarrow> kv_wf (fst (swap_out_loop bs acc c))"
  by (induction bs arbitrary: acc c) (auto split: option.split intro: kv_wf_swap_out_block)

lemma kv_wf_SwapOut [invariants]: "kv_wf c \<Longrightarrow> kv_wf (fst (SwapOut bs c))"
  by (simp add: SwapOut_def kv_wf_swap_out_loop)

text \<open>
  Swapping in does not set the reference count of its targets, so the caller has to pass
  pages it holds: the scheduler reserves the target blocks first.
\<close>

definition held :: "PagedKVCache \<Rightarrow> int \<Rightarrow> bool" where
  "held c b \<longleftrightarrow> (in_range b (pages c) \<longrightarrow> in_use (pages c ! nat b))"

lemma kv_wf_swap_in_block:
  "kv_wf c \<Longrightarrow> held c t \<Longrightarrow> kv_wf (swap_in_block h t c)"
  by (auto simp: swap_in_block_def kv_wf_def held_def in_range_def page_ok_def host_ok_def
                 list_all_length nth_upd_at)

lemma held_swap_in_block: "held c b \<Longrightarrow> held (swap_in_block h t c) b"
  by (auto simp: swap_in_block_def held_def in_range_def nth_upd_at)

lemma kv_wf_SwapIn [invariants]:
  assumes "kv_wf c" "list_all (held c) ts"
  shows "kv_wf (fst (SwapIn hs ts c))"
proof (cases "length hs = length ts")
  case True
  then have "kv_wf (foldl (\<lambda>c (h, t). swap_in_block h t c) c (zip hs ts))"
    using assms
  proof (induction hs ts arbitrary: c rule: list_induct2)
    case (Cons h hs t ts)
    then have "kv_wf (swap_in_block h t c)" "list_all (held (swap_in_block h t c)) ts"
      by (auto simp: kv_wf_swap_in_block list_all_iff held_swap_in_block)
    with Cons show ?case by simp
  qed simp
  with True show ?thesis by (simp add: SwapIn_def)
qed (simp add: SwapIn_def assms)

subsection \<open>Reserving blocks\<close>

text \<open>\<open>allocated c c' ids\<close>: the pages \<open>ids\<close> were free and are now fresh, nothing else changed.\<close>

definition allocated :: "PagedKVCache \<Rightarrow> PagedKVCache \<Rightarrow> nat list \<Rightarrow> bool" where
  "allocated c c' ids \<longleftrightarrow>
     distinct ids \<and> length (pages c') = length (pages c) \<and> host_blocks c' = host_blocks c \<and>
     page_size_bytes c' = page_size_bytes c \<and>
     (\<forall>i \<in> set ids. i < length (pages c) \<and> \<not> in_use (pages c ! i) \<and>
        in_use (pages c' ! i) \<and> ref_count (pages c' ! i) = 1 \<and> \<not> dirty (pages c' ! i) \<and>
        length (data (pages c' ! i)) = page_size_bytes c div 4) \<and>
     (\<forall>i. i \<notin> set ids \<longrightarrow> pages c' ! i = pages c ! i)"

lemma allocated_refl: "pages c' = pages c \<Longrightarrow> host_blocks c' = host_blocks c \<Longrightarrow>
    page_size_bytes c' = page_size_bytes c \<Longrightarrow> allocated c c' []"
  by (simp add: allocated_def)

lemma allocated_snoc:
  assumes "allocated c c1 ids" "SelectEvictionCandidate c1 = (c2, Some i)"
  shows "allocated c (AcquirePageLocked i c2) (ids @ [i])"
proof -
  note f = select_frameD [OF assms(2)]
  have i: "i < length (pages c1)" "\<not> in_use (pages c1 ! i)" using select_Some [OF assms(2)] by auto
  with assms(1) have "i \<notin> set ids" by (auto simp: allocated_def)
  with assms(1) i f show ?thesis unfolding allocated_def by (auto simp: nth_upd_at)
qed

lemma NumFreeBlocks_le: "NumFreeBlocks c \<le> length (pages c)"
  by (simp add: NumFreeBlocks_def count_if_le)

lemma NumFree_select [simp]:
  "SelectEvictionCandidate c = (c', r) \<Longrightarrow> NumFreeBlocks c' = NumFreeBlocks c"
  by (simp add: NumFreeBlocks_def select_frameD)

lemma NumFree_acquire:
  assumes "SelectEvictionCandidate c = (c', Some i)"
  shows "NumFreeBlocks c = Suc (NumFreeBlocks (AcquirePageLocked i c'))"
proof -
  have "i < length (pages c)" "\<not> in_use (pages c ! i)" using select_Some [OF assms] by auto
  then show ?thesis
    using count_if_update [of i "pages c" "\<lambda>p. \<not> in_use p"
        "acquire_page (page_size_bytes c' div 4) (usage_counter c') (pages c ! i)"]
    by (simp add: NumFreeBlocks_def upd_at_def select_frameD [OF assms])
qed

lemma NumFree_0_iff: "NumFreeBlocks c = 0 \<longleftrightarrow> (\<forall>p \<in> set (pages c). in_use p)"
  by (auto simp: NumFreeBlocks_def count_if_0_iff)

lemma select_None_iff:
  assumes "SelectEvictionCandidate c = (c', r)"
  shows "r = None \<longleftrightarrow> NumFreeBlocks c = 0"
  using assms select_None [of c c'] select_Some [of c c']
  by (cases r) (auto simp: NumFree_0_iff)

lemma reserve_loop_success:
  assumes "n \<le> NumFreeBlocks c" "allocated c0 c acc"
  shows "\<exists>c' ids. reserve_loop n acc c = (c', Inr (map int ids)) \<and> allocated c0 c' ids \<and>
           length ids = length acc + n \<and> NumFreeBlocks c' = NumFreeBlocks c - n"
  using assms
proof (induction n arbitrary: c acc)
  case (Suc n)
  obtain c1 r where s: "SelectEvictionCandidate c = (c1, r)" by fastforce
  with Suc.prems(1) obtain i where i: "r = Some i" using select_None_iff [OF s] by auto
  with s have s: "SelectEvictionCandidate c = (c1, Some i)" by simp
  have "n \<le> NumFreeBlocks (AcquirePageLocked i c1)" using Suc.prems(1) NumFree_acquire [OF s] by simp
  from Suc.IH [OF this allocated_snoc [OF Suc.prems(2) s]] NumFree_acquire [OF s] s show ?case
    by simp
qed auto

lemma clear_in_use_nth:
  "j < length (pages c) \<Longrightarrow>
     pages (clear_in_use ids c) ! j =
       (if j \<in> set ids then (pages c ! j)\<lparr>in_use := False\<rparr> else pages c ! j)"
proof -
  have "j < length ps \<Longrightarrow> foldl (\<lambda>ps i. upd_at i (\<lambda>p. p\<lparr>in_use := False\<rparr>) ps) ps ids ! j =
      (if j \<in> set ids then (ps ! j)\<lparr>in_use := False\<rparr> else ps ! j)" for ps :: "KVPage list"
    by (induction ids arbitrary: ps) (auto simp: nth_upd_at)
  then show "j < length (pages c) \<Longrightarrow> ?thesis" by (simp add: clear_in_use_def)
qed

lemma reserve_loop_failure:
  assumes "NumFreeBlocks c < n" "allocated c0 c acc"
  shows "\<exists>c'. reserve_loop n acc c = (c', Inl KVCacheExhaustedMultiBlock) \<and>
           map in_use (pages c') = map in_use (pages c0) \<and>
           (\<forall>i < length (pages c0). in_use (pages c0 ! i) \<longrightarrow> pages c' ! i = pages c0 ! i) \<and>
           host_blocks c' = host_blocks c0"
  using assms
proof (induction n arbitrary: c acc)
  case (Suc n)
  obtain c1 r where s: "SelectEvictionCandidate c = (c1, r)" by fastforce
  show ?case
  proof (cases r)
    case None
    have len: "length (pages c1) = length (pages c0)"
      using Suc.prems(2) select_frameD [OF s] by (simp add: allocated_def)
    have "in_use (pages (clear_in_use acc c1) ! i) = in_use (pages c0 ! i)"
      and "in_use (pages c0 ! i) \<longrightarrow> pages (clear_in_use acc c1) ! i = pages c0 ! i"
      if "i < length (pages c0)" for i
      using Suc.prems(2) that len select_frameD [OF s]
      by (auto simp: clear_in_use_nth allocated_def)
    moreover from this(1) len have "map in_use (pages (clear_in_use acc c1)) = map in_use (pages c0)"
      by (auto intro: nth_equalityI)
    moreover have "host_blocks (clear_in_use acc c1) = host_blocks c0"
      using Suc.prems(2) select_frameD [OF s] by (simp add: allocated_def)
    ultimately show ?thesis using s None by simp
  next
    case (Some i)
    with s have s: "SelectEvictionCandidate c = (c1, Some i)" by simp
    have "NumFreeBlocks (AcquirePageLocked i c1) < n" using Suc.prems(1) NumFree_acquire [OF s] by simp
    from Suc.IH [OF this allocated_snoc [OF Suc.prems(2) s]] s show ?thesis by simp
  qed
qed simp

lemma ReserveBlocks_InrD:
  assumes "ReserveBlocks n c = (c', Inr bs)"
  shows "\<exists>ids. bs = map int ids \<and> allocated c c' ids \<and> length ids = n \<and>
           NumFreeBlocks c' = NumFreeBlocks c - n \<and> n \<le> NumFreeBlocks c"
proof -
  have "n \<le> NumFreeBlocks c"
    using assms reserve_loop_failure [OF _ allocated_refl [OF refl refl refl], of c n]
    by (fastforce simp: ReserveBlocks_def not_le [symmetric])
  with reserve_loop_success [OF this allocated_refl [OF refl refl refl]] assms show ?thesis
    by (auto simp: ReserveBlocks_def)
qed

lemma ReserveBlocks_InlD:
  assumes "ReserveBlocks n c = (c', Inl e)"
  shows "NumFreeBlocks c < n \<and> map in_use (pages c') = map in_use (pages c) \<and>
     (\<forall>i < length (pages c). in_use (pages c ! i) \<longrightarrow> pages c' ! i = pages c ! i)"
proof -
  have "NumFreeBlocks c < n"
    using assms reserve_loop_success [OF _ allocated_refl [OF refl refl refl], of n c]
    by (fastforce simp: ReserveBlocks_def not_less [symmetric])
  with reserve_loop_failure [OF this allocated_refl [OF refl refl refl]] assms show ?thesis
    by (auto simp: ReserveBlocks_def)
qed

subsection \<open>The cache is a reference-counted block pool\<close>

definition block_refs :: "PagedKVCache \<Rightarrow> int \<Rightarrow> nat" where
  "block_refs c b =
     (if in_range b (pages c) \<and> in_use (pages c ! nat b) then nat (ref_count (pages c ! nat b)) else 0)"

lemma block_refs_init: "block_refs (PagedKVCache_init n psize policy) b = 0"
  by (auto simp: block_refs_def PagedKVCache_init_def fresh_page_def in_range_def)

lemma block_refs_pos:
  "kv_wf c \<Longrightarrow> 0 < block_refs c b \<longleftrightarrow> in_range b (pages c) \<and> in_use (pages c ! nat b)"
  by (auto simp: block_refs_def kv_wf_def page_ok_def list_all_length in_range_def)

lemma block_refs_upd:
  assumes "in_range b (pages c)" "pages c' = upd_at (nat b) f (pages c)"
  shows "block_refs c' x =
    (if x = b then (if in_use (f (pages c ! nat b)) then nat (ref_count (f (pages c ! nat b))) else 0)
     else block_refs c x)"
proof (cases "x = b")
  case True
  with assms show ?thesis by (simp add: block_refs_def in_range_nat)
next
  case False
  then have "0 \<le> x \<Longrightarrow> nat b \<noteq> nat x" using assms(1) by (auto simp: in_range_def)
  with False assms show ?thesis
    by (cases "in_range x (pages c)") (auto simp: block_refs_def in_range_def)
qed

lemma block_refs_acquire_ref:
  assumes "kv_wf c" "0 < block_refs c b"
  shows "block_refs (acquire_ref c b) x = block_refs c x + (if x = b then 1 else 0)"
proof -
  have b: "in_range b (pages c)" "in_use (pages c ! nat b)" "1 \<le> ref_count (pages c ! nat b)"
    using assms by (auto simp: block_refs_def split: if_splits)
  then have "pages (acquire_ref c b) = upd_at (nat b) (\<lambda>p. p\<lparr>ref_count := ref_count p + 1\<rparr>) (pages c)"
    by (simp add: acquire_ref_def)
  from block_refs_upd [OF b(1) this, of x] b show ?thesis
    by (auto simp: block_refs_def nat_add_distrib)
qed

lemma block_refs_AcquireBlocks:
  assumes "kv_wf c" "\<forall>b \<in> set bs. 0 < block_refs c b"
  shows "block_refs (AcquireBlocks bs c) x = block_refs c x + count (mset bs) x"
  using assms unfolding AcquireBlocks_def
proof (induction bs arbitrary: c)
  case (Cons b bs)
  then have "kv_wf (acquire_ref c b)" "\<forall>b' \<in> set bs. 0 < block_refs (acquire_ref c b) b'"
    by (auto simp: kv_wf_acquire_ref block_refs_acquire_ref)
  from Cons.IH [OF this] Cons.prems show ?case by (simp add: block_refs_acquire_ref)
qed simp

lemma ReleasePageLocked_pages:
  "in_range b (pages c) \<Longrightarrow>
   pages (ReleasePageLocked b c) =
     upd_at (nat b) (\<lambda>p. if ref_count p > 1 then p\<lparr>ref_count := ref_count p - 1\<rparr>
        else p\<lparr>ref_count := ref_count p - 1, in_use := False, data := [], dirty := False\<rparr>) (pages c)"
  by (cases "1 < ref_count (pages c ! nat b)")
     (simp_all add: ReleasePageLocked_def Let_def in_range_def upd_at_def)

lemma block_refs_ReleasePageLocked:
  assumes "kv_wf c" "0 < block_refs c b"
  shows "block_refs (ReleasePageLocked b c) x = block_refs c x - (if x = b then 1 else 0)"
proof -
  have b: "in_range b (pages c)" "in_use (pages c ! nat b)" "1 \<le> ref_count (pages c ! nat b)"
    using assms by (auto simp: block_refs_def split: if_splits)
  from block_refs_upd [OF b(1) ReleasePageLocked_pages [OF b(1)], of x] b show ?thesis
    by (cases "x = b"; cases "1 < ref_count (pages c ! nat b)") (simp_all add: block_refs_def nat_diff_distrib)
qed

lemma block_refs_ReleaseBlocks:
  assumes "kv_wf c" "\<forall>b. count (mset bs) b \<le> block_refs c b"
  shows "block_refs (ReleaseBlocks bs c) x = block_refs c x - count (mset bs) x"
  using assms unfolding ReleaseBlocks_def
proof (induction bs arbitrary: c)
  case (Cons b bs)
  have b: "0 < block_refs c b" using Cons.prems(2) [rule_format, of b] by simp
  have "kv_wf (ReleasePageLocked b c)" using Cons.prems(1) by (rule invariants)
  moreover have "\<forall>b'. count (mset bs) b' \<le> block_refs (ReleasePageLocked b c) b'"
  proof
    fix b'
    show "count (mset bs) b' \<le> block_refs (ReleasePageLocked b c) b'"
      using Cons.prems(2) [rule_format, of b'] block_refs_ReleasePageLocked [OF Cons.prems(1) b]
      by (auto split: if_splits)
  qed
  ultimately show ?case
    using Cons.IH [of "ReleasePageLocked b c"] block_refs_ReleasePageLocked [OF Cons.prems(1) b]
    by simp
qed simp

lemma block_refs_allocated:
  assumes "allocated c c' ids"
  shows "block_refs c' b = block_refs c b + count (mset (map int ids)) b"
proof (cases "b \<in> int ` set ids")
  case True
  then obtain i where i: "b = int i" "i \<in> set ids" by blast
  have "distinct (map int ids)" using assms by (simp add: allocated_def distinct_map inj_on_def)
  with True have "count (mset (map int ids)) b = 1"
    unfolding distinct_count_atmost_1 by (metis list.set_map)
  with assms i show ?thesis by (auto simp: allocated_def block_refs_def in_range_def)
next
  case False
  then have "count (mset (map int ids)) b = 0" by (auto simp: count_eq_zero_iff)
  moreover have "0 \<le> b \<Longrightarrow> nat b \<notin> set ids" using False by force
  ultimately show ?thesis using assms by (auto simp: allocated_def block_refs_def in_range_def)
qed

lemma block_refs_ReserveBlocks_error:
  assumes "ReserveBlocks n c = (c', Inl e)"
  shows "block_refs c' b = block_refs c b"
proof -
  note * = ReserveBlocks_InlD [OF assms]
  then have len: "length (pages c') = length (pages c)" by (metis length_map)
  have "in_use (pages c' ! i) = in_use (pages c ! i)" if "i < length (pages c)" for i
    using * that len by (metis nth_map)
  with * len show ?thesis by (auto simp: block_refs_def in_range_def)
qed

lemma ReserveBlocks_fresh:
  "ReserveBlocks n c = (c', Inr bs) \<Longrightarrow> distinct bs \<and> (\<forall>b \<in> set bs. block_refs c b = 0)"
  by (drule ReserveBlocks_InrD) (auto simp: allocated_def distinct_map inj_on_def block_refs_def)

lemma block_refs_ReserveBlocks:
  "ReserveBlocks n c = (c', Inr bs) \<Longrightarrow> block_refs c' b = block_refs c b + count (mset bs) b"
  using ReserveBlocks_InrD block_refs_allocated by blast

interpretation kv: block_pool kv_wf block_refs ReserveBlocks AcquireBlocks ReleaseBlocks
  by unfold_locales
     (rule kv_wf_ReserveBlocks kv_wf_AcquireBlocks kv_wf_ReleaseBlocks ReserveBlocks_fresh
        block_refs_ReserveBlocks block_refs_ReserveBlocks_error block_refs_AcquireBlocks
        block_refs_ReleaseBlocks; assumption)+

subsection \<open>Swapping blocks to host memory and back\<close>

text \<open>The pages in \<open>is\<close> moved, in order, to the host blocks \<open>hs\<close>.\<close>

definition swapped_out :: "PagedKVCache \<Rightarrow> PagedKVCache \<Rightarrow> nat list \<Rightarrow> nat list \<Rightarrow> bool" where
  "swapped_out c c' is hs \<longleftrightarrow>
     length hs = length is \<and> distinct hs \<and>
     length (pages c') = length (pages c) \<and> length (host_blocks c') = length (host_blocks c) \<and>
     (\<forall>k < length is. hs ! k < length (host_blocks c) \<and> \<not> in_use (host_blocks c ! (hs ! k)) \<and>
        in_use (host_blocks c' ! (hs ! k)) \<and>
        data (host_blocks c' ! (hs ! k)) = data (pages c ! (is ! k)) \<and>
        \<not> in_use (pages c' ! (is ! k))) \<and>
     (\<forall>h. h \<notin> set hs \<longrightarrow> host_blocks c' ! h = host_blocks c ! h) \<and>
     (\<forall>i. i \<notin> set is \<longrightarrow> pages c' ! i = pages c ! i)"

lemma swap_out_block_frame [simp]:
  "pages (swap_out_block h i c) = upd_at i (\<lambda>p. p\<lparr>data := [], in_use := False, dirty := False\<rparr>) (pages c)"
  "host_blocks (swap_out_block h i c) =
     upd_at h (\<lambda>p. p\<lparr>data := data (pages c ! i), in_use := True, last_used := usage_counter c\<rparr>) (host_blocks c)"
  by (simp_all add: swap_out_block_def)

lemma swapped_out_snoc:
  assumes "swapped_out c c1 is hs" "i < length (pages c)" "i \<notin> set is"
    and h: "h < length (host_blocks c1)" "\<not> in_use (host_blocks c1 ! h)"
  shows "swapped_out c (swap_out_block h i c1) (is @ [i]) (hs @ [h])"
proof -
  have "h \<notin> set hs" using assms(1) h(2) by (metis in_set_conv_nth swapped_out_def)
  moreover have "i \<noteq> is ! k" if "k < length is" for k using assms(3) that nth_mem by blast
  moreover have "h \<noteq> hs ! k" if "k < length hs" for k using \<open>h \<notin> set hs\<close> that nth_mem by blast
  ultimately show ?thesis
    using assms unfolding swapped_out_def by (auto simp: nth_append less_Suc_eq)
qed

lemma NumAvailable_swap_out_block:
  assumes "h < length (host_blocks c)" "\<not> in_use (host_blocks c ! h)"
  shows "NumAvailableHostBlocks c = Suc (NumAvailableHostBlocks (swap_out_block h i c))"
  using assms count_if_update [of h "host_blocks c" "\<lambda>p. \<not> in_use p"]
  by (simp add: NumAvailableHostBlocks_def upd_at_def)

lemma find_host_block:
  assumes "0 < NumAvailableHostBlocks c"
  obtains h where "find_index (\<lambda>b. \<not> in_use b) (host_blocks c) = Some h"
    "h < length (host_blocks c)" "\<not> in_use (host_blocks c ! h)"
proof (cases "find_index (\<lambda>b. \<not> in_use b) (host_blocks c)")
  case None
  then have "NumAvailableHostBlocks c = 0"
    unfolding NumAvailableHostBlocks_def count_if_0_iff find_index_None_iff .
  with assms show ?thesis by simp
next
  case (Some h)
  with find_index_SomeD [OF Some] that show ?thesis by simp
qed

lemma swap_out_loop_spec:
  assumes "swapped_out c0 c is hs" "distinct (is @ js)" "\<forall>j \<in> set js. j < length (pages c0)"
    "length js \<le> NumAvailableHostBlocks c"
  shows "\<exists>c' hs'. swap_out_loop (map int js) (map int hs) c = (c', Inr (map int hs')) \<and>
           swapped_out c0 c' (is @ js) hs' \<and>
           NumAvailableHostBlocks c' = NumAvailableHostBlocks c - length js"
  using assms
proof (induction js arbitrary: c "is" hs)
  case (Cons j js)
  have "0 < NumAvailableHostBlocks c" using Cons.prems(4) by simp
  then obtain h where h: "find_index (\<lambda>b. \<not> in_use b) (host_blocks c) = Some h"
    "h < length (host_blocks c)" "\<not> in_use (host_blocks c ! h)" by (rule find_host_block)
  have j: "j < length (pages c)" using Cons.prems(1,3) by (simp add: swapped_out_def)
  have "swapped_out c0 (swap_out_block h j c) (is @ [j]) (hs @ [h])"
    using swapped_out_snoc [OF Cons.prems(1) _ _ h(2,3)] Cons.prems(2,3) by simp
  from Cons.IH [OF this] Cons.prems NumAvailable_swap_out_block [OF h(2,3), of j] h(1) j
  show ?case by simp
qed auto

text \<open>The host blocks in \<open>hs\<close> moved, in order, to the pages \<open>ts\<close>.\<close>

lemma swap_in_fold:
  assumes "length hs = length ts" "distinct hs" "distinct ts"
    "\<forall>h \<in> set hs. h < length (host_blocks c)" "\<forall>t \<in> set ts. t < length (pages c)"
  shows "\<exists>c'. foldl (\<lambda>c (h, t). swap_in_block h t c) c (zip (map int hs) (map int ts)) = c' \<and>
           length (pages c') = length (pages c) \<and> length (host_blocks c') = length (host_blocks c) \<and>
           map (\<lambda>t. data (pages c' ! t)) ts = map (\<lambda>h. data (host_blocks c ! h)) hs \<and>
           (\<forall>t \<in> set ts. in_use (pages c' ! t) \<and> ref_count (pages c' ! t) = ref_count (pages c ! t)) \<and>
           (\<forall>i. i \<notin> set ts \<longrightarrow> pages c' ! i = pages c ! i) \<and>
           (\<forall>h \<in> set hs. \<not> in_use (host_blocks c' ! h)) \<and>
           (\<forall>h. h \<notin> set hs \<longrightarrow> host_blocks c' ! h = host_blocks c ! h)"
  using assms
proof (induction hs ts arbitrary: c rule: list_induct2)
  case (Cons h hs t ts)
  let ?c1 = "swap_in_block (int h) (int t) c"
  have c1: "pages ?c1 = upd_at t (\<lambda>p. p\<lparr>data := data (host_blocks c ! h), in_use := True,
                     last_used := usage_counter c, dirty := True\<rparr>) (pages c)"
      "host_blocks ?c1 = upd_at h (\<lambda>p. p\<lparr>in_use := False, data := []\<rparr>) (host_blocks c)"
    using Cons.prems by (simp_all add: swap_in_block_def)
  have ne: "\<forall>h' \<in> set hs. h' \<noteq> h" "\<forall>t' \<in> set ts. t' \<noteq> t" using Cons.prems by auto
  from Cons.IH [of ?c1] Cons.prems c1 ne show ?case by (auto simp: c1)
qed simp

subsection \<open>Page files\<close>

lemma bytes_float_float_bytes:
  "bytes_float (ucast w) (ucast (drop_bit 8 w)) (ucast (drop_bit 16 w)) (ucast (drop_bit 24 w)) = w"
  unfolding bytes_float_def
proof (rule bit_word_eqI)
  fix n assume "n < LENGTH(32)"
  then show "bit (ucast (ucast w :: byte) OR push_bit 8 (ucast (ucast (drop_bit 8 w) :: byte)) OR
      push_bit 16 (ucast (ucast (drop_bit 16 w) :: byte)) OR
      push_bit 24 (ucast (ucast (drop_bit 24 w) :: byte)) :: 32 word) n = bit w n"
    by (cases "n < 8"; cases "n < 16"; cases "n < 24") (auto simp: bit_simps)
qed

lemma bytes_floats_bytes [simp]: "bytes_floats (floats_bytes vs) = vs"
  by (induction vs) (auto simp: floats_bytes_def float_bytes_def bytes_float_float_bytes)

lemma length_floats_bytes [simp]: "length (floats_bytes vs) = 4 * length vs"
  by (induction vs) (auto simp: floats_bytes_def float_bytes_def)

lemma page_file_inj:
  assumes "0 \<le> i" "0 \<le> j" "page_file p i = page_file p j"
  shows "i = j"
  using assms
  by (auto simp: page_file_def path_join_def int_to_string_def split: if_splits dest!: nat_to_string_inj)

subsection \<open>The cache as a machine\<close>

datatype kv_op =
    OpReservePage
  | OpReserveBlocks nat
  | OpReleasePage int
  | OpReleaseBlocks "int list"
  | OpAcquireBlocks "int list"
  | OpReleaseBlocksRef "int list"
  | OpSwapOut "int list"
  | OpSwapIn "int list" "int list"
  | OpWrite int "32 word list"
  | OpRead directory int
  | OpSetOffloadPath string
  | OpSetEvictionPolicy EvictionPolicy
  | OpConfigureAsyncWriter nat nat

primrec kv_step :: "PagedKVCache \<Rightarrow> kv_op \<Rightarrow> PagedKVCache" where
  "kv_step c OpReservePage = fst (ReservePage c)"
| "kv_step c (OpReserveBlocks n) = fst (ReserveBlocks n c)"
| "kv_step c (OpReleasePage b) = ReleasePage b c"
| "kv_step c (OpReleaseBlocks bs) = ReleaseBlocks bs c"
| "kv_step c (OpAcquireBlocks bs) = AcquireBlocks bs c"
| "kv_step c (OpReleaseBlocksRef bs) = ReleaseBlocksRef bs c"
| "kv_step c (OpSwapOut bs) = fst (SwapOut bs c)"
| "kv_step c (OpSwapIn hs ts) = fst (SwapIn hs ts c)"
| "kv_step c (OpWrite b v) = fst (kv_Write b v c)"
| "kv_step c (OpRead dir b) = fst (kv_Read dir b c)"
| "kv_step c (OpSetOffloadPath p) = SetOffloadPath p c"
| "kv_step c (OpSetEvictionPolicy p) = SetEvictionPolicy p c"
| "kv_step c (OpConfigureAsyncWriter w d) = ConfigureAsyncWriter w d c"

primrec kv_legal :: "PagedKVCache \<Rightarrow> kv_op \<Rightarrow> bool" where
  "kv_legal c OpReservePage = True"
| "kv_legal c (OpReserveBlocks n) = True"
| "kv_legal c (OpReleasePage b) = True"
| "kv_legal c (OpReleaseBlocks bs) = True"
| "kv_legal c (OpAcquireBlocks bs) = True"
| "kv_legal c (OpReleaseBlocksRef bs) = True"
| "kv_legal c (OpSwapOut bs) = True"
| "kv_legal c (OpSwapIn hs ts) = list_all (held c) ts"
| "kv_legal c (OpWrite b v) = True"
| "kv_legal c (OpRead dir b) = True"
| "kv_legal c (OpSetOffloadPath p) = True"
| "kv_legal c (OpSetEvictionPolicy p) = True"
| "kv_legal c (OpConfigureAsyncWriter w d) = True"

interpretation kvm: machine kv_step kv_wf kv_legal
proof
  show "kv_wf c \<Longrightarrow> kv_legal c a \<Longrightarrow> kv_wf (kv_step c a)" for c a
    by (cases a) (simp_all add: invariants ReleasePage_def ReleaseBlocksRef_def)
qed

subsection \<open>Properties\<close>

text \<open>
  C29: Starting from the constructor, whatever sequence of public methods runs (errors
  included), the cache stays well formed: the clock bits and the host tier keep their size,
  the clock hand points into the page vector, every page in use carries at least one
  reference, a free host block holds no data, and the writer object exists exactly when an
  offload path is set. The one obligation on callers is that swap-in targets are held.
\<close>

theorem kv_reachable_wf:
  assumes "legal_run kv_step kv_legal (PagedKVCache_init n psize policy) ops"
  shows "kv_wf (foldl kv_step (PagedKVCache_init n psize policy) ops)"
  using kv_wf_init assms by (rule kvm.run_inv)

theorem kv_reachable_wf_witness:
  "kv_wf (foldl kv_step (PagedKVCache_init 3 8 kClock)
     [OpReserveBlocks 2, OpSwapOut [0], OpReservePage, OpSwapIn [0] [2], OpReleaseBlocks [1, 2]])"
  by (rule kv_reachable_wf) code_simp

text \<open>
  C24: \<open>ReserveBlocks n\<close> returns blocks exactly when \<open>n\<close> pages are free, under either eviction
  policy. It then returns \<open>n\<close> distinct pages that were all free, each now in use with one
  reference, clean and of the configured size, touches no other page, and lowers the free
  count by \<open>n\<close>. Otherwise it fails and gives back every page it had taken: the pages in use
  are the same as before, unchanged.
\<close>

theorem ReserveBlocks_correct:
  "(n \<le> NumFreeBlocks c \<longrightarrow>
     (\<exists>c' ids. ReserveBlocks n c = (c', Inr (map int ids)) \<and> length ids = n \<and>
        allocated c c' ids \<and> NumFreeBlocks c' = NumFreeBlocks c - n)) \<and>
   (NumFreeBlocks c < n \<longrightarrow>
     (\<exists>c'. ReserveBlocks n c = (c', Inl KVCacheExhaustedMultiBlock) \<and>
        NumFreeBlocks c' = NumFreeBlocks c \<and> map in_use (pages c') = map in_use (pages c) \<and>
        (\<forall>i < length (pages c). in_use (pages c ! i) \<longrightarrow> pages c' ! i = pages c ! i)))"
proof (intro conjI impI)
  assume "n \<le> NumFreeBlocks c"
  from reserve_loop_success [OF this allocated_refl [OF refl refl refl]]
  show "\<exists>c' ids. ReserveBlocks n c = (c', Inr (map int ids)) \<and> length ids = n \<and>
        allocated c c' ids \<and> NumFreeBlocks c' = NumFreeBlocks c - n"
    by (auto simp: ReserveBlocks_def)
next
  assume "NumFreeBlocks c < n"
  from reserve_loop_failure [OF this allocated_refl [OF refl refl refl]]
  obtain c' where c': "ReserveBlocks n c = (c', Inl KVCacheExhaustedMultiBlock)"
    "map in_use (pages c') = map in_use (pages c)"
    "\<forall>i < length (pages c). in_use (pages c ! i) \<longrightarrow> pages c' ! i = pages c ! i"
    unfolding ReserveBlocks_def by blast
  have "NumFreeBlocks c' = NumFreeBlocks c"
    unfolding NumFreeBlocks_def using c'(2)
    by (intro count_if_cong_nth) (metis length_map, metis length_map nth_map)
  with c' show "\<exists>c'. ReserveBlocks n c = (c', Inl KVCacheExhaustedMultiBlock) \<and>
        NumFreeBlocks c' = NumFreeBlocks c \<and> map in_use (pages c') = map in_use (pages c) \<and>
        (\<forall>i < length (pages c). in_use (pages c ! i) \<longrightarrow> pages c' ! i = pages c ! i)" by blast
qed

theorem ReserveBlocks_correct_witness:
  "\<exists>c' ids. ReserveBlocks 2 (PagedKVCache_init 3 8 kLRU) = (c', Inr (map int ids)) \<and>
     length ids = 2 \<and> NumFreeBlocks c' = 1"
proof -
  have "NumFreeBlocks (PagedKVCache_init 3 8 kLRU) = 3" by code_simp
  with ReserveBlocks_correct [of 2 "PagedKVCache_init 3 8 kLRU"] show ?thesis by auto
qed

text \<open>
  C4: Reference counting is exact. A client that starts from an empty ledger on a fresh
  cache, adds to the ledger what \<open>ReserveBlocks\<close> and \<open>AcquireBlocks\<close> give it, acquires only
  blocks it holds and releases only references it holds, finds after any sequence of calls
  that the cache counts exactly the ledger's references on every block. In particular a
  block with a reference is in use (so it cannot be handed out again), and when the ledger
  is empty every page is free.
\<close>

theorem kv_ledger_exact:
  assumes "legal_run (pool_step ReserveBlocks AcquireBlocks ReleaseBlocks) pool_legal
             (PagedKVCache_init n psize policy, {#}) ops"
    and "foldl (pool_step ReserveBlocks AcquireBlocks ReleaseBlocks)
             (PagedKVCache_init n psize policy, {#}) ops = (c, L)"
  shows "kv_wf c \<and> (\<forall>b. block_refs c b = count L b) \<and>
         (\<forall>b \<in># L. in_range b (pages c) \<and> in_use (pages c ! nat b)) \<and>
         (L = {#} \<longrightarrow> NumFreeBlocks c = length (pages c))"
proof -
  have init: "balanced kv_wf block_refs (PagedKVCache_init n psize policy, {#})"
    by (simp add: balanced_def kv_wf_init fun_eq_iff block_refs_init)
  have bal: "balanced kv_wf block_refs (c, L)"
    using kv.ledger.run_inv [OF init assms(1)] assms(2) by simp
  then have wf: "kv_wf c" and refs: "block_refs c b = count L b" for b
    by (auto simp: balanced_def)
  have used: "in_range b (pages c) \<and> in_use (pages c ! nat b)" if "b \<in># L" for b
    using that block_refs_pos [OF wf, of b] refs [of b] by simp
  have "NumFreeBlocks c = length (pages c)" if "L = {#}"
  proof -
    have "\<not> in_use (pages c ! i)" if "i < length (pages c)" for i
      using block_refs_pos [OF wf, of "int i"] refs [of "int i"] \<open>L = {#}\<close> that by simp
    then have "count_if in_use (pages c) = 0"
      unfolding count_if_0_iff by (metis in_set_conv_nth)
    then show ?thesis using count_if_compl [of in_use "pages c"] by (simp add: NumFreeBlocks_def)
  qed
  with wf refs used show ?thesis by blast
qed

theorem kv_ledger_exact_witness:
  "let r = foldl (pool_step ReserveBlocks AcquireBlocks ReleaseBlocks)
     (PagedKVCache_init 2 8 kLRU, {#})
     [PoolReserve 1, PoolAcquire [1], PoolRelease [1], PoolRelease [1]]
   in NumFreeBlocks (fst r) = length (pages (fst r))"
proof -
  let ?ops = "[PoolReserve 1, PoolAcquire [1], PoolRelease [1], PoolRelease [1]]"
  let ?run = "foldl (pool_step ReserveBlocks AcquireBlocks ReleaseBlocks)
      (PagedKVCache_init 2 8 kLRU, {#})"
  have legal: "legal_run (pool_step ReserveBlocks AcquireBlocks ReleaseBlocks) pool_legal
      (PagedKVCache_init 2 8 kLRU, {#}) ?ops" by code_simp
  have "snd (?run ?ops) = {#}" by code_simp
  with kv_ledger_exact [OF legal, of "fst (?run ?ops)" "snd (?run ?ops)"] show ?thesis
    by (simp add: Let_def del: foldl_Cons)
qed

text \<open>
  The page chosen for a reservation is always a free one, there is a choice whenever a
  page is free, and choosing changes nothing but the clock hand and the clock bits. Under
  the LRU policy the chosen page carries the smallest stamp of all free pages.
\<close>

theorem SelectEvictionCandidate_correct:
  assumes "SelectEvictionCandidate c = (c', r)"
  shows "(r = None \<longleftrightarrow> NumFreeBlocks c = 0) \<and> pages c' = pages c \<and>
     (\<forall>i. r = Some i \<longrightarrow> i < length (pages c) \<and> \<not> in_use (pages c ! i) \<and>
        (eviction_policy c = kLRU \<longrightarrow>
          (\<forall>p \<in> set (pages c). \<not> in_use p \<longrightarrow> last_used (pages c ! i) \<le> last_used p)))"
proof -
  have "last_used (pages c ! i) \<le> last_used p"
    if "r = Some i" "eviction_policy c = kLRU" "p \<in> set (pages c)" "\<not> in_use p" for i p
  proof -
    have "lru_scan 0 (pages c) None (- 1) = Some i"
      using assms that by (auto simp: SelectEvictionCandidate_def split: if_splits)
    from lru_scan_minimal [OF this] that show ?thesis by simp
  qed
  with assms select_None_iff [OF assms] select_Some [of c c'] select_frameD(1) [OF assms]
  show ?thesis by auto
qed

theorem SelectEvictionCandidate_correct_witness:
  "snd (SelectEvictionCandidate (PagedKVCache_init 2 8 kClock)) = Some 0 \<and>
   \<not> in_use (pages (PagedKVCache_init 2 8 kClock) ! 0)"
proof -
  have e: "SelectEvictionCandidate (PagedKVCache_init 2 8 kClock) =
      (fst (SelectEvictionCandidate (PagedKVCache_init 2 8 kClock)), Some 0)" by code_simp
  from SelectEvictionCandidate_correct [OF e] e show ?thesis by (metis snd_conv)
qed

text \<open>
  C23: Swapping is lossless. Distinct pages swapped out while enough host blocks are free
  succeed, leave the pages free and every other page and host block alone; swapping the
  returned handles into any distinct target pages, whatever happened to the pages in
  between, restores the blocks' contents in order, keeps the targets' reference counts and
  frees the host blocks again.
\<close>

theorem swap_round_trip:
  assumes "distinct is" "\<forall>i \<in> set is. i < length (pages c)"
    "length is \<le> NumAvailableHostBlocks c"
    "distinct ts" "length ts = length is" "\<forall>t \<in> set ts. t < length (pages c)"
  shows "\<exists>c1 hs. SwapOut (map int is) c = (c1, Inr (map int hs)) \<and> swapped_out c c1 is hs \<and>
     NumAvailableHostBlocks c1 = NumAvailableHostBlocks c - length is \<and>
     (\<forall>c2. host_blocks c2 = host_blocks c1 \<and> length (pages c2) = length (pages c) \<longrightarrow>
        (\<exists>c3. SwapIn (map int hs) (map int ts) c2 = (c3, Inr ()) \<and>
           map (\<lambda>t. data (pages c3 ! t)) ts = map (\<lambda>i. data (pages c ! i)) is \<and>
           (\<forall>t \<in> set ts. in_use (pages c3 ! t) \<and> ref_count (pages c3 ! t) = ref_count (pages c2 ! t)) \<and>
           (\<forall>h \<in> set hs. \<not> in_use (host_blocks c3 ! h))))"
proof -
  have start: "swapped_out c c [] []" by (simp add: swapped_out_def)
  from swap_out_loop_spec [OF start, of "is"] assms(1-3) obtain c1 hs where
    out: "SwapOut (map int is) c = (c1, Inr (map int hs))" and so: "swapped_out c c1 is hs"
    and n: "NumAvailableHostBlocks c1 = NumAvailableHostBlocks c - length is"
    by (auto simp: SwapOut_def)
  have hs: "length hs = length is" "distinct hs" "\<forall>h \<in> set hs. h < length (host_blocks c1)"
    using so by (auto simp: swapped_out_def in_set_conv_nth)
  have moved: "map (\<lambda>h. data (host_blocks c1 ! h)) hs = map (\<lambda>i. data (pages c ! i)) is"
    using so by (auto simp: swapped_out_def intro: nth_equalityI)
  have "\<exists>c3. SwapIn (map int hs) (map int ts) c2 = (c3, Inr ()) \<and>
           map (\<lambda>t. data (pages c3 ! t)) ts = map (\<lambda>i. data (pages c ! i)) is \<and>
           (\<forall>t \<in> set ts. in_use (pages c3 ! t) \<and> ref_count (pages c3 ! t) = ref_count (pages c2 ! t)) \<and>
           (\<forall>h \<in> set hs. \<not> in_use (host_blocks c3 ! h))"
    if "host_blocks c2 = host_blocks c1" "length (pages c2) = length (pages c)" for c2
    using swap_in_fold [of hs ts c2] hs assms(4-6) that moved by (auto simp: SwapIn_def)
  with out so n show ?thesis by blast
qed

theorem swap_round_trip_witness:
  "\<exists>c1 hs. SwapOut [1, 0] (PagedKVCache_init 2 8 kLRU) = (c1, Inr (map int hs)) \<and>
     NumAvailableHostBlocks c1 = 2"
proof -
  have "2 \<le> NumAvailableHostBlocks (PagedKVCache_init 2 8 kLRU)"
    "NumAvailableHostBlocks (PagedKVCache_init 2 8 kLRU) = 4"
    "length (pages (PagedKVCache_init 2 8 kLRU)) = 2" by code_simp+
  with swap_round_trip [of "[1, 0]" "PagedKVCache_init 2 8 kLRU" "[0, 1]"] show ?thesis by auto
qed

end
