(* ===== verification/Async_Writer.thy ===== *)
theory Async_Writer
  imports Paged_KV_Cache
begin

section \<open>The asynchronous page writer\<close>

text \<open>
  \<open>io/async_file_writer.{h,cpp}\<close>. A bounded queue of write tasks, producers that wait while
  it is full, and worker threads that take a task under the mutex and write the file after
  releasing it. The threads interleave, so the model is a labelled transition function: an
  event names which thread moves, \<^const>\<open>None\<close> means that the event cannot happen now (the
  thread waits on a condition variable), and a schedule is a list of events. A file write is
  its own event: truncating and writing the file is not protected by the mutex, and it may
  fail to open. The ghost fields \<open>accepted\<close> and \<open>finished\<close> record the tasks that entered
  the queue and those whose file operation ended, in order.
\<close>

type_synonym AsyncWriteTask = "string \<times> byte list"

datatype worker = Waiting | Writing AsyncWriteTask | Exited

record AsyncFileWriter =
  max_queue_depth :: nat
  preferred_workers :: nat
  tasks :: "AsyncWriteTask list"
  stop :: bool
  running :: bool
  workers :: "worker list"
  accepted :: "AsyncWriteTask list"
  finished :: "AsyncWriteTask list"

definition AsyncFileWriter_init :: "nat \<Rightarrow> AsyncFileWriter" where
  "AsyncFileWriter_init depth =
     \<lparr>max_queue_depth = depth, preferred_workers = 1, tasks = [], stop = False, running = False,
      workers = [], accepted = [], finished = []\<rparr>"

definition Configure :: "nat \<Rightarrow> nat \<Rightarrow> AsyncFileWriter \<Rightarrow> AsyncFileWriter" where
  "Configure n depth w =
     (let w1 = w\<lparr>preferred_workers := (if n = 0 then 1 else n)\<rparr>
      in if depth > 0 then w1\<lparr>max_queue_depth := depth\<rparr> else w1)"

definition Start :: "nat \<Rightarrow> AsyncFileWriter \<Rightarrow> AsyncFileWriter" where
  "Start n w =
     (if running w then w
      else
        let n1 = (if n = 0 then preferred_workers w else n);
            n2 = (if n1 = 0 then 1 else n1)
        in w\<lparr>stop := False, running := True, preferred_workers := n2,
             workers := workers w @ replicate n2 Waiting\<rparr>)"

definition Enqueue :: "AsyncWriteTask \<Rightarrow> AsyncFileWriter \<Rightarrow> AsyncFileWriter option" where
  "Enqueue task w =
     (if \<not> (stop w \<or> length (tasks w) < max_queue_depth w) then None
      else if stop w then Some w
      else
        let w1 = w\<lparr>tasks := tasks w @ [task], accepted := accepted w @ [task]\<rparr>
        in Some (if \<not> running w then Start 0 w1 else w1))"

text \<open>One worker taking a task, ending the write of its file, and leaving its loop.\<close>

definition Worker_take :: "nat \<Rightarrow> AsyncFileWriter \<Rightarrow> AsyncFileWriter option" where
  "Worker_take i w =
     (if i < length (workers w) \<and> workers w ! i = Waiting then
        case tasks w of
          [] \<Rightarrow> None
        | t # ts \<Rightarrow> Some (w\<lparr>tasks := ts, workers := (workers w)[i := Writing t]\<rparr>)
      else None)"

definition Worker_write :: "nat \<Rightarrow> bool \<Rightarrow> AsyncFileWriter \<times> directory \<Rightarrow> (AsyncFileWriter \<times> directory) option" where
  "Worker_write i good wd =
     (case wd of (w, dir) \<Rightarrow>
        if i < length (workers w) then
          case workers w ! i of
            Writing (path, buffer) \<Rightarrow>
              Some (w\<lparr>workers := (workers w)[i := Waiting], finished := finished w @ [(path, buffer)]\<rparr>,
                    if good then dir(path \<mapsto> (buffer, True)) else dir)
          | _ \<Rightarrow> None
        else None)"

definition Worker_exit :: "nat \<Rightarrow> AsyncFileWriter \<Rightarrow> AsyncFileWriter option" where
  "Worker_exit i w =
     (if i < length (workers w) \<and> workers w ! i = Waiting \<and> stop w \<and> tasks w = []
      then Some (w\<lparr>workers := (workers w)[i := Exited]\<rparr>) else None)"

definition Stop_request :: "AsyncFileWriter \<Rightarrow> AsyncFileWriter" where
  "Stop_request w = w\<lparr>stop := True\<rparr>"

text \<open>\<open>Stop\<close> returns once every worker thread has been joined.\<close>

definition Stop_joined :: "AsyncFileWriter \<Rightarrow> AsyncFileWriter option" where
  "Stop_joined w =
     (if stop w \<and> list_all (\<lambda>k. k = Exited) (workers w)
      then Some (w\<lparr>workers := [], running := False\<rparr>) else None)"

datatype writer_event =
    EvConfigure nat nat
  | EvStart nat
  | EvEnqueue AsyncWriteTask
  | EvTake nat
  | EvWrite nat bool
  | EvExit nat
  | EvStopRequest
  | EvStopJoined

fun writer_step :: "AsyncFileWriter \<times> directory \<Rightarrow> writer_event \<Rightarrow> (AsyncFileWriter \<times> directory) option" where
  "writer_step (w, dir) (EvConfigure n d) = Some (Configure n d w, dir)"
| "writer_step (w, dir) (EvStart n) = Some (Start n w, dir)"
| "writer_step (w, dir) (EvEnqueue t) = map_option (\<lambda>w'. (w', dir)) (Enqueue t w)"
| "writer_step (w, dir) (EvTake i) = map_option (\<lambda>w'. (w', dir)) (Worker_take i w)"
| "writer_step (w, dir) (EvWrite i good) = Worker_write i good (w, dir)"
| "writer_step (w, dir) (EvExit i) = map_option (\<lambda>w'. (w', dir)) (Worker_exit i w)"
| "writer_step (w, dir) EvStopRequest = Some (Stop_request w, dir)"
| "writer_step (w, dir) EvStopJoined = map_option (\<lambda>w'. (w', dir)) (Stop_joined w)"

fun writer_run :: "AsyncFileWriter \<times> directory \<Rightarrow> writer_event list \<Rightarrow> (AsyncFileWriter \<times> directory) option" where
  "writer_run s [] = Some s"
| "writer_run s (e # es) = (case writer_step s e of None \<Rightarrow> None | Some s' \<Rightarrow> writer_run s' es)"

subsection \<open>Where the accepted tasks are\<close>

fun in_flight :: "worker list \<Rightarrow> AsyncWriteTask list" where
  "in_flight [] = []"
| "in_flight (Writing t # ws) = t # in_flight ws"
| "in_flight (_ # ws) = in_flight ws"

lemma in_flight_append [simp]: "in_flight (us @ vs) = in_flight us @ in_flight vs"
  by (induction us rule: in_flight.induct) auto

lemma in_flight_replicate_Waiting [simp]: "in_flight (replicate n Waiting) = []"
  by (induction n) auto

lemma in_flight_all_Exited: "list_all (\<lambda>k. k = Exited) ws \<Longrightarrow> in_flight ws = []"
  by (induction ws) auto

definition worker_tasks :: "worker \<Rightarrow> AsyncWriteTask multiset" where
  "worker_tasks k = (case k of Writing t \<Rightarrow> {#t#} | _ \<Rightarrow> {#})"

lemma mset_in_flight_Cons [simp]:
  "mset (in_flight (k # ws)) = worker_tasks k + mset (in_flight ws)"
  by (cases k) (auto simp: worker_tasks_def)

lemma worker_tasks_simps [simp]:
  "worker_tasks Waiting = {#}" "worker_tasks Exited = {#}" "worker_tasks (Writing t) = {#t#}"
  by (simp_all add: worker_tasks_def)

lemma mset_in_flight_update:
  "i < length ws \<Longrightarrow>
     mset (in_flight (ws[i := k])) + worker_tasks (ws ! i) = mset (in_flight ws) + worker_tasks k"
proof (induction ws arbitrary: i)
  case (Cons v ws)
  then show ?case by (cases i) (auto simp: ac_simps)
qed simp

definition writer_ok :: "AsyncFileWriter \<times> directory \<Rightarrow> bool" where
  "writer_ok = (\<lambda>(w, dir).
     mset (accepted w) = mset (finished w) + mset (in_flight (workers w)) + mset (tasks w) \<and>
     (running w \<longleftrightarrow> workers w \<noteq> []) \<and> (tasks w \<noteq> [] \<longrightarrow> running w) \<and>
     (Exited \<in> set (workers w) \<longrightarrow> stop w \<and> tasks w = []) \<and> 0 < preferred_workers w)"

lemma writer_ok_init [invariants]: "writer_ok (AsyncFileWriter_init depth, dir)"
  by (simp add: writer_ok_def AsyncFileWriter_init_def)

lemma writer_ok_Start:
  "writer_ok (w, dir) \<Longrightarrow> writer_ok (Start n w, dir)"
  by (auto simp: writer_ok_def Start_def Let_def)

lemma writer_ok_Enqueue: "writer_ok (w, dir) \<Longrightarrow> Enqueue t w = Some w' \<Longrightarrow> writer_ok (w', dir)"
  by (auto simp: writer_ok_def Enqueue_def Start_def Let_def split: if_splits)

lemma writer_ok_take: "writer_ok (w, dir) \<Longrightarrow> Worker_take i w = Some w' \<Longrightarrow> writer_ok (w', dir)"
  using mset_in_flight_update [of i "workers w" "Writing (hd (tasks w))"]
  by (auto simp: writer_ok_def Worker_take_def split: if_splits list.splits
           dest!: subsetD [OF set_update_subset_insert])

lemma writer_ok_write:
  "writer_ok (w, dir) \<Longrightarrow> Worker_write i g (w, dir) = Some s \<Longrightarrow> writer_ok s"
  using mset_in_flight_update [of i "workers w" Waiting]
  by (auto simp: writer_ok_def Worker_write_def split: if_splits worker.splits
           dest!: subsetD [OF set_update_subset_insert])

lemma writer_ok_exit: "writer_ok (w, dir) \<Longrightarrow> Worker_exit i w = Some w' \<Longrightarrow> writer_ok (w', dir)"
  using mset_in_flight_update [of i "workers w" Exited]
  by (auto simp: writer_ok_def Worker_exit_def split: if_splits)

lemma all_Exited_member: "list_all (\<lambda>k. k = Exited) ws \<Longrightarrow> ws \<noteq> [] \<Longrightarrow> Exited \<in> set ws"
  by (cases ws) auto

lemma writer_ok_joined: "writer_ok (w, dir) \<Longrightarrow> Stop_joined w = Some w' \<Longrightarrow> writer_ok (w', dir)"
  by (auto simp: writer_ok_def Stop_joined_def in_flight_all_Exited
           dest: all_Exited_member split: if_splits)

lemma writer_ok_Configure: "writer_ok (w, dir) \<Longrightarrow> writer_ok (Configure n d w, dir)"
  by (auto simp: writer_ok_def Configure_def Let_def)

lemma writer_ok_Stop_request: "writer_ok (w, dir) \<Longrightarrow> writer_ok (Stop_request w, dir)"
  by (auto simp: writer_ok_def Stop_request_def)

lemma writer_ok_step: "writer_ok s \<Longrightarrow> writer_step s e = Some s' \<Longrightarrow> writer_ok s'"
  by (cases s; cases e)
     (auto intro: writer_ok_Configure writer_ok_Start writer_ok_Enqueue writer_ok_take
        writer_ok_write writer_ok_exit writer_ok_Stop_request writer_ok_joined)

lemma writer_ok_run: "writer_ok s \<Longrightarrow> writer_run s es = Some s' \<Longrightarrow> writer_ok s'"
  by (induction es arbitrary: s) (auto split: option.splits dest: writer_ok_step)

subsection \<open>One worker writes in order\<close>

definition single_worker_event :: "writer_event \<Rightarrow> bool" where
  "single_worker_event e =
     (case e of EvConfigure n d \<Rightarrow> n \<le> 1 | EvStart n \<Rightarrow> n \<le> 1 | EvWrite i good \<Rightarrow> good | _ \<Rightarrow> True)"

text \<open>The directory after writing the tasks one after the other.\<close>

definition write_all :: "AsyncWriteTask list \<Rightarrow> directory \<Rightarrow> directory" where
  "write_all ts dir = foldl (\<lambda>d (path, buffer). d(path \<mapsto> (buffer, True))) dir ts"

definition writer_fifo :: "directory \<Rightarrow> AsyncFileWriter \<times> directory \<Rightarrow> bool" where
  "writer_fifo dir0 = (\<lambda>(w, dir).
     writer_ok (w, dir) \<and> length (workers w) \<le> 1 \<and> preferred_workers w = 1 \<and>
     accepted w = finished w @ in_flight (workers w) @ tasks w \<and> dir = write_all (finished w) dir0)"

lemma single_worker_cases:
  assumes "length ws \<le> 1" "i < length ws"
  shows "ws = [ws ! i] \<and> i = 0"
  using assms by (cases ws) auto

lemma writer_fifo_step:
  assumes "writer_fifo dir0 s" "single_worker_event e" "writer_step s e = Some s'"
  shows "writer_fifo dir0 s'"
proof -
  obtain w dir where s: "s = (w, dir)" by fastforce
  have ok: "writer_ok s'" using assms(1,3) writer_ok_step unfolding s writer_fifo_def by blast
  have len: "length (workers w) \<le> 1" using assms(1) by (simp add: s writer_fifo_def)
  have stopped: "\<not> running w \<Longrightarrow> workers w = []"
    using assms(1) by (simp add: s writer_fifo_def writer_ok_def)
  show ?thesis
  proof (cases e)
    case (EvTake i)
    with assms len ok s single_worker_cases [OF len, of i] show ?thesis
      by (auto simp: writer_fifo_def Worker_take_def split: if_splits list.splits)
  next
    case (EvWrite i g)
    with assms len ok s single_worker_cases [OF len, of i] show ?thesis
      by (auto simp: writer_fifo_def Worker_write_def write_all_def single_worker_event_def
               split: if_splits worker.splits)
  next
    case (EvExit i)
    with assms len ok s single_worker_cases [OF len, of i] show ?thesis
      by (auto simp: writer_fifo_def Worker_exit_def split: if_splits)
  qed (use assms len ok s stopped in
        \<open>auto simp: writer_fifo_def single_worker_event_def Configure_def Start_def Enqueue_def
            Stop_request_def Stop_joined_def Let_def in_flight_all_Exited split: if_splits\<close>)
qed

lemma writer_fifo_run:
  "writer_fifo dir0 s \<Longrightarrow> list_all single_worker_event es \<Longrightarrow> writer_run s es = Some s' \<Longrightarrow>
     writer_fifo dir0 s'"
  by (induction es arbitrary: s) (auto split: option.splits dest: writer_fifo_step)

lemma write_all_append: "write_all (xs @ ys) dir = write_all ys (write_all xs dir)"
  by (simp add: write_all_def)

lemma write_all_last: "write_all (ts @ [(path, buffer)]) dir path = Some (buffer, True)"
  by (simp add: write_all_def)

lemma writer_fifo_init: "writer_fifo dir (AsyncFileWriter_init depth, dir)"
  using writer_ok_init by (simp add: writer_fifo_def AsyncFileWriter_init_def write_all_def)

lemma writer_fifo_quiescent:
  assumes "writer_run (AsyncFileWriter_init depth, dir0) es = Some (w, dir)"
    "list_all single_worker_event es" "tasks w = []" "in_flight (workers w) = []"
  shows "dir = write_all (accepted w) dir0"
  using writer_fifo_run [OF writer_fifo_init assms(2,1)] assms(3,4) by (simp add: writer_fifo_def)

subsection \<open>Properties\<close>



text \<open>
  C37: With the default of one worker, and no failing file, files are written in the order
  in which their tasks were accepted: whenever the queue is empty and the worker idle, the
  directory is what writing the accepted tasks one after the other gives, so each file
  holds the last buffer accepted for it.
\<close>

theorem writer_single_worker_in_order:
  assumes "writer_run (AsyncFileWriter_init depth, dir0) es = Some (w, dir)"
    "list_all single_worker_event es" "tasks w = []" "in_flight (workers w) = []"
  shows "dir = write_all (accepted w) dir0 \<and>
         (\<forall>ts path buffer. accepted w = ts @ [(path, buffer)] \<longrightarrow> dir path = Some (buffer, True))"
  using writer_fifo_quiescent [OF assms] by (auto simp: write_all_last)

theorem writer_single_worker_in_order_witness:
  "\<exists>w dir. writer_run (AsyncFileWriter_init 2, Map.empty)
       [EvStart 1, EvEnqueue (''a'', [1]), EvEnqueue (''a'', [2]), EvTake 0, EvWrite 0 True, EvTake 0,
        EvWrite 0 True] = Some (w, dir) \<and> dir ''a'' = Some ([2], True)"
proof -
  let ?es = "[EvStart 1, EvEnqueue (''a'', [1]), EvEnqueue (''a'', [2]), EvTake 0, EvWrite 0 True, EvTake 0,
        EvWrite 0 True]"
  let ?r = "writer_run (AsyncFileWriter_init 2, Map.empty) ?es"
  have r: "?r = Some (fst (the ?r), snd (the ?r))" "tasks (fst (the ?r)) = []"
    "in_flight (workers (fst (the ?r))) = []"
    "accepted (fst (the ?r)) = [(''a'', [1])] @ [(''a'', [2])]"
    by (simp_all add: AsyncFileWriter_init_def Start_def Enqueue_def Worker_take_def Worker_write_def Let_def)
  have "list_all single_worker_event ?es" by (simp add: single_worker_event_def)
  from writer_single_worker_in_order [OF r(1) this r(2,3)] r(1,4) show ?thesis by blast
qed

text \<open>
  With two workers the order is lost: there is a schedule in which two tasks for the
  same file are accepted in one order and the file ends up with the content of the older
  one. Nothing in the writer serialises tasks on the same path.
\<close>

theorem writer_two_workers_stale:
  "\<exists>es w dir. writer_run (AsyncFileWriter_init 4, Map.empty) (EvStart 2 # es) = Some (w, dir) \<and>
     accepted w = [(''page_0.bin'', [1]), (''page_0.bin'', [2])] \<and>
     tasks w = [] \<and> in_flight (workers w) = [] \<and> dir ''page_0.bin'' = Some ([1], True)"
  by (rule exI [of _ "[EvEnqueue (''page_0.bin'', [1]), EvEnqueue (''page_0.bin'', [2]),
        EvTake 0, EvTake 1, EvWrite 1 True, EvWrite 0 True]"])
     (simp add: AsyncFileWriter_init_def Start_def Enqueue_def Worker_take_def Worker_write_def
        Let_def eval_nat_numeral)

end
