(* ===== verification/Radix_Prefix_Cache.thy ===== *)
theory Radix_Prefix_Cache
  imports Paged_KV_Cache "HOL-Library.AList"
begin

section \<open>The radix prefix cache\<close>

text \<open>
  \<open>runtime/prefix_cache/radix_prefix_cache.{h,cpp}\<close>. A radix tree over token sequences whose
  nodes can hold a donor: a finished sequence, its backend and the KV blocks it computed.
  A \<open>RadixNode\<close> is a tree; the \<open>unordered_map\<close> of children is an association list (its
  iteration order, which the language leaves open, matters only between equal time stamps);
  the \<open>parent\<close> pointer of a node found by \<open>CollectNodes\<close> is the path of child keys that
  leads to it. A backend is known by its identity; \<open>weak_ptr::lock\<close> asks the predicate
  \<open>alive\<close>, an argument of every operation. Calls out of the cache (freeing a backend
  sequence, the eviction callback, releasing block references) are recorded in order as
  \<open>radix_effect\<close>s. The loops of \<open>Insert\<close> that evict are partial functions: that they return
  is a theorem.
\<close>

subsection \<open>Data\<close>

record node_info =
  edge :: "int list"
  block_table :: "int list"
  sequence_id :: int
  backend :: "nat option"
  node_last_used :: u64

datatype RadixNode = RadixNode (info: node_info) (children: "(int \<times> RadixNode) list")

record RadixLookupResult =
  res_block_table :: "int list"
  res_sequence_id :: int
  res_matched_tokens :: nat

record RadixPrefixCache =
  has_kv_cache :: bool
  has_on_evict :: bool
  capacity :: nat
  max_sequences :: nat
  size_count :: nat
  live_sequences :: nat
  clock :: u64
  root :: RadixNode

datatype radix_effect =
    FreeSequence nat int
  | OnEvictSeq int "nat option"
  | ReleaseRef "int list"

record RadixPrefixMemorySnapshot =
  unique_retained_blocks :: nat
  retained_bytes :: nat
  snap_live_sequences :: nat

definition empty_info :: node_info where
  "empty_info = \<lparr>edge = [], block_table = [], sequence_id = -1, backend = None, node_last_used = 0\<rparr>"

definition RadixPrefixCache_init :: "bool \<Rightarrow> bool \<Rightarrow> nat \<Rightarrow> nat \<Rightarrow> RadixPrefixCache" where
  "RadixPrefixCache_init kv cb cap max_seq =
     \<lparr>has_kv_cache = kv, has_on_evict = cb, capacity = cap, max_sequences = max_seq, size_count = 0,
      live_sequences = 0, clock = 0, root = RadixNode empty_info []\<rparr>"

definition lock_backend :: "(nat \<Rightarrow> bool) \<Rightarrow> nat option \<Rightarrow> nat option" where
  "lock_backend alive be = (case be of Some b \<Rightarrow> if alive b then Some b else None | None \<Rightarrow> None)"

fun CommonPrefixLength :: "int list \<Rightarrow> int list \<Rightarrow> nat" where
  "CommonPrefixLength (x # xs) (y # ys) = (if x = y then Suc (CommonPrefixLength xs ys) else 0)"
| "CommonPrefixLength _ _ = 0"

definition ReuseEnabled :: "RadixPrefixCache \<Rightarrow> bool" where
  "ReuseEnabled c \<longleftrightarrow> capacity c > 0 \<and> max_sequences c > 0"

subsection \<open>Looking up a prefix\<close>

text \<open>The local variables of \<open>Lookup\<close>.\<close>

record lookup_locals =
  lk_offset :: nat
  lk_blocks :: "int list"
  lk_last_seq_id :: int
  lk_last_seq_tokens :: nat
  lk_node_hit :: bool
  lk_clock :: u64

definition lookup_visit :: "node_info \<Rightarrow> nat \<Rightarrow> lookup_locals \<Rightarrow> lookup_locals" where
  "lookup_visit i common l =
     (let off = lk_offset l + common;
          l1 = l\<lparr>lk_offset := off, lk_node_hit := True, lk_clock := lk_clock l + 1\<rparr>
      in if sequence_id i \<ge> 0
         then l1\<lparr>lk_last_seq_id := sequence_id i, lk_last_seq_tokens := off, lk_blocks := block_table i\<rparr>
         else l1)"

lemma size_child:
  "map_of cs k = Some c \<Longrightarrow> size c < size_list (size_prod (\<lambda>_. 0) size) cs"
proof -
  assume "map_of cs k = Some c"
  then have "(k, c) \<in> set cs" by (rule map_of_SomeD)
  then show ?thesis by (induction cs) auto
qed

function lookup_walk ::
  "(nat \<Rightarrow> bool) \<Rightarrow> nat option \<Rightarrow> RadixNode \<Rightarrow> int list \<Rightarrow> lookup_locals \<Rightarrow> RadixNode \<times> lookup_locals" where
  "lookup_walk alive be (RadixNode i cs) rest l =
     (case rest of
        [] \<Rightarrow> (RadixNode i cs, l)
      | first # _ \<Rightarrow>
          (case map_of cs first of
             None \<Rightarrow> (RadixNode i cs, l)
           | Some child \<Rightarrow>
               let common = CommonPrefixLength (edge (info child)) rest
               in if common < length (edge (info child)) then
                    (RadixNode i cs, l\<lparr>lk_offset := lk_offset l + common, lk_node_hit := False\<rparr>)
                  else if sequence_id (info child) \<ge> 0 \<and> lock_backend alive (backend (info child)) \<noteq> be then
                    (RadixNode i cs, l\<lparr>lk_offset := lk_offset l + common, lk_node_hit := False\<rparr>)
                  else
                    let l1 = lookup_visit (info child) common l;
                        touched = RadixNode ((info child)\<lparr>node_last_used := lk_clock l1\<rparr>) (children child);
                        (child', l2) = lookup_walk alive be touched (drop common rest) l1
                    in (RadixNode i (AList.update first child' cs), l2)))"
  by pat_completeness auto
termination
proof (relation "measure (\<lambda>(_, _, n, _). size n)", goal_cases)
  case (2 alive be i cs rest l first x22 child)
  then show ?case by (cases child) (auto dest: size_child)
qed simp

definition radix_Lookup ::
  "(nat \<Rightarrow> bool) \<Rightarrow> int list \<Rightarrow> nat option \<Rightarrow> RadixPrefixCache \<Rightarrow> RadixPrefixCache \<times> bool \<times> RadixLookupResult" where
  "radix_Lookup alive tokens be c =
     (let none = \<lparr>res_block_table = [], res_sequence_id = -1, res_matched_tokens = 0\<rparr>
      in if capacity c = 0 \<or> tokens = [] then (c, False, none)
         else
           let (root', l) = lookup_walk alive be (root c) tokens
                 \<lparr>lk_offset = 0, lk_blocks = [], lk_last_seq_id = -1, lk_last_seq_tokens = 0,
                  lk_node_hit = False, lk_clock = clock c\<rparr>;
               c' = c\<lparr>root := root', clock := lk_clock l\<rparr>
           in if lk_node_hit l \<and> lk_last_seq_id l \<ge> 0 \<and> lk_blocks l \<noteq> [] then
                (c', True, \<lparr>res_block_table = lk_blocks l, res_sequence_id = lk_last_seq_id l,
                            res_matched_tokens = lk_last_seq_tokens l\<rparr>)
              else (c', False, none\<lparr>res_matched_tokens := lk_offset l\<rparr>))"

subsection \<open>Inserting a donor\<close>

definition SplitEdge :: "RadixNode \<Rightarrow> nat \<Rightarrow> RadixNode" where
  "SplitEdge original split_at =
     RadixNode (empty_info\<lparr>edge := take split_at (edge (info original))\<rparr>)
       [(edge (info original) ! split_at,
         RadixNode ((info original)\<lparr>edge := drop split_at (edge (info original))\<rparr>) (children original))]"

text \<open>
  The descent of \<open>Insert\<close>: the new tree, how many edges were split, and the node data
  overwritten when the descent ends on a node (\<^const>\<open>None\<close> when it created a leaf). The
  argument \<open>donor\<close> carries the block table, sequence, backend and time stamp to store.
\<close>

definition insert_rank :: "RadixNode \<Rightarrow> int list \<Rightarrow> nat" where
  "insert_rank n rest =
     (case rest of [] \<Rightarrow> 0
      | first # _ \<Rightarrow> if map_of (children n) first = None then 0 else Suc (size n))"

lemma CommonPrefixLength_0:
  "CommonPrefixLength (x # xs) (y # ys) = 0 \<Longrightarrow> x \<noteq> y"
  by auto

function insert_walk ::
  "node_info \<Rightarrow> RadixNode \<Rightarrow> int list \<Rightarrow> RadixNode \<times> nat \<times> node_info option" where
  "insert_walk donor (RadixNode i cs) rest =
     (case rest of
        [] \<Rightarrow> (RadixNode (donor\<lparr>edge := edge i\<rparr>) cs, 0, Some i)
      | first # _ \<Rightarrow>
          (case map_of cs first of
             None \<Rightarrow> (RadixNode i (AList.update first (RadixNode (donor\<lparr>edge := rest\<rparr>) []) cs), 0, None)
           | Some child \<Rightarrow>
               let common = CommonPrefixLength (edge (info child)) rest;
                   split = (common < length (edge (info child)));
                   child1 = (if split then SplitEdge child common else child);
                   (child2, splits, old) = insert_walk donor child1 (drop common rest)
               in (RadixNode i (AList.update first child2 cs), (if split then Suc splits else splits), old)))"
  by pat_completeness auto
termination
proof (relation "measures [\<lambda>(_, n, rest). length rest, \<lambda>(_, n, rest). insert_rank n rest]", goal_cases)
  case 1
  show ?case by simp
next
  case (2 donor i cs rest first ys child common split child1)
  show ?case
  proof (cases "common = 0")
    case False
    then show ?thesis using 2 by auto
  next
    case True
    have "insert_rank child1 rest < insert_rank (RadixNode i cs) rest"
    proof (cases split)
      case True
      then obtain e es where e: "edge (info child) = e # es" using 2 by (cases "edge (info child)") auto
      then have "e \<noteq> first" using 2 \<open>common = 0\<close> by (auto split: if_splits)
      then show ?thesis using 2 \<open>common = 0\<close> True e by (auto simp: insert_rank_def SplitEdge_def)
    next
      case False
      then show ?thesis using 2 size_child [of cs first child]
        by (cases child) (auto simp: insert_rank_def)
    qed
    then show ?thesis using True 2 by auto
  qed
qed

subsection \<open>Collecting and evicting nodes\<close>

text \<open>Nodes that satisfy a criterion, in depth-first order, each with its stamp and its path.\<close>

fun CollectNodes ::
  "(int list \<Rightarrow> RadixNode \<Rightarrow> bool) \<Rightarrow> int list \<Rightarrow> RadixNode \<Rightarrow> (u64 \<times> int list) list" where
  "CollectNodes criteria path (RadixNode i cs) =
     (if criteria path (RadixNode i cs) then [(node_last_used i, path)] else []) @
     concat (map (\<lambda>(k, c). CollectNodes criteria (path @ [k]) c) cs)"

fun node_at :: "RadixNode \<Rightarrow> int list \<Rightarrow> RadixNode option" where
  "node_at n [] = Some n"
| "node_at (RadixNode i cs) (k # ks) = (case map_of cs k of None \<Rightarrow> None | Some c \<Rightarrow> node_at c ks)"

fun update_at :: "RadixNode \<Rightarrow> int list \<Rightarrow> (RadixNode \<Rightarrow> RadixNode) \<Rightarrow> RadixNode" where
  "update_at n [] f = f n"
| "update_at (RadixNode i cs) (k # ks) f =
     (case map_of cs k of None \<Rightarrow> RadixNode i cs
      | Some c \<Rightarrow> RadixNode i (AList.update k (update_at c ks f) cs))"

text \<open>\<open>victim->parent->children.erase(victim->edge[0])\<close>\<close>

definition erase_node :: "RadixNode \<Rightarrow> int list \<Rightarrow> int \<Rightarrow> RadixNode" where
  "erase_node n path first_token =
     update_at n (butlast path) (\<lambda>p. RadixNode (info p) (AList.delete first_token (children p)))"

definition is_leaf_node :: "int list \<Rightarrow> RadixNode \<Rightarrow> bool" where
  "is_leaf_node path n \<longleftrightarrow> children n = [] \<and> path \<noteq> []"

definition is_seq_node :: "int list \<Rightarrow> RadixNode \<Rightarrow> bool" where
  "is_seq_node path n \<longleftrightarrow> sequence_id (info n) \<ge> 0"

definition retire_effects :: "(nat \<Rightarrow> bool) \<Rightarrow> RadixPrefixCache \<Rightarrow> node_info \<Rightarrow> radix_effect list" where
  "retire_effects alive c i =
     (let be = lock_backend alive (backend i)
      in (case be of Some b \<Rightarrow> [FreeSequence b (sequence_id i)] | None \<Rightarrow> []) @
         (if has_on_evict c then [OnEvictSeq (sequence_id i) be] else []))"

definition release_effects :: "RadixPrefixCache \<Rightarrow> node_info \<Rightarrow> radix_effect list" where
  "release_effects c i = (if has_kv_cache c \<and> block_table i \<noteq> [] then [ReleaseRef (block_table i)] else [])"

text \<open>The victim: the first node with the smallest stamp.\<close>

definition victim :: "(int list \<Rightarrow> RadixNode \<Rightarrow> bool) \<Rightarrow> RadixNode \<Rightarrow> (int list \<times> node_info \<times> bool) option" where
  "victim criteria r =
     (let nodes = CollectNodes criteria [] r
      in case min_element fst nodes of
           None \<Rightarrow> None
         | Some j \<Rightarrow>
             (case node_at r (snd (nodes ! j)) of
                None \<Rightarrow> None
              | Some n \<Rightarrow> Some (snd (nodes ! j), info n, children n = [])))"

definition EvictOne :: "(nat \<Rightarrow> bool) \<Rightarrow> RadixPrefixCache \<Rightarrow> RadixPrefixCache \<times> radix_effect list" where
  "EvictOne alive c =
     (case victim is_leaf_node (root c) of
        None \<Rightarrow> (c, [])
      | Some (path, i, _) \<Rightarrow>
          let donor = (sequence_id i \<ge> 0);
              eff = (if donor then retire_effects alive c i else []) @ release_effects c i;
              c1 = (if donor then c\<lparr>live_sequences := live_sequences c - 1\<rparr> else c)
          in (c1\<lparr>root := erase_node (root c1) path (edge i ! 0), size_count := size_count c1 - 1\<rparr>, eff))"

definition EvictOneSequenceLocked ::
  "(nat \<Rightarrow> bool) \<Rightarrow> RadixPrefixCache \<Rightarrow> RadixPrefixCache \<times> radix_effect list \<times> int option" where
  "EvictOneSequenceLocked alive c =
     (case victim is_seq_node (root c) of
        None \<Rightarrow> (c, [], None)
      | Some (path, i, childless) \<Rightarrow>
          let eff = retire_effects alive c i @ release_effects c i;
              c1 = c\<lparr>root := update_at (root c) path
                        (\<lambda>n. RadixNode ((info n)\<lparr>block_table := [], sequence_id := -1\<rparr>) (children n)),
                      live_sequences := live_sequences c - 1\<rparr>;
              c2 = (if childless \<and> path \<noteq> []
                    then c1\<lparr>root := erase_node (root c1) path (edge i ! 0), size_count := size_count c1 - 1\<rparr>
                    else c1)
          in (c2, eff, Some (sequence_id i)))"

definition EvictOneSequence ::
  "(nat \<Rightarrow> bool) \<Rightarrow> RadixPrefixCache \<Rightarrow> RadixPrefixCache \<times> radix_effect list \<times> int option" where
  "EvictOneSequence alive c = EvictOneSequenceLocked alive c"

partial_function (option) evict_sequences ::
  "(nat \<Rightarrow> bool) \<Rightarrow> RadixPrefixCache \<Rightarrow> radix_effect list \<Rightarrow> (RadixPrefixCache \<times> radix_effect list) option" where
  "evict_sequences alive c eff =
     (if live_sequences c > max_sequences c then
        evict_sequences alive (fst (EvictOneSequenceLocked alive c))
          (eff @ fst (snd (EvictOneSequenceLocked alive c)))
      else Some (c, eff))"

partial_function (option) evict_nodes ::
  "(nat \<Rightarrow> bool) \<Rightarrow> RadixPrefixCache \<Rightarrow> radix_effect list \<Rightarrow> (RadixPrefixCache \<times> radix_effect list) option" where
  "evict_nodes alive c eff =
     (if size_count c > capacity c then
        evict_nodes alive (fst (EvictOne alive c)) (eff @ snd (EvictOne alive c))
      else Some (c, eff))"

lemma evict_sequences_done [simp]:
  "live_sequences c \<le> max_sequences c \<Longrightarrow> evict_sequences alive c eff = Some (c, eff)"
  by (subst evict_sequences.simps) simp

lemma evict_nodes_done [simp]:
  "size_count c \<le> capacity c \<Longrightarrow> evict_nodes alive c eff = Some (c, eff)"
  by (subst evict_nodes.simps) simp

definition radix_Insert ::
  "(nat \<Rightarrow> bool) \<Rightarrow> int list \<Rightarrow> int list \<Rightarrow> int \<Rightarrow> nat option \<Rightarrow> RadixPrefixCache \<Rightarrow>
   (RadixPrefixCache \<times> radix_effect list \<times> bool) option" where
  "radix_Insert alive tokens blocks seq be c =
     (if capacity c = 0 \<or> tokens = [] \<or> blocks = [] then Some (c, [], False)
      else
        let donor = \<lparr>edge = [], block_table = blocks, sequence_id = seq, backend = be,
                     node_last_used = clock c + 1\<rparr>;
            (root', splits, old) = insert_walk donor (root c) tokens;
            c1 = c\<lparr>root := root', clock := clock c + 1, size_count := size_count c + splits\<rparr>
        in case old of
             None \<Rightarrow>
               let c2 = c1\<lparr>live_sequences := (if seq \<ge> 0 then live_sequences c1 + 1 else live_sequences c1),
                           size_count := size_count c1 + 1\<rparr>
               in (case evict_sequences alive c2 [] of
                     None \<Rightarrow> None
                   | Some (c3, eff) \<Rightarrow>
                       (case evict_nodes alive c3 eff of
                          None \<Rightarrow> None
                        | Some (c4, eff') \<Rightarrow> Some (c4, eff', True)))
           | Some i \<Rightarrow>
               let replaced = (sequence_id i \<ge> 0 \<and> sequence_id i \<noteq> seq);
                   eff = release_effects c i @ (if replaced then retire_effects alive c i else []);
                   live1 = (if replaced then live_sequences c1 - 1 else live_sequences c1);
                   live2 = (if seq \<ge> 0 \<and> seq \<noteq> sequence_id i then live1 + 1 else live1)
               in Some (c1\<lparr>live_sequences := live2\<rparr>, eff, True))"

definition MemorySnapshot :: "nat \<Rightarrow> RadixPrefixCache \<Rightarrow> RadixPrefixMemorySnapshot" where
  "MemorySnapshot page_bytes c =
     (let nodes = map (\<lambda>(_, path). node_at (root c) path) (CollectNodes is_seq_node [] (root c));
          blocks = remdups (filter (\<lambda>b. b \<ge> 0)
                     (concat (map (\<lambda>n. case n of Some m \<Rightarrow> block_table (info m) | None \<Rightarrow> []) nodes)))
      in \<lparr>unique_retained_blocks = length blocks,
          retained_bytes = (if has_kv_cache c then length blocks * page_bytes else 0),
          snap_live_sequences = live_sequences c\<rparr>)"

subsection \<open>Association lists and common prefixes\<close>

lemma list_all_AList_update:
  "list_all P cs \<Longrightarrow> P (k, v) \<Longrightarrow> list_all P (AList.update k v cs)"
  by (induction cs) auto

lemma list_all_AList_delete: "list_all P cs \<Longrightarrow> list_all P (AList.delete k cs)"
  by (auto simp: AList.delete_eq list_all_iff)

lemma sum_list_AList_update:
  fixes g :: "'v \<Rightarrow> 'a::comm_monoid_add"
  assumes "map_of cs k = Some c" "distinct (map fst cs)"
  shows "sum_list (map (\<lambda>(k, c). g c) (AList.update k c' cs)) + g c =
         sum_list (map (\<lambda>(k, c). g c) cs) + g c'"
  using assms by (induction cs) (auto simp: ac_simps split: if_splits)

lemma sum_list_AList_update_new:
  fixes g :: "'v \<Rightarrow> 'a::comm_monoid_add"
  assumes "map_of cs k = None"
  shows "sum_list (map (\<lambda>(k, c). g c) (AList.update k c' cs)) = sum_list (map (\<lambda>(k, c). g c) cs) + g c'"
  using assms by (induction cs) (auto simp: ac_simps split: if_splits)

lemma sum_list_AList_delete:
  fixes g :: "'v \<Rightarrow> 'a::comm_monoid_add"
  assumes "map_of cs k = Some c" "distinct (map fst cs)"
  shows "sum_list (map (\<lambda>(k, c). g c) (AList.delete k cs)) + g c = sum_list (map (\<lambda>(k, c). g c) cs)"
  using assms
proof (induction cs)
  case (Cons x cs)
  then show ?case by (cases x) (auto simp: ac_simps split: if_splits)
qed simp

lemma CommonPrefixLength_le:
  "CommonPrefixLength xs ys \<le> length xs" "CommonPrefixLength xs ys \<le> length ys"
  by (induction xs ys rule: CommonPrefixLength.induct) auto

lemma CommonPrefixLength_take:
  "take (CommonPrefixLength xs ys) xs = take (CommonPrefixLength xs ys) ys"
  by (induction xs ys rule: CommonPrefixLength.induct) auto

lemma CommonPrefixLength_maximal:
  "CommonPrefixLength xs ys < length xs \<Longrightarrow> CommonPrefixLength xs ys < length ys \<Longrightarrow>
     xs ! CommonPrefixLength xs ys \<noteq> ys ! CommonPrefixLength xs ys"
  by (induction xs ys rule: CommonPrefixLength.induct) auto

lemma CommonPrefixLength_full_iff:
  "CommonPrefixLength xs ys = length xs \<longleftrightarrow> take (length xs) ys = xs"
  by (induction xs ys rule: CommonPrefixLength.induct) auto

lemma CommonPrefixLength_pos:
  "xs \<noteq> [] \<Longrightarrow> hd xs = y \<Longrightarrow> 0 < CommonPrefixLength xs (y # ys)"
  by (cases xs) auto

subsection \<open>Well-formed trees and sums over their nodes\<close>

fun tree_ok :: "RadixNode \<Rightarrow> bool" where
  "tree_ok (RadixNode i cs) \<longleftrightarrow>
     distinct (map fst cs) \<and>
     (\<forall>kc \<in> set cs. edge (info (snd kc)) \<noteq> [] \<and> hd (edge (info (snd kc))) = fst kc \<and> tree_ok (snd kc))"

fun tree_sum :: "(int list \<Rightarrow> int \<Rightarrow> 'a::comm_monoid_add) \<Rightarrow> RadixNode \<Rightarrow> 'a" where
  "tree_sum w (RadixNode i cs) =
     w (block_table i) (sequence_id i) + sum_list (map (\<lambda>(k, c). tree_sum w c) cs)"

abbreviation info_weight :: "(int list \<Rightarrow> int \<Rightarrow> 'a) \<Rightarrow> node_info \<Rightarrow> 'a" where
  "info_weight w i \<equiv> w (block_table i) (sequence_id i)"

lemma tree_ok_child:
  assumes "tree_ok (RadixNode i cs)" "map_of cs k = Some c"
  shows "edge (info c) \<noteq> []" "hd (edge (info c)) = k" "tree_ok c"
  using assms map_of_SomeD [OF assms(2)] by auto

lemma tree_ok_update_child:
  assumes "tree_ok (RadixNode i cs)" "edge (info c) \<noteq> []" "hd (edge (info c)) = k" "tree_ok c"
  shows "tree_ok (RadixNode i' (AList.update k c cs))"
  using assms list_all_AList_update [of "\<lambda>kc. edge (info (snd kc)) \<noteq> [] \<and> hd (edge (info (snd kc))) = fst kc \<and>
      tree_ok (snd kc)" cs k c]
  by (auto simp: list_all_iff distinct_update)

lemma tree_ok_delete_child:
  "tree_ok (RadixNode i cs) \<Longrightarrow> tree_ok (RadixNode i' (AList.delete k cs))"
proof -
  assume *: "tree_ok (RadixNode i cs)"
  have "set (AList.delete k cs) \<subseteq> set cs" by (auto simp: AList.delete_eq)
  with * show ?thesis by (auto simp: distinct_delete)
qed

lemma tree_sum_update_child:
  fixes w :: "int list \<Rightarrow> int \<Rightarrow> 'a::comm_monoid_add"
  assumes "tree_ok (RadixNode i cs)" "map_of cs k = Some c"
  shows "tree_sum w (RadixNode i (AList.update k c' cs)) + tree_sum w c =
         tree_sum w (RadixNode i cs) + tree_sum w c'"
  using assms(1) arg_cong [OF sum_list_AList_update [OF assms(2), of "tree_sum w" c'],
      of "\<lambda>x. info_weight w i + x"]
  by (simp add: ac_simps)

lemma tree_sum_info:
  "tree_sum w n = info_weight w (info n) + sum_list (map (\<lambda>(k, c). tree_sum w c) (children n))"
  by (cases n) simp

lemma tree_sum_SplitEdge:
  "tree_sum w (SplitEdge c m) = tree_sum w c + w [] (- 1)"
  by (cases c) (simp add: SplitEdge_def empty_info_def ac_simps)

lemma tree_ok_SplitEdge:
  assumes "tree_ok c" "m < length (edge (info c))"
  shows "tree_ok (SplitEdge c m)"
  using assms by (cases c) (auto simp: SplitEdge_def hd_drop_conv_nth)

declare tree_ok.simps [simp del]

lemma tree_ok_childless [simp]: "tree_ok (RadixNode i [])"
  by (simp add: tree_ok.simps)

lemma tree_ok_info_cong: "tree_ok (RadixNode i cs) \<Longrightarrow> tree_ok (RadixNode j cs)"
  by (simp add: tree_ok.simps)

lemma sum_transfer:
  fixes a :: "'a::cancel_comm_monoid_add"
  assumes "a + c = b + c'" "c' + r = c + x"
  shows "a + r = b + x"
proof -
  have "(a + r) + (c + c') = (a + c) + (c' + r)" by (simp add: ac_simps)
  also have "\<dots> = (b + c') + (c + x)" unfolding assms ..
  also have "\<dots> = (b + x) + (c + c')" by (simp add: ac_simps)
  finally show ?thesis by simp
qed

lemma SplitEdge_edge [simp]:
  "edge (info (SplitEdge c m)) = take m (edge (info c))" "sequence_id (info (SplitEdge c m)) = -1"
  by (simp_all add: SplitEdge_def empty_info_def)

subsection \<open>The tree as a map from token sequences to donors\<close>

type_synonym donor_data = "int list \<times> int \<times> nat option"

definition donor_here :: "node_info \<Rightarrow> donor_data option" where
  "donor_here i = (if sequence_id i \<ge> 0 then Some (block_table i, sequence_id i, backend i) else None)"

function donor_of :: "RadixNode \<Rightarrow> int list \<Rightarrow> donor_data option" where
  "donor_of (RadixNode i cs) ts =
     (case ts of
        [] \<Rightarrow> donor_here i
      | first # _ \<Rightarrow>
          (case map_of cs first of
             None \<Rightarrow> None
           | Some c \<Rightarrow> if take (length (edge (info c))) ts = edge (info c)
                      then donor_of c (drop (length (edge (info c))) ts) else None))"
  by pat_completeness auto
termination
  by (relation "measure (\<lambda>(n, _). size n)") (auto dest: size_child)

declare donor_of.simps [simp del]

lemma donor_here_edge [simp]: "donor_here (i\<lparr>edge := e\<rparr>) = donor_here i"
  by (simp add: donor_here_def)

lemma donor_of_Nil [simp]: "donor_of n [] = donor_here (info n)"
  by (cases n) (simp add: donor_of.simps)

lemma donor_of_Cons:
  "donor_of (RadixNode i cs) (t # ts) =
     (case map_of cs t of
        None \<Rightarrow> None
      | Some c \<Rightarrow> if take (length (edge (info c))) (t # ts) = edge (info c)
                 then donor_of c (drop (length (edge (info c))) (t # ts)) else None)"
  by (simp add: donor_of.simps)

lemma donor_of_info_cong: "t \<noteq> [] \<Longrightarrow> donor_of (RadixNode i cs) t = donor_of (RadixNode j cs) t"
  by (cases t) (simp_all add: donor_of_Cons)

text \<open>What lies below one child, as seen from its parent.\<close>

definition below :: "RadixNode \<Rightarrow> int list \<Rightarrow> donor_data option" where
  "below c ts = (if take (length (edge (info c))) ts = edge (info c)
                 then donor_of c (drop (length (edge (info c))) ts) else None)"

lemma donor_of_Cons_below:
  "donor_of (RadixNode i cs) (t # ts) = (case map_of cs t of None \<Rightarrow> None | Some c \<Rightarrow> below c (t # ts))"
  by (simp add: donor_of_Cons below_def split: option.split)

lemma donor_of_update_child:
  "donor_of (RadixNode i (AList.update k c cs)) (t # ts) =
     (if t = k then below c (t # ts) else donor_of (RadixNode i cs) (t # ts))"
  by (simp add: donor_of_Cons_below update_conv)

lemma below_SplitEdge:
  assumes "m < length (edge (info c))"
  shows "below (SplitEdge c m) ts = below c ts"
proof -
  let ?e = "edge (info c)"
  show ?thesis
  proof (cases "take m ts = take m ?e")
    case False
    then have "take (length ?e) ts \<noteq> ?e"
      using assms by (metis less_imp_le min.absorb1 take_take)
    with False assms show ?thesis by (simp add: below_def min.absorb2)
  next
    case True
    have split: "donor_of (SplitEdge c m) us =
        (if take (length (drop m ?e)) us = drop m ?e then donor_of c (drop (length (drop m ?e)) us) else None)"
      for us
    proof (cases us)
      case Nil
      then show ?thesis using assms by (simp add: SplitEdge_def empty_info_def donor_here_def)
    next
      case (Cons u us')
      have "drop m ?e = ?e ! m # drop (Suc m) ?e" using assms by (simp add: Cons_nth_drop_Suc)
      with Cons show ?thesis
        by (cases c) (auto simp: SplitEdge_def donor_of_Cons below_def donor_of.simps split: list.split)
    qed
    have "take (length ?e) ts = ?e \<longleftrightarrow> take (length ?e - m) (drop m ts) = drop m ?e"
      using True assms
      by (metis append_take_drop_id drop_take length_take less_imp_le min.absorb2 take_drop take_take
            append_eq_conv_conj diff_add_inverse le_add_diff_inverse)
    then show ?thesis using True assms by (simp add: below_def split min.absorb2)
  qed
qed

subsection \<open>The descent of \<open>Insert\<close>\<close>

declare insert_walk.simps [simp del] lookup_walk.simps [simp del]

lemma insert_walk_cases:
  assumes "insert_walk d (RadixNode i cs) rest = (n', s, old)" "tree_ok (RadixNode i cs)"
  obtains (here) "rest = []" "n' = RadixNode (d\<lparr>edge := edge i\<rparr>) cs" "s = 0" "old = Some i"
  | (leaf) t ts where "rest = t # ts" "map_of cs t = None"
      "n' = RadixNode i (AList.update t (RadixNode (d\<lparr>edge := rest\<rparr>) []) cs)" "s = 0" "old = None"
  | (down) t ts c c2 where "rest = t # ts" "map_of cs t = Some c"
      "take (length (edge (info c))) rest = edge (info c)"
      "insert_walk d c (drop (length (edge (info c))) rest) = (c2, s, old)"
      "n' = RadixNode i (AList.update t c2 cs)"
  | (split) t ts c c2 m s2 where "rest = t # ts" "map_of cs t = Some c"
      "0 < m" "m < length (edge (info c))" "take m rest = take m (edge (info c))"
      "m = CommonPrefixLength (edge (info c)) rest"
      "insert_walk d (SplitEdge c m) (drop m rest) = (c2, s2, old)" "s = Suc s2"
      "n' = RadixNode i (AList.update t c2 cs)"
proof (cases rest)
  case Nil
  with assms here show ?thesis by (simp add: insert_walk.simps)
next
  case (Cons t ts)
  show ?thesis
  proof (cases "map_of cs t")
    case None
    with Cons assms leaf show ?thesis by (simp add: insert_walk.simps)
  next
    case (Some c)
    let ?m = "CommonPrefixLength (edge (info c)) rest"
    have pos: "0 < ?m" using tree_ok_child [OF assms(2) Some] Cons CommonPrefixLength_pos by simp
    have le: "?m \<le> length (edge (info c))" by (rule CommonPrefixLength_le)
    obtain c2 s2 old2 where w: "insert_walk d (if ?m < length (edge (info c)) then SplitEdge c ?m else c)
        (drop ?m rest) = (c2, s2, old2)" by (metis prod_cases3)
    show ?thesis
    proof (cases "?m < length (edge (info c))")
      case True
      with w assms(1) Cons Some have "old2 = old" "s = Suc s2" "n' = RadixNode i (AList.update t c2 cs)"
        by (simp_all add: insert_walk.simps Let_def)
      with True w pos Cons Some CommonPrefixLength_take [of "edge (info c)" rest] split show ?thesis
        by simp
    next
      case False
      with le have m: "?m = length (edge (info c))" by simp
      with w assms(1) Cons Some have "old2 = old" "s = s2" "n' = RadixNode i (AList.update t c2 cs)"
        by (simp_all add: insert_walk.simps Let_def)
      with m w Cons Some CommonPrefixLength_full_iff [of "edge (info c)" rest] down show ?thesis
        by simp
    qed
  qed
qed

lemma insert_walk_induct [consumes 2, case_names here leaf down split]:
  assumes "insert_walk d n rest = (n', s, old)" "tree_ok n"
    and here: "\<And>i cs. tree_ok (RadixNode i cs) \<Longrightarrow> P (RadixNode i cs) [] (RadixNode (d\<lparr>edge := edge i\<rparr>) cs) 0 (Some i)"
    and leaf: "\<And>i cs t ts. tree_ok (RadixNode i cs) \<Longrightarrow> map_of cs t = None \<Longrightarrow>
      P (RadixNode i cs) (t # ts) (RadixNode i (AList.update t (RadixNode (d\<lparr>edge := t # ts\<rparr>) []) cs)) 0 None"
    and down: "\<And>i cs t ts c c2 s old. tree_ok (RadixNode i cs) \<Longrightarrow> map_of cs t = Some c \<Longrightarrow>
      take (length (edge (info c))) (t # ts) = edge (info c) \<Longrightarrow>
      P c (drop (length (edge (info c))) (t # ts)) c2 s old \<Longrightarrow>
      P (RadixNode i cs) (t # ts) (RadixNode i (AList.update t c2 cs)) s old"
    and split: "\<And>i cs t ts c c2 m s old. tree_ok (RadixNode i cs) \<Longrightarrow> map_of cs t = Some c \<Longrightarrow>
      0 < m \<Longrightarrow> m < length (edge (info c)) \<Longrightarrow> take m (t # ts) = take m (edge (info c)) \<Longrightarrow>
      m = CommonPrefixLength (edge (info c)) (t # ts) \<Longrightarrow>
      insert_walk d (SplitEdge c m) (drop m (t # ts)) = (c2, s, old) \<Longrightarrow>
      P (SplitEdge c m) (drop m (t # ts)) c2 s old \<Longrightarrow>
      P (RadixNode i cs) (t # ts) (RadixNode i (AList.update t c2 cs)) (Suc s) old"
  shows "P n rest n' s old"
  using assms
proof (induction d n rest arbitrary: n' s old rule: insert_walk.induct)
  case (1 d i cs rest)
  note rules = 1(4-7)
  show ?case
    using 1(2,3)
  proof (cases rule: insert_walk_cases)
    case here
    then show ?thesis using rules(1) [OF 1(3)] by simp
  next
    case (leaf t ts)
    then show ?thesis using rules(2) [OF 1(3)] by simp
  next
    case (down t ts c c2)
    then have m: "CommonPrefixLength (edge (info c)) rest = length (edge (info c))"
      by (simp add: CommonPrefixLength_full_iff)
    have "P c (drop (length (edge (info c))) rest) c2 s old"
      by (rule 1(1) [OF down(1,2) refl refl refl, unfolded m if_not_P [OF less_irrefl], OF down(4)
            tree_ok_child(3) [OF 1(3) down(2)] rules])
    then show ?thesis using rules(3) [OF 1(3) down(2)] down by simp
  next
    case (split t ts c c2 m s2)
    have "P (SplitEdge c m) (drop m rest) c2 s2 old"
      by (rule 1(1) [OF split(1,2) refl refl refl, folded split(6), unfolded if_P [OF split(4)],
            OF split(7) tree_ok_SplitEdge [OF tree_ok_child(3) [OF 1(3) split(2)] split(4)] rules])
    with rules(4) [OF 1(3) split(2-4) split(5-7) [unfolded split(1)]] split(1,8,9) show ?thesis by simp
  qed
qed

lemma insert_walk_tree_ok:
  assumes "insert_walk d n rest = (n', s, old)" and ok: "tree_ok n"
  shows "tree_ok n' \<and> edge (info n') = edge (info n) \<and> (rest \<noteq> [] \<longrightarrow> info n' = info n)"
  using assms
proof (induction rule: insert_walk_induct)
  case (here i cs)
  then show ?case by (auto intro: tree_ok_info_cong)
next
  case (leaf i cs t ts)
  then show ?case by (auto intro!: tree_ok_update_child)
next
  case (down i cs t ts c c2 s old)
  with tree_ok_child [OF down(1,2)] show ?case by (auto intro!: tree_ok_update_child)
next
  case (split i cs t ts c c2 m s old)
  then have "edge (info c2) \<noteq> []" "hd (edge (info c2)) = t"
    using tree_ok_child [OF split(1,2)] by auto
  with split show ?case by (auto intro!: tree_ok_update_child)
qed

lemma insert_walk_sum:
  fixes w :: "int list \<Rightarrow> int \<Rightarrow> 'a::cancel_comm_monoid_add"
  assumes "insert_walk d n rest = (n', s, old)" "tree_ok n"
  shows "tree_sum w n' + (case old of Some i \<Rightarrow> info_weight w i | None \<Rightarrow> 0) =
         tree_sum w n + info_weight w d + sum_list (replicate s (w [] (- 1)))"
  using assms
proof (induction rule: insert_walk_induct)
  case (leaf i cs t ts)
  then show ?case by (simp add: sum_list_AList_update_new ac_simps)
next
  case (down i cs t ts c c2 s old)
  from sum_transfer [OF tree_sum_update_child [OF down(1,2), of w c2]
      down.IH [unfolded add.assoc]] show ?case by (simp add: ac_simps)
next
  case (split i cs t ts c c2 m s old)
  from sum_transfer [OF tree_sum_update_child [OF split(1,2), of w c2]
      split.IH [unfolded tree_sum_SplitEdge add.assoc]] show ?case by (simp add: ac_simps)
qed (simp add: ac_simps)

lemma below_update:
  assumes "edge (info c') = edge (info c)" "take (length (edge (info c))) rest = edge (info c)"
    and "\<And>us. donor_of c' us = (if us = drop (length (edge (info c))) rest then D else donor_of c us)"
  shows "below c' ts = (if ts = rest then D else below c ts)"
proof (cases "take (length (edge (info c))) ts = edge (info c)")
  case True
  then have "drop (length (edge (info c))) ts = drop (length (edge (info c))) rest \<longleftrightarrow> ts = rest"
    using assms(2) by (metis append_take_drop_id)
  with True assms show ?thesis by (simp add: below_def)
next
  case False
  with assms show ?thesis by (auto simp: below_def)
qed

lemma insert_walk_donor_aux:
  assumes "insert_walk d n rest = (n', s, old)" "tree_ok n"
  shows "edge (info n') = edge (info n) \<and>
         (\<forall>ts. donor_of n' ts = (if ts = rest then donor_here d else donor_of n ts))"
  using assms
proof (induction rule: insert_walk_induct)
  case (here i cs)
  have "donor_of (RadixNode (d\<lparr>edge := edge i\<rparr>) cs) ts =
      (if ts = [] then donor_here d else donor_of (RadixNode i cs) ts)" for ts
    by (cases ts) (simp_all add: donor_of_Cons)
  then show ?case by simp
next
  case (leaf i cs t us)
  have leaf': "below (RadixNode (d\<lparr>edge := t # us\<rparr>) []) vs = (if vs = t # us then donor_here d else None)" for vs
    by (auto simp: below_def donor_of.simps split: list.split)
  have "donor_of (RadixNode i (AList.update t (RadixNode (d\<lparr>edge := t # us\<rparr>) []) cs)) ts =
      (if ts = t # us then donor_here d else donor_of (RadixNode i cs) ts)" for ts
    by (cases ts) (simp_all add: donor_of_Cons_below update_conv leaf' leaf(2))
  then show ?case by simp
next
  case (down i cs t us c c2 s old)
  have "below c2 ts = (if ts = t # us then donor_here d else below c ts)" for ts
    by (rule below_update) (use down in auto)
  then have "donor_of (RadixNode i (AList.update t c2 cs)) ts =
      (if ts = t # us then donor_here d else donor_of (RadixNode i cs) ts)" for ts
    by (cases ts) (simp_all add: donor_of_Cons_below update_conv down(2))
  then show ?case by simp
next
  case (split i cs t us c c2 m s old)
  have "below c2 ts = (if ts = t # us then donor_here d else below (SplitEdge c m) ts)" for ts
    by (rule below_update) (use split in auto)
  then have "below c2 ts = (if ts = t # us then donor_here d else below c ts)" for ts
    by (simp add: below_SplitEdge [OF split(4)])
  then have "donor_of (RadixNode i (AList.update t c2 cs)) ts =
      (if ts = t # us then donor_here d else donor_of (RadixNode i cs) ts)" for ts
    by (cases ts) (simp_all add: donor_of_Cons_below update_conv split(2))
  then show ?case by simp
qed

lemmas insert_walk_donor_of = insert_walk_donor_aux [THEN conjunct2, rule_format]

subsection \<open>The descent of \<open>Lookup\<close>\<close>

lemma lookup_walk_cases:
  assumes "lookup_walk alive be (RadixNode i cs) rest l = (n', l')" "tree_ok (RadixNode i cs)"
  obtains (stop) "n' = RadixNode i cs"
      "l' = l \<or> (\<exists>k \<le> length rest. l' = l\<lparr>lk_offset := lk_offset l + k, lk_node_hit := False\<rparr>)"
  | (down) t ts c c2 where "rest = t # ts" "map_of cs t = Some c"
      "take (length (edge (info c))) rest = edge (info c)"
      "sequence_id (info c) \<ge> 0 \<longrightarrow> lock_backend alive (backend (info c)) = be"
      "lookup_walk alive be
         (RadixNode ((info c)\<lparr>node_last_used := lk_clock (lookup_visit (info c) (length (edge (info c))) l)\<rparr>)
            (children c)) (drop (length (edge (info c))) rest)
         (lookup_visit (info c) (length (edge (info c))) l) = (c2, l')"
      "n' = RadixNode i (AList.update t c2 cs)"
proof (cases rest)
  case Nil
  with assms(1) stop show ?thesis by (simp add: lookup_walk.simps)
next
  case (Cons t ts)
  show ?thesis
  proof (cases "map_of cs t")
    case None
    with Cons assms(1) stop show ?thesis by (simp add: lookup_walk.simps)
  next
    case (Some c)
    let ?m = "CommonPrefixLength (edge (info c)) rest"
    have le: "?m \<le> length (edge (info c))" "?m \<le> length rest" by (rule CommonPrefixLength_le)+
    show ?thesis
    proof (cases "?m < length (edge (info c)) \<or>
        (sequence_id (info c) \<ge> 0 \<and> lock_backend alive (backend (info c)) \<noteq> be)")
      case True
      with assms(1) Cons Some have "n' = RadixNode i cs"
        "l' = l\<lparr>lk_offset := lk_offset l + ?m, lk_node_hit := False\<rparr>"
        by (auto simp: lookup_walk.simps Let_def split: if_splits)
      with le(2) stop show ?thesis by blast
    next
      case False
      with le have m: "?m = length (edge (info c))" by simp
      let ?l1 = "lookup_visit (info c) (length (edge (info c))) l"
      obtain c2 l2 where w: "lookup_walk alive be
         (RadixNode ((info c)\<lparr>node_last_used := lk_clock ?l1\<rparr>) (children c))
         (drop (length (edge (info c))) rest) ?l1 = (c2, l2)" by fastforce
      with False m assms(1) Cons Some have "l2 = l'" "n' = RadixNode i (AList.update t c2 cs)"
        by (auto simp: lookup_walk.simps [of alive be i cs] Let_def split: if_splits)
      with False m w Cons Some CommonPrefixLength_full_iff [of "edge (info c)" rest] down
      show ?thesis by simp
    qed
  qed
qed

lemma lookup_walk_induct [consumes 2, case_names stop down]:
  assumes "lookup_walk alive be n rest l = (n', l')" "tree_ok n"
    and stop: "\<And>i cs rest l l'. tree_ok (RadixNode i cs) \<Longrightarrow>
      l' = l \<or> (\<exists>k \<le> length rest. l' = l\<lparr>lk_offset := lk_offset l + k, lk_node_hit := False\<rparr>) \<Longrightarrow>
      P (RadixNode i cs) rest l (RadixNode i cs) l'"
    and down: "\<And>i cs t ts c c2 l l' u. tree_ok (RadixNode i cs) \<Longrightarrow> map_of cs t = Some c \<Longrightarrow>
      take (length (edge (info c))) (t # ts) = edge (info c) \<Longrightarrow>
      sequence_id (info c) \<ge> 0 \<longrightarrow> lock_backend alive (backend (info c)) = be \<Longrightarrow>
      P (RadixNode ((info c)\<lparr>node_last_used := u\<rparr>) (children c)) (drop (length (edge (info c))) (t # ts))
        (lookup_visit (info c) (length (edge (info c))) l) c2 l' \<Longrightarrow>
      P (RadixNode i cs) (t # ts) l (RadixNode i (AList.update t c2 cs)) l'"
  shows "P n rest l n' l'"
  using assms
proof (induction alive be n rest l arbitrary: n' l' rule: lookup_walk.induct)
  case (1 alive be i cs rest l)
  note rules = 1(4,5)
  show ?case
    using 1(2,3)
  proof (cases rule: lookup_walk_cases)
    case stop
    then show ?thesis using rules(1) [OF 1(3)] by simp
  next
    case (down t ts c c2)
    let ?l1 = "lookup_visit (info c) (length (edge (info c))) l"
    let ?c1 = "RadixNode ((info c)\<lparr>node_last_used := lk_clock ?l1\<rparr>) (children c)"
    have m: "CommonPrefixLength (edge (info c)) rest = length (edge (info c))"
      using down(3) by (simp add: CommonPrefixLength_full_iff)
    have ok: "tree_ok ?c1"
      using tree_ok_child(3) [OF 1(3) down(2)] tree_ok_info_cong by (cases c) auto
    have "P ?c1 (drop (length (edge (info c))) rest) ?l1 c2 l'"
      by (rule 1(1) [OF down(1,2) refl _ _ refl refl, unfolded m, OF _ _ down(5) ok rules])
         (use down(4) in auto)
    then show ?thesis using rules(2) [OF 1(3) down(2)] down by simp
  qed
qed

lemma lookup_walk_sound:
  assumes "lookup_walk alive be n rest l = (n', l')" "tree_ok n"
  shows "lk_offset l \<le> lk_offset l' \<and> lk_offset l' \<le> lk_offset l + length rest \<and>
    ((lk_last_seq_id l' = lk_last_seq_id l \<and> lk_last_seq_tokens l' = lk_last_seq_tokens l \<and>
      lk_blocks l' = lk_blocks l) \<or>
     (\<exists>k be'. 0 < k \<and> k \<le> length rest \<and> lk_last_seq_tokens l' = lk_offset l + k \<and>
        donor_of n (take k rest) = Some (lk_blocks l', lk_last_seq_id l', be') \<and>
        lock_backend alive be' = be))"
  using assms
proof (induction rule: lookup_walk_induct)
  case (stop i cs rest l l')
  then show ?case by auto
next
  case (down i cs t ts c c2 l l' u)
  let ?m = "length (edge (info c))"
  let ?l1 = "lookup_visit (info c) ?m l"
  have pos: "0 < ?m" using tree_ok_child(1) [OF down(1,2)] by simp
  have le: "?m \<le> length (t # ts)" using down(3) by (metis nat_le_linear take_all)
  have l1: "lk_offset ?l1 = lk_offset l + ?m"
    by (simp add: lookup_visit_def Let_def)
  have touched: "donor_of (RadixNode ((info c)\<lparr>node_last_used := u\<rparr>) (children c)) us = donor_of c us" for us
    by (cases c; cases us) (simp_all add: donor_of_Cons donor_here_def)
  have into: "donor_of (RadixNode i cs) (take (?m + k) (t # ts)) = donor_of c (take k (drop ?m (t # ts)))" for k
  proof -
    have "take (?m + k) (t # ts) = edge (info c) @ take k (drop ?m (t # ts))"
      using down(3) by (metis take_add)
    moreover obtain e es where "edge (info c) = e # es" "e = t"
      using tree_ok_child(1,2) [OF down(1,2)] by (cases "edge (info c)") auto
    ultimately show ?thesis using down(2) by (simp add: donor_of_Cons)
  qed
  from down.IH consider
    (same) "lk_last_seq_id l' = lk_last_seq_id ?l1" "lk_last_seq_tokens l' = lk_last_seq_tokens ?l1"
      "lk_blocks l' = lk_blocks ?l1"
  | (deeper) k be' where "k \<le> length (drop ?m (t # ts))" "lk_last_seq_tokens l' = lk_offset ?l1 + k"
      "donor_of c (take k (drop ?m (t # ts))) = Some (lk_blocks l', lk_last_seq_id l', be')"
      "lock_backend alive be' = be"
    unfolding touched by blast
  then show ?case
  proof cases
    case same
    show ?thesis
    proof (cases "sequence_id (info c) \<ge> 0")
      case True
      have "donor_of (RadixNode i cs) (take ?m (t # ts)) =
          Some (lk_blocks l', lk_last_seq_id l', backend (info c))"
        using into [of 0] same True by (simp add: donor_here_def lookup_visit_def Let_def)
      moreover have "lk_last_seq_tokens l' = lk_offset l + ?m"
        using same True by (simp add: lookup_visit_def Let_def)
      ultimately show ?thesis using down.IH down(4) True pos le l1 by fastforce
    next
      case False
      with same down.IH l1 le show ?thesis by (auto simp: lookup_visit_def Let_def)
    qed
  next
    case (deeper k be')
    then have "donor_of (RadixNode i cs) (take (?m + k) (t # ts)) =
        Some (lk_blocks l', lk_last_seq_id l', be')" using into [of k] by simp
    with deeper pos le l1 down.IH show ?thesis
      by (intro conjI disjI2 exI [of _ "?m + k"] exI [of _ be']) auto
  qed
qed

lemma touched_node [simp]:
  "donor_of (RadixNode ((info c)\<lparr>node_last_used := u\<rparr>) (children c)) us = donor_of c us"
  "tree_sum w (RadixNode ((info c)\<lparr>node_last_used := u\<rparr>) (children c)) = tree_sum w c"
  by (cases c; cases us; simp add: donor_of_Cons donor_here_def) (cases c; simp)

lemma lookup_walk_preserves:
  fixes w :: "int list \<Rightarrow> int \<Rightarrow> 'a::cancel_comm_monoid_add"
  assumes "lookup_walk alive be n rest l = (n', l')" "tree_ok n"
  shows "tree_ok n' \<and> info n' = info n \<and> tree_sum w n' = tree_sum w n \<and> (\<forall>ts. donor_of n' ts = donor_of n ts)"
  using assms
proof (induction rule: lookup_walk_induct)
  case (down i cs t ts c c2 l l' u)
  note c = tree_ok_child [OF down(1,2)]
  have "tree_ok (RadixNode i (AList.update t c2 cs))"
    using down.IH c by (intro tree_ok_update_child [OF down(1)]) auto
  moreover have "tree_sum w (RadixNode i (AList.update t c2 cs)) = tree_sum w (RadixNode i cs)"
  proof -
    have "tree_sum w c2 = tree_sum w c" using down.IH unfolding touched_node(2) by blast
    with tree_sum_update_child [OF down(1,2), of w c2] show ?thesis by simp
  qed
  moreover have "below c2 us = below c us" for us
    using down.IH by (simp add: below_def)
  then have "donor_of (RadixNode i (AList.update t c2 cs)) us = donor_of (RadixNode i cs) us" for us
    by (cases us) (simp_all add: donor_of_Cons_below update_conv down(2))
  ultimately show ?case by simp
qed auto

subsection \<open>Paths\<close>

lemma CollectNodes_sound:
  assumes "(u, p) \<in> set (CollectNodes crit pre n)" "tree_ok n"
  shows "\<exists>q m. p = pre @ q \<and> node_at n q = Some m \<and> crit p m \<and> u = node_last_used (info m)"
  using assms
proof (induction crit pre n rule: CollectNodes.induct)
  case (1 crit pre i cs)
  show ?case
  proof (cases "(u, p) = (node_last_used i, pre) \<and> crit pre (RadixNode i cs)")
    case True
    then show ?thesis by (intro exI [of _ "[]"]) auto
  next
    case False
    with 1(2) obtain k c where kc: "(k, c) \<in> set cs" "(u, p) \<in> set (CollectNodes crit (pre @ [k]) c)"
      by (auto split: if_splits)
    have "map_of cs k = Some c" using 1(3) kc(1) by (auto simp: tree_ok.simps)
    moreover have "tree_ok c" using 1(3) kc(1) by (auto simp: tree_ok.simps)
    from 1(1) [OF kc(1) refl kc(2) this] obtain q m where
      "p = (pre @ [k]) @ q" "node_at c q = Some m" "crit p m" "u = node_last_used (info m)" by blast
    ultimately show ?thesis by (intro exI [of _ "k # q"]) auto
  qed
qed

lemma CollectNodes_leaf_exists: "pre \<noteq> [] \<Longrightarrow> CollectNodes is_leaf_node pre n \<noteq> []"
proof (induction n arbitrary: pre)
  case (RadixNode i cs)
  show ?case
  proof (cases cs)
    case Nil
    with RadixNode.prems show ?thesis by (simp add: is_leaf_node_def)
  next
    case (Cons kc cs')
    obtain k c where "kc = (k, c)" by fastforce
    with Cons RadixNode.IH [of kc c "pre @ [k]"] show ?thesis by auto
  qed
qed

lemma CollectNodes_seq_exists:
  "(\<exists>ts. donor_of n ts \<noteq> None) \<Longrightarrow> CollectNodes is_seq_node pre n \<noteq> []"
proof (induction n arbitrary: pre)
  case (RadixNode i cs)
  then obtain ts where ts: "donor_of (RadixNode i cs) ts \<noteq> None" by blast
  show ?case
  proof (cases ts)
    case Nil
    with ts show ?thesis by (auto simp: donor_here_def is_seq_node_def split: if_splits)
  next
    case (Cons t us)
    with ts obtain c vs where c: "map_of cs t = Some c" "donor_of c vs \<noteq> None"
      by (auto simp: donor_of_Cons split: option.splits if_splits)
    then have "(t, c) \<in> set cs" by (auto dest: map_of_SomeD)
    with RadixNode.IH [of "(t, c)" c "pre @ [t]"] c(2) show ?thesis by fastforce
  qed
qed

lemma update_at_tree_ok:
  assumes "tree_ok n" "node_at n p = Some m" "tree_ok (f m)" "edge (info (f m)) = edge (info m)"
  shows "tree_ok (update_at n p f) \<and> edge (info (update_at n p f)) = edge (info n)"
  using assms
proof (induction n p f rule: update_at.induct)
  case (2 i cs k ks f)
  then obtain c where c: "map_of cs k = Some c" "node_at c ks = Some m" by (auto split: option.splits)
  with 2(1) [OF c(1) tree_ok_child(3) [OF 2(2) c(1)] c(2)] 2 tree_ok_child [OF 2(2) c(1)] show ?case
    by (auto intro!: tree_ok_update_child)
qed auto

lemma update_at_sum:
  fixes w :: "int list \<Rightarrow> int \<Rightarrow> 'a::cancel_comm_monoid_add"
  assumes "tree_ok n" "node_at n p = Some m"
  shows "tree_sum w (update_at n p f) + tree_sum w m = tree_sum w n + tree_sum w (f m)"
  using assms
proof (induction n p f rule: update_at.induct)
  case (2 i cs k ks f)
  then obtain c where c: "map_of cs k = Some c" "node_at c ks = Some m" by (auto split: option.splits)
  from sum_transfer [OF tree_sum_update_child [OF 2(2) c(1), of w "update_at c ks f"]
      2(1) [OF c(1) tree_ok_child(3) [OF 2(2) c(1)] c(2)]] c(1) show ?case by simp
qed (simp add: ac_simps)

lemma update_at_donor_of:
  assumes "tree_ok n" "node_at n p = Some m" "edge (info (f m)) = edge (info m)"
    and "\<And>us. donor_of (f m) us = (if us = v then None else donor_of m us)"
  shows "\<exists>vt. donor_of n vt = donor_of m v \<and>
           (\<forall>ts. donor_of (update_at n p f) ts = (if ts = vt then None else donor_of n ts)) \<and>
           edge (info (update_at n p f)) = edge (info n)"
  using assms
proof (induction n p f rule: update_at.induct)
  case (1 n f)
  then show ?case by (intro exI [of _ v]) auto
next
  case (2 i cs k ks f)
  then obtain c where c: "map_of cs k = Some c" "node_at c ks = Some m" by (auto split: option.splits)
  note ok = tree_ok_child [OF 2(2) c(1)]
  from 2(1) [OF c(1) ok(3) c(2) 2(4,5)] obtain vt where
    vt: "donor_of c vt = donor_of m v"
      "\<And>ts. donor_of (update_at c ks f) ts = (if ts = vt then None else donor_of c ts)"
      "edge (info (update_at c ks f)) = edge (info c)" by blast
  let ?c' = "update_at c ks f" and ?e = "edge (info c)"
  have bel: "below ?c' ts = (if ts = ?e @ vt then None else below c ts)" for ts
    by (rule below_update) (simp_all add: vt)
  obtain es where e: "?e = k # es" using ok(1,2) by (cases ?e) auto
  have "donor_of (RadixNode i (AList.update k ?c' cs)) ts =
      (if ts = ?e @ vt then None else donor_of (RadixNode i cs) ts)" for ts
    using bel [of ts] e by (cases ts) (auto simp: donor_of_Cons_below update_conv c(1))
  moreover have "donor_of (RadixNode i cs) (?e @ vt) = donor_of m v"
    using e vt(1) c(1) by (simp add: donor_of_Cons)
  ultimately show ?case using c(1) by (intro exI [of _ "?e @ vt"]) simp
qed

lemma node_at_tree_ok: "tree_ok n \<Longrightarrow> node_at n p = Some m \<Longrightarrow> tree_ok m"
  by (induction n p rule: node_at.induct) (auto split: option.splits dest: tree_ok_child)

lemma node_at_snoc:
  "node_at n (p @ [k]) = (case node_at n p of None \<Rightarrow> None | Some m \<Rightarrow> map_of (children m) k)"
proof (induction n p rule: node_at.induct)
  case (1 n)
  then show ?case by (cases n) (simp split: option.split)
qed (auto split: option.split)

lemma node_at_update_at:
  "node_at n p = Some m \<Longrightarrow> node_at (update_at n p f) p = Some (f m)"
  by (induction n p f rule: update_at.induct) (auto split: option.splits simp: update_conv)

subsection \<open>Erasing a childless node\<close>

definition childless_parent :: "RadixNode \<Rightarrow> int list \<Rightarrow> RadixNode \<Rightarrow> bool" where
  "childless_parent n path m \<longleftrightarrow> tree_ok n \<and> path \<noteq> [] \<and> node_at n path = Some m \<and> children m = []"

lemma childless_parentE:
  assumes "childless_parent n path m"
  obtains p where "node_at n (butlast path) = Some p" "tree_ok p"
    "map_of (children p) (last path) = Some m" "edge (info m) ! 0 = last path" "edge (info m) \<noteq> []"
proof -
  from assms have ok: "tree_ok n" and at: "node_at n (butlast path @ [last path]) = Some m"
    by (simp_all add: childless_parent_def)
  then obtain p where p: "node_at n (butlast path) = Some p" "map_of (children p) (last path) = Some m"
    by (auto simp: node_at_snoc split: option.splits)
  have okp: "tree_ok p" using node_at_tree_ok [OF ok p(1)] .
  then have "edge (info m) \<noteq> []" "hd (edge (info m)) = last path"
    using tree_ok_child [of "info p" "children p"] p(2) by auto
  with that p okp show thesis by (simp add: hd_conv_nth)
qed

lemma erase_node_spec:
  fixes w :: "int list \<Rightarrow> int \<Rightarrow> 'a::cancel_comm_monoid_add"
  assumes cp: "childless_parent n path m"
  shows "tree_ok (erase_node n path (edge (info m) ! 0))"
    "tree_sum w (erase_node n path (edge (info m) ! 0)) + info_weight w (info m) = tree_sum w n"
    "\<exists>vt. donor_of n vt = donor_here (info m) \<and>
       (\<forall>ts. donor_of (erase_node n path (edge (info m) ! 0)) ts = (if ts = vt then None else donor_of n ts))"
    "info (erase_node n path (edge (info m) ! 0)) = info n"
proof -
  from cp obtain p where p: "node_at n (butlast path) = Some p" "tree_ok p"
    "map_of (children p) (last path) = Some m" "edge (info m) ! 0 = last path" "edge (info m) \<noteq> []"
    by (rule childless_parentE)
  let ?k = "last path"
  let ?f = "\<lambda>p. RadixNode (info p) (AList.delete ?k (children p))"
  have ok: "tree_ok n" and m: "m = RadixNode (info m) []"
    using cp by (cases m; simp add: childless_parent_def)+
  have erase: "erase_node n path (edge (info m) ! 0) = update_at n (butlast path) ?f"
    by (simp add: erase_node_def p(4))
  have okf: "tree_ok (?f p)" using p(2) tree_ok_delete_child by (cases p) auto
  show "tree_ok (erase_node n path (edge (info m) ! 0))"
    unfolding erase by (rule update_at_tree_ok [where f = ?f, OF ok p(1) okf, THEN conjunct1]) simp
  have m_sum: "tree_sum w m = info_weight w (info m)" by (subst m) simp
  have "tree_sum w (?f p) + tree_sum w m = tree_sum w p"
    using sum_list_AList_delete [OF p(3), of "tree_sum w"] p(2)
    by (cases p) (simp add: tree_ok.simps add.assoc)
  from sum_transfer [where x = 0, OF update_at_sum [OF ok p(1), of w ?f]] this
  show "tree_sum w (erase_node n path (edge (info m) ! 0)) + info_weight w (info m) = tree_sum w n"
    unfolding erase m_sum by simp
  have bm: "below m us = (if us = edge (info m) then donor_here (info m) else None)" for us
    by (subst m) (auto simp: below_def donor_of.simps split: list.split)
  obtain es where e: "edge (info m) = ?k # es" using p(4,5) by (cases "edge (info m)") auto
  have "donor_of (?f p) us = (if us = edge (info m) then None else donor_of p us)" for us
    using bm [of us] e p(3) by (cases p; cases us) (auto simp: donor_of_Cons_below delete_conv')
  from update_at_donor_of [where f = ?f, OF ok p(1) _ this] obtain vt where vt: "donor_of n vt = donor_of p (edge (info m))"
    "\<And>ts. donor_of (update_at n (butlast path) ?f) ts = (if ts = vt then None else donor_of n ts)" by auto
  moreover have "donor_of p (edge (info m)) = donor_here (info m)"
    using bm [of "edge (info m)"] e p(3) by (cases p) (simp add: donor_of_Cons_below)
  ultimately show "\<exists>vt. donor_of n vt = donor_here (info m) \<and>
       (\<forall>ts. donor_of (erase_node n path (edge (info m) ! 0)) ts = (if ts = vt then None else donor_of n ts))"
    unfolding erase by auto
  show "info (erase_node n path (edge (info m) ! 0)) = info n"
    unfolding erase using p(1) by (cases n; cases "butlast path") (auto split: option.split)
qed

subsection \<open>The invariant of the cache\<close>

definition count_nodes :: "RadixNode \<Rightarrow> nat" where
  "count_nodes = tree_sum (\<lambda>_ _. 1)"

definition count_donors :: "RadixNode \<Rightarrow> nat" where
  "count_donors = tree_sum (\<lambda>_ s. if 0 \<le> s then 1 else 0)"

definition orphan_blocks :: "RadixNode \<Rightarrow> nat" where
  "orphan_blocks = tree_sum (\<lambda>b s. if 0 \<le> s then 0 else length b)"

definition retained :: "RadixNode \<Rightarrow> int multiset" where
  "retained = tree_sum (\<lambda>b s. mset b)"

lemmas radix_counts = count_nodes_def count_donors_def orphan_blocks_def retained_def

definition radix_ok :: "RadixPrefixCache \<Rightarrow> bool" where
  "radix_ok c \<longleftrightarrow>
     tree_ok (root c) \<and> sequence_id (info (root c)) = -1 \<and> block_table (info (root c)) = [] \<and>
     Suc (size_count c) = count_nodes (root c) \<and> live_sequences c = count_donors (root c) \<and>
     orphan_blocks (root c) = 0"

lemma radix_ok_init [invariants]: "radix_ok (RadixPrefixCache_init kv cb cap max_seq)"
  by (simp add: radix_ok_def RadixPrefixCache_init_def radix_counts empty_info_def)

lemma length_CollectNodes_seq: "length (CollectNodes is_seq_node pre n) = count_donors n"
proof (induction n arbitrary: pre)
  case (RadixNode i cs)
  have "map (length \<circ> (\<lambda>(k, c). CollectNodes is_seq_node (pre @ [k]) c)) cs =
        map (\<lambda>(k, c). tree_sum (\<lambda>_ s. if 0 \<le> s then 1 else 0) c) cs"
    using RadixNode.IH by (fastforce simp: count_donors_def)
  then show ?case by (simp add: length_concat count_donors_def is_seq_node_def [of pre "RadixNode i cs"]
        comp_def case_prod_unfold cong: map_cong)
qed

lemma donor_count_pos: "donor_of n ts \<noteq> None \<Longrightarrow> 0 < count_donors n"
  by (metis CollectNodes_seq_exists length_CollectNodes_seq length_greater_0_conv)

lemma count_nodes_pos: "0 < count_nodes n"
  by (cases n) (simp add: count_nodes_def)

lemma CollectNodes_leaf_root:
  assumes "1 < count_nodes n"
  shows "CollectNodes is_leaf_node [] n \<noteq> []"
proof (cases n)
  case (RadixNode i cs)
  with assms obtain k c cs' where "cs = (k, c) # cs'" by (cases cs) (auto simp: count_nodes_def)
  with RadixNode CollectNodes_leaf_exists [of "[k]" c] show ?thesis by simp
qed

lemma victim_SomeD:
  assumes "victim crit r = Some (path, i, ch)" "tree_ok r"
  shows "\<exists>m. node_at r path = Some m \<and> i = info m \<and> ch = (children m = []) \<and> crit path m \<and>
     (\<forall>(u, q) \<in> set (CollectNodes crit [] r). node_last_used i \<le> u)"
proof -
  let ?ns = "CollectNodes crit [] r"
  from assms(1) obtain j m where j: "min_element fst ?ns = Some j" "node_at r path = Some m"
    "path = snd (?ns ! j)" "i = info m" "ch = (children m = [])"
    by (auto simp: victim_def Let_def split: option.splits)
  note min = min_element_SomeD [OF j(1)]
  then have "(fst (?ns ! j), path) \<in> set ?ns" using j(3) by simp
  from CollectNodes_sound [OF this assms(2)] j(2,4) have "crit path m" "fst (?ns ! j) = node_last_used i"
    by auto
  with j min show ?thesis by fastforce
qed

lemma victim_None:
  assumes "victim crit r = None" "tree_ok r"
  shows "CollectNodes crit [] r = []"
proof (rule ccontr)
  let ?ns = "CollectNodes crit [] r"
  assume "?ns \<noteq> []"
  then obtain j where j: "min_element fst ?ns = Some j"
    using min_element_None_iff [of fst ?ns] by (cases "min_element fst ?ns") auto
  then have "(fst (?ns ! j), snd (?ns ! j)) \<in> set ?ns" using min_element_SomeD by fastforce
  from CollectNodes_sound [OF this assms(2)] obtain m where "node_at r (snd (?ns ! j)) = Some m" by auto
  with assms(1) j show False by (simp add: victim_def Let_def)
qed

subsection \<open>What an eviction does\<close>

definition released :: "radix_effect list \<Rightarrow> int list" where
  "released eff = concat (map (\<lambda>e. case e of ReleaseRef bs \<Rightarrow> bs | _ \<Rightarrow> []) eff)"

lemma released_append [simp]: "released (xs @ ys) = released xs @ released ys"
  by (simp add: released_def)

lemma released_effects [simp]:
  "released (retire_effects alive c i) = []"
  "released (release_effects c i) = (if has_kv_cache c then block_table i else [])"
  by (auto simp: released_def retire_effects_def release_effects_def Let_def split: option.split)

lemma released_Nil [simp]: "released [] = []"
  by (simp add: released_def)

text \<open>
  \<open>shrunk c c' eff\<close>: donors may have gone, none appeared or changed, the configuration is the
  same, and the blocks no longer retained are exactly those released.
\<close>

definition shrunk :: "RadixPrefixCache \<Rightarrow> RadixPrefixCache \<Rightarrow> radix_effect list \<Rightarrow> bool" where
  "shrunk c c' eff \<longleftrightarrow>
     radix_ok c' \<and> capacity c' = capacity c \<and> max_sequences c' = max_sequences c \<and>
     has_kv_cache c' = has_kv_cache c \<and> has_on_evict c' = has_on_evict c \<and> clock c' = clock c \<and>
     size_count c' \<le> size_count c \<and> live_sequences c' \<le> live_sequences c \<and>
     (\<forall>ts d. donor_of (root c') ts = Some d \<longrightarrow> donor_of (root c) ts = Some d) \<and>
     (has_kv_cache c \<longrightarrow> retained (root c') + mset (released eff) = retained (root c))"

lemma shrunk_refl: "radix_ok c \<Longrightarrow> shrunk c c []"
  by (simp add: shrunk_def)

lemma shrunk_trans: "shrunk c c1 e1 \<Longrightarrow> shrunk c1 c2 e2 \<Longrightarrow> shrunk c c2 (e1 @ e2)"
  by (auto simp: shrunk_def ac_simps)

lemma shrunk_radix_ok: "shrunk c c' eff \<Longrightarrow> radix_ok c'"
  by (simp add: shrunk_def)

lemma count_donors_erase:
  assumes "childless_parent n path m"
  shows "count_donors (erase_node n path (edge (info m) ! 0)) + (if 0 \<le> sequence_id (info m) then 1 else 0)
           = count_donors n"
    "Suc (count_nodes (erase_node n path (edge (info m) ! 0))) = count_nodes n"
    "orphan_blocks n = 0 \<Longrightarrow> orphan_blocks (erase_node n path (edge (info m) ! 0)) = 0"
    "retained (erase_node n path (edge (info m) ! 0)) + mset (block_table (info m)) = retained n"
  using erase_node_spec(2) [OF assms, of "\<lambda>_ s. if 0 \<le> s then 1 else (0::nat)"]
    erase_node_spec(2) [OF assms, of "\<lambda>_ _. 1 :: nat"]
    erase_node_spec(2) [OF assms, of "\<lambda>b s. if 0 \<le> s then 0 else length b"]
    erase_node_spec(2) [OF assms, of "\<lambda>b s. mset b"]
  by (auto simp: radix_counts)

lemma EvictOne_spec:
  assumes ok: "radix_ok c" and size: "0 < size_count c"
  shows "shrunk c (fst (EvictOne alive c)) (snd (EvictOne alive c)) \<and>
         Suc (size_count (fst (EvictOne alive c))) = size_count c"
proof -
  have tree: "tree_ok (root c)" using ok by (simp add: radix_ok_def)
  have "CollectNodes is_leaf_node [] (root c) \<noteq> []"
    using ok size by (intro CollectNodes_leaf_root) (simp add: radix_ok_def)
  with victim_None [OF _ tree] obtain path i ch where v: "victim is_leaf_node (root c) = Some (path, i, ch)"
    by (metis not_None_eq prod_cases3)
  from victim_SomeD [OF v tree] obtain m where m: "node_at (root c) path = Some m" "i = info m"
    "children m = []" "path \<noteq> []" by (auto simp: is_leaf_node_def)
  have cp: "childless_parent (root c) path m" using m tree by (simp add: childless_parent_def)
  from erase_node_spec(3) [OF cp] have sub: "\<forall>ts d. donor_of (erase_node (root c) path (edge i ! 0)) ts = Some d \<longrightarrow>
      donor_of (root c) ts = Some d" unfolding m(2) by (metis option.distinct(1))
  show ?thesis
    using ok size count_donors_erase [OF cp] erase_node_spec(1,4) [OF cp] sub m(2)
    by (auto simp: EvictOne_def v shrunk_def radix_ok_def Let_def)
qed

lemma clear_donor_spec:
  assumes "tree_ok n" "node_at n path = Some m" "0 \<le> sequence_id (info m)"
    and f: "f = (\<lambda>n. RadixNode ((info n)\<lparr>block_table := [], sequence_id := -1\<rparr>) (children n))"
  shows "tree_ok (update_at n path f)" "node_at (update_at n path f) path = Some (f m)"
    "Suc (count_donors (update_at n path f)) = count_donors n"
    "count_nodes (update_at n path f) = count_nodes n"
    "orphan_blocks n = 0 \<Longrightarrow> orphan_blocks (update_at n path f) = 0"
    "retained (update_at n path f) + mset (block_table (info m)) = retained n"
    "\<exists>vt. donor_of n vt = donor_here (info m) \<and>
       (\<forall>ts. donor_of (update_at n path f) ts = (if ts = vt then None else donor_of n ts))"
    "path \<noteq> [] \<Longrightarrow> info (update_at n path f) = info n"
proof -
  have okf: "tree_ok (f m)"
    using node_at_tree_ok [OF assms(1,2)] tree_ok_info_cong by (cases m) (auto simp: f)
  have edge: "edge (info (f m)) = edge (info m)" by (simp add: f)
  note u = update_at_sum [OF assms(1,2), of _ f]
  show "tree_ok (update_at n path f)" using update_at_tree_ok [where f = f, OF assms(1,2) okf edge] by simp
  show "node_at (update_at n path f) path = Some (f m)" using assms(2) by (rule node_at_update_at)
  show "Suc (count_donors (update_at n path f)) = count_donors n"
    "count_nodes (update_at n path f) = count_nodes n"
    "orphan_blocks n = 0 \<Longrightarrow> orphan_blocks (update_at n path f) = 0"
    "retained (update_at n path f) + mset (block_table (info m)) = retained n"
    using u [of "\<lambda>_ s. if 0 \<le> s then 1 else (0::nat)"] u [of "\<lambda>_ _. 1 :: nat"]
      u [of "\<lambda>b s. if 0 \<le> s then 0 else length b"] u [of "\<lambda>b s. mset b"] assms(3)
    by (simp_all add: radix_counts f tree_sum_info [of _ m])
  have "donor_of (f m) us = (if us = [] then None else donor_of m us)" for us
    by (cases m; cases us) (simp_all add: f donor_of_Cons donor_here_def)
  from update_at_donor_of [where f = f, OF assms(1,2) edge this]
  show "\<exists>vt. donor_of n vt = donor_here (info m) \<and>
       (\<forall>ts. donor_of (update_at n path f) ts = (if ts = vt then None else donor_of n ts))" by auto
  show "path \<noteq> [] \<Longrightarrow> info (update_at n path f) = info n"
    by (cases n; cases path) (auto split: option.split)
qed

text \<open>
  One donor goes, all others stay, and its stamp is the smallest of all donors'.
\<close>

definition donor_removed :: "RadixNode \<Rightarrow> RadixNode \<Rightarrow> int list \<Rightarrow> bool" where
  "donor_removed r r' vt \<longleftrightarrow> (\<forall>ts. donor_of r' ts = (if ts = vt then None else donor_of r ts))"

lemma donor_removed_sub: "donor_removed r r' vt \<Longrightarrow> donor_of r' ts = Some d \<Longrightarrow> donor_of r ts = Some d"
  by (simp add: donor_removed_def split: if_splits)

lemma donor_removed_None: "donor_removed r r' vt \<Longrightarrow> donor_of r vt = None \<Longrightarrow> donor_of r' ts = donor_of r ts"
  by (simp add: donor_removed_def)

lemma evict_victim:
  assumes "radix_ok c" "0 < live_sequences c"
  obtains path m where "victim is_seq_node (root c) = Some (path, info m, children m = [])"
    "node_at (root c) path = Some m" "0 \<le> sequence_id (info m)" "path \<noteq> []"
    "\<forall>(u, q) \<in> set (CollectNodes is_seq_node [] (root c)). node_last_used (info m) \<le> u"
proof -
  have tree: "tree_ok (root c)" and r: "sequence_id (info (root c)) = -1"
    using assms by (simp_all add: radix_ok_def)
  have "CollectNodes is_seq_node [] (root c) \<noteq> []"
    using assms length_CollectNodes_seq [of "[]" "root c"] by (auto simp: radix_ok_def)
  with victim_None [OF _ tree] obtain path i ch where v: "victim is_seq_node (root c) = Some (path, i, ch)"
    by (metis not_None_eq prod_cases3)
  from victim_SomeD [OF v tree] obtain m where m: "node_at (root c) path = Some m" "i = info m"
    "ch = (children m = [])" "0 \<le> sequence_id (info m)"
    "\<forall>(u, q) \<in> set (CollectNodes is_seq_node [] (root c)). node_last_used i \<le> u"
    by (auto simp: is_seq_node_def [of path])
  moreover have "path \<noteq> []" using m(1,4) r by auto
  ultimately show thesis using that v by simp
qed

lemma EvictOneSequenceLocked_spec:
  assumes ok: "radix_ok c" and live: "0 < live_sequences c"
  obtains c' eff s vt bt be where "EvictOneSequenceLocked alive c = (c', eff, Some s)"
    "shrunk c c' eff" "Suc (live_sequences c') = live_sequences c"
    "donor_of (root c) vt = Some (bt, s, be)" "donor_removed (root c) (root c') vt"
    "has_kv_cache c \<Longrightarrow> released eff = bt"
proof -
  from ok live obtain path m where v: "victim is_seq_node (root c) = Some (path, info m, children m = [])"
    and m: "node_at (root c) path = Some m" "0 \<le> sequence_id (info m)" "path \<noteq> []"
    by (rule evict_victim)
  define f where "f = (\<lambda>n. RadixNode ((info n)\<lparr>block_table := [], sequence_id := -1\<rparr>) (children n))"
  let ?r1 = "update_at (root c) path f"
  have tree: "tree_ok (root c)" using ok by (simp add: radix_ok_def)
  note clear = clear_donor_spec [OF tree m(1,2) f_def]
  from clear(7) obtain vt where vt: "donor_of (root c) vt = donor_here (info m)" "donor_removed (root c) ?r1 vt"
    by (auto simp: donor_removed_def)
  let ?r2 = "if children m = [] then erase_node ?r1 path (edge (info m) ! 0) else ?r1"
  have erased: "tree_ok ?r2" "info ?r2 = info ?r1" "count_donors ?r2 = count_donors ?r1"
    "orphan_blocks ?r2 = 0" "retained ?r2 = retained ?r1" "\<And>ts. donor_of ?r2 ts = donor_of ?r1 ts"
    "count_nodes ?r2 = (if children m = [] then count_nodes ?r1 - 1 else count_nodes ?r1)"
  proof -
    have o: "orphan_blocks ?r1 = 0" using ok clear(5) by (simp add: radix_ok_def)
    have fm: "info (f m) = (info m)\<lparr>block_table := [], sequence_id := -1\<rparr>" "children (f m) = children m"
      by (simp_all add: f_def)
    have *: "childless_parent ?r1 path (f m)" if "children m = []"
      using that clear(1,2) m(3) by (simp add: childless_parent_def fm)
    note e = erase_node_spec(1,3,4) [OF *] count_donors_erase [OF *]
    show "tree_ok ?r2" "info ?r2 = info ?r1" "count_donors ?r2 = count_donors ?r1"
      "orphan_blocks ?r2 = 0" "retained ?r2 = retained ?r1"
      "count_nodes ?r2 = (if children m = [] then count_nodes ?r1 - 1 else count_nodes ?r1)"
      using e(1,3-7) o clear(1) by (auto simp: fm)
    show "donor_of ?r2 ts = donor_of ?r1 ts" for ts
      using e(2) by (auto simp: fm donor_here_def)
  qed
  have removed: "donor_removed (root c) ?r2 vt"
    using vt(2) erased(6) by (simp add: donor_removed_def)
  define c' where "c' = fst (EvictOneSequenceLocked alive c)"
  define eff where "eff = fst (snd (EvictOneSequenceLocked alive c))"
  have c': "c' = c\<lparr>root := ?r2, live_sequences := live_sequences c - 1,
      size_count := (if children m = [] then size_count c - 1 else size_count c)\<rparr>"
    and eff: "eff = retire_effects alive c (info m) @ release_effects c (info m)"
    and run: "EvictOneSequenceLocked alive c = (c', eff, Some (sequence_id (info m)))"
    by (simp_all add: c'_def eff_def EvictOneSequenceLocked_def v Let_def m(3) f_def)
  have "count_nodes ?r1 = Suc (size_count c)" "Suc (count_donors ?r1) = live_sequences c"
    using ok clear(3,4) by (simp_all add: radix_ok_def)
  moreover have "0 < count_nodes ?r2" by (rule count_nodes_pos)
  ultimately have "radix_ok c'"
    using erased clear(8) [OF m(3)] ok unfolding radix_ok_def c' by (auto split: if_splits)
  then have "shrunk c c' eff"
    using removed clear(6) erased(5) by (auto simp: shrunk_def c' eff dest: donor_removed_sub)
  moreover have "Suc (live_sequences c') = live_sequences c" using live by (simp add: c')
  moreover have "donor_of (root c) vt = Some (block_table (info m), sequence_id (info m), backend (info m))"
    using vt(1) m(2) by (simp add: donor_here_def)
  moreover have "donor_removed (root c) (root c') vt" using removed by (simp add: c')
  moreover have "has_kv_cache c \<Longrightarrow> released eff = block_table (info m)" by (simp add: eff)
  ultimately show thesis using run that by blast
qed

lemma EvictOneSequenceLocked_none:
  assumes "radix_ok c" "live_sequences c = 0"
  shows "EvictOneSequenceLocked alive c = (c, [], None)"
proof -
  have "CollectNodes is_seq_node [] (root c) = []"
    using assms length_CollectNodes_seq [of "[]" "root c"] by (auto simp: radix_ok_def)
  then show ?thesis by (simp add: EvictOneSequenceLocked_def victim_def min_element_def)
qed

subsection \<open>The eviction loops return\<close>

lemma evict_sequences_returns:
  assumes "radix_ok c"
  shows "\<exists>c' eff'. evict_sequences alive c eff = Some (c', eff @ eff') \<and> shrunk c c' eff' \<and>
           live_sequences c' \<le> max_sequences c \<and>
           (live_sequences c \<le> max_sequences c \<longrightarrow> c' = c \<and> eff' = [])"
  using assms
proof (induction "live_sequences c" arbitrary: c eff rule: less_induct)
  case less
  show ?case
  proof (cases "max_sequences c < live_sequences c")
    case False
    then show ?thesis using shrunk_refl [OF less.prems] by (subst evict_sequences.simps) auto
  next
    case True
    then have "0 < live_sequences c" by simp
    from less.prems this obtain c1 e1 s vt bt be where ev: "EvictOneSequenceLocked alive c = (c1, e1, Some s)"
      "shrunk c c1 e1" "Suc (live_sequences c1) = live_sequences c"
      by (rule EvictOneSequenceLocked_spec) blast
    from less.hyps [of c1 "eff @ e1"] ev shrunk_radix_ok obtain c2 e2 where
      "evict_sequences alive c1 (eff @ e1) = Some (c2, (eff @ e1) @ e2)" "shrunk c1 c2 e2"
      "live_sequences c2 \<le> max_sequences c1" by auto
    with ev True shrunk_trans [OF ev(2)] show ?thesis
      by (subst evict_sequences.simps) (auto simp: shrunk_def)
  qed
qed

lemma evict_nodes_returns:
  assumes "radix_ok c"
  shows "\<exists>c' eff'. evict_nodes alive c eff = Some (c', eff @ eff') \<and> shrunk c c' eff' \<and>
           size_count c' \<le> capacity c \<and>
           (size_count c \<le> capacity c \<longrightarrow> c' = c \<and> eff' = [])"
  using assms
proof (induction "size_count c" arbitrary: c eff rule: less_induct)
  case less
  show ?case
  proof (cases "capacity c < size_count c")
    case False
    then show ?thesis using shrunk_refl [OF less.prems] by (subst evict_nodes.simps) auto
  next
    case True
    let ?c1 = "fst (EvictOne alive c)" and ?e1 = "snd (EvictOne alive c)"
    from True EvictOne_spec [OF less.prems, of alive] have ev: "shrunk c ?c1 ?e1"
      "Suc (size_count ?c1) = size_count c" by auto
    from less.hyps [of ?c1 "eff @ ?e1"] ev shrunk_radix_ok [OF ev(1)] obtain c2 e2 where
      "evict_nodes alive ?c1 (eff @ ?e1) = Some (c2, (eff @ ?e1) @ e2)" "shrunk ?c1 c2 e2"
      "size_count c2 \<le> capacity ?c1" by auto
    with ev True shrunk_trans [OF ev(1)] show ?thesis
      by (subst evict_nodes.simps) (auto simp: shrunk_def)
  qed
qed

subsection \<open>\<open>Insert\<close> and \<open>Lookup\<close> on the cache\<close>

lemma sum_list_replicate_0 [simp]: "sum_list (replicate n 0) = (0 :: 'a::comm_monoid_add)"
  by (induction n) auto

lemma insert_walk_counts:
  assumes "insert_walk d n rest = (n', s, old)" "tree_ok n" "0 \<le> sequence_id d"
  shows "count_nodes n' + (case old of Some i \<Rightarrow> 1 | None \<Rightarrow> 0) = count_nodes n + 1 + s"
    "count_donors n' + (case old of Some i \<Rightarrow> if 0 \<le> sequence_id i then 1 else 0 | None \<Rightarrow> 0) = count_donors n + 1"
    "orphan_blocks n = 0 \<Longrightarrow> orphan_blocks n' = 0"
    "retained n' + (case old of Some i \<Rightarrow> mset (block_table i) | None \<Rightarrow> {#}) = retained n + mset (block_table d)"
  using insert_walk_sum [OF assms(1,2), of "\<lambda>_ s. if 0 \<le> s then 1 else (0::nat)"]
    insert_walk_sum [OF assms(1,2), of "\<lambda>_ _. 1 :: nat"]
    insert_walk_sum [OF assms(1,2), of "\<lambda>b s. if 0 \<le> s then 0 else length b"]
    insert_walk_sum [OF assms(1,2), of "\<lambda>b s. mset b"] assms(3)
  by (simp_all add: radix_counts sum_list_replicate split: option.splits)

text \<open>The state and effects of \<open>Insert\<close> before its eviction loops.\<close>

definition inserted :: "RadixPrefixCache \<Rightarrow> RadixPrefixCache \<Rightarrow> radix_effect list \<Rightarrow> int list \<Rightarrow> donor_data \<Rightarrow> bool" where
  "inserted c c1 eff tokens d \<longleftrightarrow>
     radix_ok c1 \<and> capacity c1 = capacity c \<and> max_sequences c1 = max_sequences c \<and>
     has_kv_cache c1 = has_kv_cache c \<and>
     size_count c1 \<le> size_count c + 2 \<and> live_sequences c1 \<le> live_sequences c + 1 \<and>
     (\<forall>ts. donor_of (root c1) ts = (if ts = tokens then Some d else donor_of (root c) ts)) \<and>
     (has_kv_cache c \<longrightarrow> retained (root c1) + mset (released eff) = retained (root c) + mset (fst d))"

lemma insert_walk_splits:
  assumes "insert_walk d n rest = (n', s, old)" "tree_ok n"
  shows "s \<le> 1"
  using assms
proof (induction rule: insert_walk_induct)
  case (split i cs t us c c2 m s old)
  let ?e = "edge (info c)" and ?rest = "drop m (t # us)"
  have "insert_walk d (SplitEdge c m) ?rest = (c2, s, old) \<Longrightarrow> s = 0"
  proof (cases ?rest)
    case Nil
    then show "insert_walk d (SplitEdge c m) ?rest = (c2, s, old) \<Longrightarrow> s = 0"
      by (auto simp: SplitEdge_def insert_walk.simps)
  next
    case (Cons r rs)
    then have "m < length (t # us)" "r = (t # us) ! m"
      by (metis drop_all not_le list.distinct(1), metis nth_via_drop)
    then have "?e ! m \<noteq> r"
      using CommonPrefixLength_maximal [of ?e "t # us"] split(4,6) by metis
    with Cons show "insert_walk d (SplitEdge c m) ?rest = (c2, s, old) \<Longrightarrow> s = 0"
      by (auto simp: SplitEdge_def insert_walk.simps)
  qed
  with split(7) show ?case by simp
qed auto

lemma radix_ok_insert_walk:
  assumes ok: "radix_ok c" and seq: "0 \<le> seq" and tokens: "tokens \<noteq> []"
    and w: "insert_walk \<lparr>edge = [], block_table = blocks, sequence_id = seq, backend = be,
              node_last_used = u\<rparr> (root c) tokens = (r, s, old)"
  shows "tree_ok r" "sequence_id (info r) = -1" "block_table (info r) = []" "orphan_blocks r = 0" "s \<le> 1"
    "count_nodes r + (case old of Some i \<Rightarrow> 1 | None \<Rightarrow> 0) = Suc (size_count c) + 1 + s"
    "count_donors r + (case old of Some i \<Rightarrow> if 0 \<le> sequence_id i then 1 else 0 | None \<Rightarrow> 0)
       = live_sequences c + 1"
    "retained r + (case old of Some i \<Rightarrow> mset (block_table i) | None \<Rightarrow> {#}) = retained (root c) + mset blocks"
    "\<And>ts. donor_of r ts = (if ts = tokens then Some (blocks, seq, be) else donor_of (root c) ts)"
  using insert_walk_tree_ok [OF w] insert_walk_counts [OF w] insert_walk_donor_of [OF w]
    insert_walk_splits [OF w] ok seq tokens
  by (auto simp: radix_ok_def donor_here_def)

lemma radix_Insert_spec:
  assumes ok: "radix_ok c" and seq: "0 \<le> seq" and args: "0 < capacity c" "tokens \<noteq> []" "blocks \<noteq> []"
  obtains c1 e1 c' e2 where "radix_Insert alive tokens blocks seq be c = Some (c', e1 @ e2, True)"
    "inserted c c1 e1 tokens (blocks, seq, be)" "shrunk c1 c' e2"
    "size_count c + 2 \<le> capacity c \<Longrightarrow> live_sequences c < max_sequences c \<Longrightarrow> c' = c1 \<and> e2 = []"
proof -
  let ?d = "\<lparr>edge = [], block_table = blocks, sequence_id = seq, backend = be, node_last_used = clock c + 1\<rparr>"
  obtain r s old where w: "insert_walk ?d (root c) tokens = (r, s, old)" by (metis prod_cases3)
  note f = radix_ok_insert_walk [OF ok seq args(2) w]
  define c0 where "c0 = c\<lparr>root := r, clock := clock c + 1, size_count := size_count c + s\<rparr>"
  show thesis
  proof (cases old)
    case (Some i)
    define c1 where "c1 = c0\<lparr>live_sequences := count_donors r\<rparr>"
    define e1 where "e1 = release_effects c i @ (if sequence_id i \<ge> 0 \<and> sequence_id i \<noteq> seq
        then retire_effects alive c i else [])"
    have live: "0 \<le> sequence_id i \<Longrightarrow> count_donors r = live_sequences c"
      "\<not> 0 \<le> sequence_id i \<Longrightarrow> count_donors r = live_sequences c + 1"
      using f(7) Some by auto
    have pos: "0 \<le> sequence_id i \<Longrightarrow> 0 < live_sequences c"
      using f(9) [of tokens] live(1) donor_count_pos [of r tokens] by simp
    have run: "radix_Insert alive tokens blocks seq be c = Some (c1, e1 @ [], True)"
      using args w Some live pos seq
      by (auto simp: radix_Insert_def Let_def c1_def c0_def e1_def)
    have "inserted c c1 e1 tokens (blocks, seq, be)"
      using f Some ok
      by (auto simp: inserted_def c1_def c0_def e1_def radix_ok_def)
    then show thesis using that [OF run _ shrunk_refl] by (auto simp: inserted_def)
  next
    case None
    define c1 where "c1 = c0\<lparr>live_sequences := live_sequences c + 1, size_count := size_count c + s + 1\<rparr>"
    have ins: "inserted c c1 [] tokens (blocks, seq, be)"
      using f None ok by (auto simp: inserted_def c1_def c0_def radix_ok_def)
    then have ok1: "radix_ok c1" by (simp add: inserted_def)
    from evict_sequences_returns [OF ok1, of alive "[]"] obtain c2 e2 where
      l1: "evict_sequences alive c1 [] = Some (c2, e2)" "shrunk c1 c2 e2"
        "live_sequences c1 \<le> max_sequences c1 \<longrightarrow> c2 = c1 \<and> e2 = []" by auto
    from evict_nodes_returns [OF shrunk_radix_ok [OF l1(2)], of alive e2] obtain c3 e3 where
      l2: "evict_nodes alive c2 e2 = Some (c3, e2 @ e3)" "shrunk c2 c3 e3"
        "size_count c2 \<le> capacity c2 \<longrightarrow> c3 = c2 \<and> e3 = []" by auto
    have run: "radix_Insert alive tokens blocks seq be c = Some (c3, [] @ e2 @ e3, True)"
      using args w None seq l1(1) l2(1) by (simp add: radix_Insert_def Let_def c1_def c0_def)
    have small: "c3 = c1 \<and> e2 @ e3 = []"
      if "size_count c + 2 \<le> capacity c" "live_sequences c < max_sequences c"
      using that l1(3) l2(3) f(5) by (auto simp: c1_def c0_def)
    show thesis by (rule that [OF run ins shrunk_trans [OF l1(2) l2(2)] small])
  qed
qed

lemma lookup_walk_complete:
  assumes "tree_ok n" "donor_of n rest = Some (bt, sq, be0)" "rest \<noteq> []"
    and "\<And>ts b q be'. donor_of n ts = Some (b, q, be') \<Longrightarrow> lock_backend alive be' = be"
  shows "\<exists>n' l'. lookup_walk alive be n rest l = (n', l') \<and> lk_node_hit l' \<and> lk_last_seq_id l' = sq \<and>
           lk_blocks l' = bt \<and> lk_last_seq_tokens l' = lk_offset l + length rest"
  using assms
proof (induction n arbitrary: rest l rule: measure_induct_rule [of size])
  case (less n)
  obtain i cs t ts where n: "n = RadixNode i cs" and rest: "rest = t # ts"
    using less.prems(3) by (cases n; cases rest) auto
  from less.prems(2) obtain c where c: "map_of cs t = Some c" "take (length (edge (info c))) rest = edge (info c)"
    "donor_of c (drop (length (edge (info c))) rest) = Some (bt, sq, be0)"
    unfolding n rest donor_of_Cons by (auto split: option.splits if_splits)
  let ?m = "length (edge (info c))"
  let ?l1 = "lookup_visit (info c) ?m l"
  let ?c1 = "RadixNode ((info c)\<lparr>node_last_used := lk_clock ?l1\<rparr>) (children c)"
  note ok = tree_ok_child [OF less.prems(1) [unfolded n] c(1)]
  have full: "CommonPrefixLength (edge (info c)) rest = ?m" using c(2) by (simp add: CommonPrefixLength_full_iff)
  have into: "donor_of n (edge (info c) @ us) = donor_of c us" for us
    using ok(1,2) c(1) unfolding n by (cases "edge (info c)") (auto simp: donor_of_Cons)
  have be: "0 \<le> sequence_id (info c) \<Longrightarrow> lock_backend alive (backend (info c)) = be"
    using less.prems(4) [of "edge (info c)"] into [of "[]"] by (simp add: donor_here_def)
  have step: "lookup_walk alive be n rest l =
      (case lookup_walk alive be ?c1 (drop ?m rest) ?l1 of (c2, l2) \<Rightarrow> (RadixNode i (AList.update t c2 cs), l2))"
    using c(1) full be unfolding n rest by (subst lookup_walk.simps) (auto simp: Let_def)
  have l1: "lk_node_hit ?l1" "lk_offset ?l1 = lk_offset l + ?m"
    by (simp_all add: lookup_visit_def Let_def)
  have le: "?m \<le> length rest" using c(2) by (metis nat_le_linear take_all)
  show ?case
  proof (cases "drop ?m rest = []")
    case True
    with c(3) have "sequence_id (info c) = sq" "block_table (info c) = bt" "0 \<le> sequence_id (info c)"
      by (auto simp: donor_here_def split: if_splits)
    with True le show ?thesis
      by (simp add: step lookup_walk.simps) (simp add: lookup_visit_def Let_def)
  next
    case False
    have "size ?c1 < size n" using size_child [OF c(1)] unfolding n by (cases c) simp
    from less.IH [OF this, of "drop ?m rest" ?l1] c(3) False ok(3) tree_ok_info_cong
      less.prems(4) into obtain c2 l2 where
      "lookup_walk alive be ?c1 (drop ?m rest) ?l1 = (c2, l2)" "lk_node_hit l2" "lk_last_seq_id l2 = sq"
      "lk_blocks l2 = bt" "lk_last_seq_tokens l2 = lk_offset ?l1 + length (drop ?m rest)"
      unfolding touched_node by (metis RadixNode.collapse)
    with step l1 le show ?thesis by simp
  qed
qed

lemma radix_Lookup_preserves:
  assumes "radix_ok c" "radix_Lookup alive tokens be c = (c', hit, res)"
  shows "radix_ok c' \<and> (\<forall>ts. donor_of (root c') ts = donor_of (root c) ts) \<and>
         retained (root c') = retained (root c) \<and> capacity c' = capacity c \<and> max_sequences c' = max_sequences c \<and>
         size_count c' = size_count c \<and> live_sequences c' = live_sequences c \<and> has_kv_cache c' = has_kv_cache c"
proof (cases "capacity c = 0 \<or> tokens = []")
  case True
  with assms show ?thesis by (auto simp: radix_Lookup_def Let_def)
next
  case False
  let ?l = "\<lparr>lk_offset = 0, lk_blocks = [], lk_last_seq_id = -1, lk_last_seq_tokens = 0,
                  lk_node_hit = False, lk_clock = clock c\<rparr>"
  obtain r l where w: "lookup_walk alive be (root c) tokens ?l = (r, l)" by fastforce
  have c': "c' = c\<lparr>root := r, clock := lk_clock l\<rparr>"
    using assms(2) False w by (auto simp: radix_Lookup_def Let_def split: if_splits)
  have ok: "tree_ok (root c)" using assms(1) by (simp add: radix_ok_def)
  have s: "tree_sum f r = tree_sum f (root c)" for f :: "int list \<Rightarrow> int \<Rightarrow> nat"
    using lookup_walk_preserves [OF w ok, of f] by blast
  have m: "tree_sum f r = tree_sum f (root c)" for f :: "int list \<Rightarrow> int \<Rightarrow> int multiset"
    using lookup_walk_preserves [OF w ok, of f] by blast
  from lookup_walk_preserves [OF w ok, of "\<lambda>_ _. 0 :: nat"] assms(1) show ?thesis
    by (simp add: c' radix_ok_def radix_counts s m)
qed

subsection \<open>Sequences of calls\<close>

datatype radix_op =
    OpInsert "nat \<Rightarrow> bool" "int list" "int list" int "nat option"
  | OpLookup "nat \<Rightarrow> bool" "int list" "nat option"
  | OpEvictOneSequence "nat \<Rightarrow> bool"

primrec radix_step :: "RadixPrefixCache \<Rightarrow> radix_op \<Rightarrow> RadixPrefixCache option" where
  "radix_step c (OpInsert alive ts bs sq be) = map_option fst (radix_Insert alive ts bs sq be c)"
| "radix_step c (OpLookup alive ts be) = Some (fst (radix_Lookup alive ts be c))"
| "radix_step c (OpEvictOneSequence alive) = Some (fst (EvictOneSequence alive c))"

primrec radix_run :: "RadixPrefixCache \<Rightarrow> radix_op list \<Rightarrow> RadixPrefixCache option" where
  "radix_run c [] = Some c"
| "radix_run c (op # ops) = (case radix_step c op of None \<Rightarrow> None | Some c' \<Rightarrow> radix_run c' ops)"

primrec radix_legal :: "radix_op \<Rightarrow> bool" where
  "radix_legal (OpInsert alive ts bs sq be) = (0 \<le> sq)"
| "radix_legal (OpLookup alive ts be) = True"
| "radix_legal (OpEvictOneSequence alive) = True"

lemma radix_ok_Insert:
  assumes "radix_ok c" "0 \<le> sq"
  shows "\<exists>c' eff ok. radix_Insert alive ts bs sq be c = Some (c', eff, ok) \<and> radix_ok c'"
proof (cases "capacity c = 0 \<or> ts = [] \<or> bs = []")
  case True
  with assms show ?thesis by (auto simp: radix_Insert_def)
next
  case False
  then have "0 < capacity c" "ts \<noteq> []" "bs \<noteq> []" by auto
  from assms this show ?thesis
    by (rule radix_Insert_spec [where alive = alive and be = be]) (auto dest: shrunk_radix_ok)
qed

lemma radix_ok_EvictOneSequence:
  assumes "radix_ok c"
  shows "radix_ok (fst (EvictOneSequence alive c))"
proof (cases "live_sequences c = 0")
  case True
  with assms show ?thesis by (simp add: EvictOneSequence_def EvictOneSequenceLocked_none)
next
  case False
  then have "0 < live_sequences c" by simp
  with assms show ?thesis
    by (rule EvictOneSequenceLocked_spec [where alive = alive])
       (auto simp: EvictOneSequence_def dest: shrunk_radix_ok)
qed

lemma radix_ok_step:
  assumes "radix_ok c" "radix_legal a"
  shows "\<exists>c'. radix_step c a = Some c' \<and> radix_ok c'"
proof (cases a)
  case (OpInsert alive ts bs sq be)
  with assms radix_ok_Insert [of c sq alive ts bs be] show ?thesis by auto
next
  case (OpLookup alive ts be)
  with assms radix_Lookup_preserves [of c alive ts be] show ?thesis
    by (metis prod.collapse radix_step.simps(2))
next
  case (OpEvictOneSequence alive)
  with assms show ?thesis by (simp add: radix_ok_EvictOneSequence)
qed

lemma radix_ok_run:
  "radix_ok c \<Longrightarrow> list_all radix_legal ops \<Longrightarrow> \<exists>c'. radix_run c ops = Some c' \<and> radix_ok c'"
proof (induction ops arbitrary: c)
  case (Cons a ops)
  then obtain c1 where "radix_step c a = Some c1" "radix_ok c1" using radix_ok_step [of c a] by auto
  with Cons show ?case by simp
qed simp

lemma example_insert:
  "radix_Insert alive [1, 2] [7] 3 (Some 0) (RadixPrefixCache_init True True 8 8) =
     Some (\<lparr>has_kv_cache = True, has_on_evict = True, capacity = 8, max_sequences = 8, size_count = 1,
       live_sequences = 1, clock = 1, root = RadixNode empty_info
         [(1, RadixNode \<lparr>edge = [1, 2], block_table = [7], sequence_id = 3, backend = Some 0,
                        node_last_used = 1\<rparr> [])]\<rparr>, [], True)"
  by (simp add: radix_Insert_def RadixPrefixCache_init_def insert_walk.simps Let_def)

subsection \<open>Properties\<close>



text \<open>
  C11: A lookup never reuses the wrong cache content. When \<open>Lookup\<close> reports a hit, the
  sequence and block table it returns are those of the donor stored for exactly the first
  \<open>matched_tokens\<close> tokens of the request, that donor's backend is alive and is the backend
  asking, and the table is not empty. Looking up changes no donor.
\<close>

theorem radix_Lookup_sound:
  assumes "radix_ok c" "radix_Lookup alive tokens be c = (c', True, res)"
  shows "0 < res_matched_tokens res \<and> res_matched_tokens res \<le> length tokens \<and> res_block_table res \<noteq> [] \<and>
    (\<exists>be'. donor_of (root c) (take (res_matched_tokens res) tokens) =
             Some (res_block_table res, res_sequence_id res, be') \<and> lock_backend alive be' = be) \<and>
    (\<forall>ts. donor_of (root c') ts = donor_of (root c) ts)"
proof -
  let ?l = "\<lparr>lk_offset = 0, lk_blocks = [], lk_last_seq_id = -1, lk_last_seq_tokens = 0,
                  lk_node_hit = False, lk_clock = clock c\<rparr>"
  obtain r l where w: "lookup_walk alive be (root c) tokens ?l = (r, l)" by fastforce
  have res: "res = \<lparr>res_block_table = lk_blocks l, res_sequence_id = lk_last_seq_id l,
      res_matched_tokens = lk_last_seq_tokens l\<rparr>" "lk_blocks l \<noteq> []" "0 \<le> lk_last_seq_id l"
    using assms(2) w by (auto simp: radix_Lookup_def Let_def split: if_splits)
  have ok: "tree_ok (root c)" using assms(1) by (simp add: radix_ok_def)
  from lookup_walk_sound [OF w ok] res obtain k be' where
    "0 < k" "k \<le> length tokens" "lk_last_seq_tokens l = k"
    "donor_of (root c) (take k tokens) = Some (lk_blocks l, lk_last_seq_id l, be')"
    "lock_backend alive be' = be" by auto
  with res radix_Lookup_preserves [OF assms] show ?thesis by auto
qed

theorem radix_Lookup_sound_witness:
  "\<exists>c eff. radix_Insert (\<lambda>_. True) [1, 2] [7] 3 (Some 0) (RadixPrefixCache_init True True 8 8) =
       Some (c, eff, True) \<and> donor_of (root c) (take 2 [1, 2, 9]) = Some ([7], 3, Some 0)"
proof -
  obtain c eff where run:
    "radix_Insert (\<lambda>_. True) [1, 2] [7] 3 (Some 0) (RadixPrefixCache_init True True 8 8) = Some (c, eff, True)"
    and ok: "radix_ok c"
    using radix_ok_Insert [OF radix_ok_init [of True True 8 8], of 3 "\<lambda>_. True" "[1, 2]" "[7]" "Some 0"]
      example_insert [of "\<lambda>_. True"] by fastforce
  obtain c' hit res where l: "radix_Lookup (\<lambda>_. True) [1, 2, 9] (Some 0) c = (c', hit, res)"
    by (metis prod_cases3)
  have "c = fst (the (radix_Insert (\<lambda>_. True) [1, 2] [7] 3 (Some 0) (RadixPrefixCache_init True True 8 8)))"
    using run by simp
  then have "snd (radix_Lookup (\<lambda>_. True) [1, 2, 9] (Some 0) c) =
      (True, \<lparr>res_block_table = [7], res_sequence_id = 3, res_matched_tokens = 2\<rparr>)"
    unfolding example_insert by (simp, code_simp)
  with l have hit: "hit = True" "res = \<lparr>res_block_table = [7], res_sequence_id = 3, res_matched_tokens = 2\<rparr>"
    by simp_all
  from radix_Lookup_sound [OF ok l [unfolded hit(1)]] obtain be' where
    "donor_of (root c) (take 2 [1, 2, 9]) = Some ([7], 3, be')" "lock_backend (\<lambda>_. True) be' = Some 0"
    unfolding hit(2) by auto
  moreover from this(2) have "be' = Some 0" by (simp add: lock_backend_def split: option.splits)
  ultimately show ?thesis using run by blast
qed

text \<open>
  C1: The tree implements a map from token sequences to donors. \<open>Insert\<close> with a capacity, a
  non-empty key and a non-empty table always returns true; afterwards the key carries the
  new donor or (when a limit forced an eviction) none, every other key carries its old
  donor or none, no donor appears from nowhere, and while the limits leave room (two more
  nodes, one more sequence) no donor is lost. With a KV cache attached, the blocks released
  during the call are exactly those that left the tree.
\<close>

theorem radix_Insert_refines_map:
  assumes "radix_ok c" "0 \<le> seq" "0 < capacity c" "tokens \<noteq> []" "blocks \<noteq> []"
  shows "\<exists>c' eff. radix_Insert alive tokens blocks seq be c = Some (c', eff, True) \<and> radix_ok c' \<and>
    (\<forall>ts. donor_of (root c') ts \<in>
       {None, if ts = tokens then Some (blocks, seq, be) else donor_of (root c) ts}) \<and>
    (size_count c + 2 \<le> capacity c \<and> live_sequences c < max_sequences c \<longrightarrow>
       (\<forall>ts. donor_of (root c') ts = (if ts = tokens then Some (blocks, seq, be) else donor_of (root c) ts))) \<and>
    (has_kv_cache c \<longrightarrow> retained (root c') + mset (released eff) = retained (root c) + mset blocks)"
proof (rule radix_Insert_spec [OF assms, where alive = alive and be = be])
  fix c1 e1 c' e2
  assume run: "radix_Insert alive tokens blocks seq be c = Some (c', e1 @ e2, True)"
    and ins: "inserted c c1 e1 tokens (blocks, seq, be)" and sh: "shrunk c1 c' e2"
    and room: "size_count c + 2 \<le> capacity c \<Longrightarrow> live_sequences c < max_sequences c \<Longrightarrow> c' = c1 \<and> e2 = []"
  have d1: "donor_of (root c1) ts = (if ts = tokens then Some (blocks, seq, be) else donor_of (root c) ts)" for ts
    using ins by (simp add: inserted_def)
  have "donor_of (root c') ts \<in> {None, donor_of (root c1) ts}" for ts
    using sh unfolding shrunk_def by (metis insert_iff option.exhaust)
  then have "\<forall>ts. donor_of (root c') ts \<in>
      {None, if ts = tokens then Some (blocks, seq, be) else donor_of (root c) ts}" unfolding d1 by blast
  moreover have "size_count c + 2 \<le> capacity c \<and> live_sequences c < max_sequences c \<longrightarrow>
      (\<forall>ts. donor_of (root c') ts = (if ts = tokens then Some (blocks, seq, be) else donor_of (root c) ts))"
    using room d1 by auto
  moreover have "has_kv_cache c \<longrightarrow>
      retained (root c') + mset (released (e1 @ e2)) = retained (root c) + mset blocks"
    using ins sh by (auto simp: inserted_def shrunk_def ac_simps)
  ultimately show ?thesis using run shrunk_radix_ok [OF sh] by blast
qed

theorem radix_Insert_refines_map_witness:
  "\<exists>c' eff. radix_Insert (\<lambda>_. True) [1, 2] [7] 3 (Some 0) (RadixPrefixCache_init True True 8 8) =
     Some (c', eff, True) \<and> donor_of (root c') [1, 2] = Some ([7], 3, Some 0)"
proof -
  have i: "0 < capacity (RadixPrefixCache_init True True 8 8)"
    "size_count (RadixPrefixCache_init True True 8 8) + 2 \<le> capacity (RadixPrefixCache_init True True 8 8)"
    "live_sequences (RadixPrefixCache_init True True 8 8) < max_sequences (RadixPrefixCache_init True True 8 8)"
    by (simp_all add: RadixPrefixCache_init_def)
  from radix_Insert_refines_map [OF radix_ok_init _ i(1), of 3 "[1, 2]" "[7]" "\<lambda>_. True" "Some 0"] i(2,3)
  show ?thesis by auto
qed

text \<open>
  C33: What was donated is found again. If every donor in the tree belongs to one live
  backend and the limits leave room, then a lookup of the very tokens just inserted hits and
  returns the inserted block table and sequence for the whole key.
\<close>

theorem radix_Lookup_after_Insert:
  assumes "radix_ok c" "0 \<le> seq" "0 < capacity c" "tokens \<noteq> []" "blocks \<noteq> []"
    and "size_count c + 2 \<le> capacity c" "live_sequences c < max_sequences c"
    and "alive b" "\<forall>ts bs q be'. donor_of (root c) ts = Some (bs, q, be') \<longrightarrow> be' = Some b"
    and "radix_Insert alive tokens blocks seq (Some b) c = Some (c', eff, ok)"
  shows "snd (radix_Lookup alive tokens (Some b) c') =
    (True, \<lparr>res_block_table = blocks, res_sequence_id = seq, res_matched_tokens = length tokens\<rparr>)"
proof (rule radix_Insert_spec [OF assms(1-5), where alive = alive and be = "Some b"])
  fix c1 e1 c'' e2
  assume run: "radix_Insert alive tokens blocks seq (Some b) c = Some (c'', e1 @ e2, True)"
    and ins: "inserted c c1 e1 tokens (blocks, seq, Some b)"
    and room: "size_count c + 2 \<le> capacity c \<Longrightarrow> live_sequences c < max_sequences c \<Longrightarrow> c'' = c1 \<and> e2 = []"
  have c': "c' = c1" using assms(10) run room [OF assms(6,7)] by simp
  let ?l = "\<lparr>lk_offset = 0, lk_blocks = [], lk_last_seq_id = -1, lk_last_seq_tokens = 0,
                  lk_node_hit = False, lk_clock = clock c1\<rparr>"
  have d1: "donor_of (root c1) ts = (if ts = tokens then Some (blocks, seq, Some b) else donor_of (root c) ts)" for ts
    using ins by (simp add: inserted_def)
  have be: "lock_backend alive be' = Some b" if "donor_of (root c1) ts = Some (bs, q, be')" for ts bs q be'
    using that assms(8,9) by (auto simp: d1 lock_backend_def split: if_splits option.splits)
  have "tree_ok (root c1)" "capacity c1 = capacity c" using ins by (auto simp: inserted_def radix_ok_def)
  with lookup_walk_complete [of "root c1" tokens blocks seq "Some b" alive "Some b" ?l] d1 be assms(4)
  obtain n' l' where "lookup_walk alive (Some b) (root c1) tokens ?l = (n', l')" "lk_node_hit l'"
    "lk_last_seq_id l' = seq" "lk_blocks l' = blocks" "lk_last_seq_tokens l' = length tokens" by auto
  with assms(2-5) \<open>capacity c1 = capacity c\<close> show ?thesis by (simp add: c' radix_Lookup_def Let_def)
qed

theorem radix_Lookup_after_Insert_witness:
  "\<exists>c'. snd (radix_Lookup (\<lambda>_. True) [1, 2] (Some 0) c') =
     (True, \<lparr>res_block_table = [7], res_sequence_id = 3, res_matched_tokens = length [1, 2 :: int]\<rparr>)"
proof -
  let ?c = "RadixPrefixCache_init True True 8 8"
  have i: "0 < capacity ?c" "size_count ?c + 2 \<le> capacity ?c" "live_sequences ?c < max_sequences ?c"
    by (simp_all add: RadixPrefixCache_init_def)
  have none: "\<forall>ts bs q be'. donor_of (root ?c) ts = Some (bs, q, be') \<longrightarrow> be' = Some 0"
    by (auto simp: RadixPrefixCache_init_def donor_of.simps donor_here_def empty_info_def split: list.splits)
  have ne: "[1, 2 :: int] \<noteq> []" "[7 :: int] \<noteq> []" and seq: "0 \<le> (3 :: int)" by simp_all
  obtain c' eff where run: "radix_Insert (\<lambda>_. True) [1, 2] [7] 3 (Some 0) ?c = Some (c', eff, True)"
    using radix_Insert_spec [OF radix_ok_init seq i(1) ne, where alive = "\<lambda>_. True" and be = "Some 0"] by blast
  from radix_Lookup_after_Insert [OF radix_ok_init seq i(1) ne i(2,3) TrueI none run]
  show ?thesis by blast
qed

text \<open>
  \<open>EvictOneSequence\<close> reports success exactly when there is a donor. It then removes
  exactly one donor, one whose time stamp is the smallest of all, reports its sequence,
  keeps every other donor, lowers the live count by one and releases exactly its blocks.
\<close>

theorem radix_EvictOneSequence_correct:
  assumes "radix_ok c" "EvictOneSequence alive c = (c', eff, r)"
  shows "(live_sequences c = 0 \<longrightarrow> r = None \<and> c' = c \<and> eff = []) \<and>
    (0 < live_sequences c \<longrightarrow>
       (\<exists>s vt bt be. r = Some s \<and> donor_of (root c) vt = Some (bt, s, be) \<and> donor_removed (root c) (root c') vt \<and>
          Suc (live_sequences c') = live_sequences c \<and> (has_kv_cache c \<longrightarrow> released eff = bt)) \<and>
       (\<exists>path m. node_at (root c) path = Some m \<and> r = Some (sequence_id (info m)) \<and>
          (\<forall>(u, q) \<in> set (CollectNodes is_seq_node [] (root c)). node_last_used (info m) \<le> u)))"
proof (cases "live_sequences c = 0")
  case True
  with assms show ?thesis by (simp add: EvictOneSequence_def EvictOneSequenceLocked_none)
next
  case False
  then have live: "0 < live_sequences c" by simp
  from assms(1) live obtain path m where v: "victim is_seq_node (root c) = Some (path, info m, children m = [])"
    "node_at (root c) path = Some m"
    "\<forall>(u, q) \<in> set (CollectNodes is_seq_node [] (root c)). node_last_used (info m) \<le> u"
    by (rule evict_victim)
  then have "r = Some (sequence_id (info m))"
    using assms(2) by (simp add: EvictOneSequence_def EvictOneSequenceLocked_def Let_def)
  with v False show ?thesis
    using EvictOneSequenceLocked_spec [OF assms(1) live, of alive] assms(2)
    by (auto simp: EvictOneSequence_def) (metis Pair_inject option.inject)
qed

theorem radix_EvictOneSequence_correct_witness:
  "\<exists>c. live_sequences c = 1 \<and> snd (snd (EvictOneSequence (\<lambda>_. True) c)) \<noteq> None"
proof -
  let ?c = "fst (the (radix_Insert (\<lambda>_. True) [1, 2] [7] 3 (Some 0) (RadixPrefixCache_init True True 8 8)))"
  have ok: "radix_ok ?c"
    using radix_ok_Insert [OF radix_ok_init [of True True 8 8], of 3 "\<lambda>_. True" "[1, 2]" "[7]" "Some 0"]
    by auto
  have live: "live_sequences ?c = 1" unfolding example_insert by simp
  let ?r = "EvictOneSequence (\<lambda>_. True) ?c"
  have "?r = (fst ?r, fst (snd ?r), snd (snd ?r))" by simp
  from radix_EvictOneSequence_correct [OF ok this] live show ?thesis by auto
qed


end
