(* ===== verification/Sequence_Slots.thy ===== *)
theory Sequence_Slots
  imports Prelude
begin

section \<open>The sequence slot manager\<close>

text \<open>
  \<open>runtime/scheduler/sequence_slot_manager.{h,cpp}\<close>. A vector of slots, each a small state
  machine, handed out as leases stamped with a generation. Every method holds the manager's
  mutex for its whole body, except \<open>ReleaseLease\<close>, which takes it twice: its two halves are
  separate definitions. The clock is an argument. The GPU memory query
  (\<open>cudaMemGetInfo\<close>) is the argument \<open>mem\<close>: \<^const>\<open>None\<close> when it fails or the build has no
  CUDA, otherwise the free and the total bytes; the pressure percentage is computed exactly.
\<close>

datatype SequenceState = kIdle | kPrefilling | kDecoding | kRetiring | kCompleted | kEvicted

record SequenceSlot =
  slot_id :: int
  slot_request_id :: int
  slot_sequence_id :: int
  slot_generation :: u64
  slot_state :: SequenceState
  slot_last_access :: time_point
  slot_acquired_at :: time_point
  retire_ready_at :: time_point
  slot_token_count :: int

record SequenceLease =
  lease_slot_id :: int
  lease_generation :: u64
  lease_request_id :: int

record SequenceSlotManager =
  slots :: "SequenceSlot list"
  max_slots :: nat
  idle_timeout :: int

definition lease_IsValid :: "SequenceLease \<Rightarrow> bool" where
  "lease_IsValid l \<longleftrightarrow> lease_slot_id l \<ge> 0"

text \<open>\<open>SequenceRetireFence\<close>: the instant from which the slot may be reused.\<close>

definition Fence_Immediate :: "time_point \<Rightarrow> time_point" where
  "Fence_Immediate now = now"

definition Fence_After :: "int \<Rightarrow> time_point \<Rightarrow> time_point" where
  "Fence_After grace now = now + max 0 grace"

definition Fence_Pending :: time_point where
  "Fence_Pending = 2 ^ 63 - 1"

definition IsIdle :: "time_point \<Rightarrow> int \<Rightarrow> SequenceSlot \<Rightarrow> bool" where
  "IsIdle now timeout s =
     (if slot_state s \<noteq> kDecoding then True else now - slot_last_access s > timeout)"

subsection \<open>Operations\<close>

definition initial_slot :: "time_point \<Rightarrow> nat \<Rightarrow> SequenceSlot" where
  "initial_slot now i =
     \<lparr>slot_id = int i, slot_request_id = -1, slot_sequence_id = -1, slot_generation = 0,
      slot_state = kIdle, slot_last_access = now, slot_acquired_at = now, retire_ready_at = 0,
      slot_token_count = 0\<rparr>"

definition InitializeSlots :: "time_point \<Rightarrow> SequenceSlotManager \<Rightarrow> SequenceSlotManager" where
  "InitializeSlots now m = m\<lparr>slots := map (initial_slot now) [0..<max_slots m]\<rparr>"

definition SequenceSlotManager_init :: "time_point \<Rightarrow> nat \<Rightarrow> SequenceSlotManager" where
  "SequenceSlotManager_init now n = InitializeSlots now \<lparr>slots = [], max_slots = n, idle_timeout = 300000\<rparr>"

definition ResetSlotForReuse :: "SequenceSlot \<Rightarrow> SequenceSlot" where
  "ResetSlotForReuse s =
     s\<lparr>slot_state := kIdle, slot_request_id := -1, slot_sequence_id := -1, slot_token_count := 0,
       retire_ready_at := 0\<rparr>"

definition reapable :: "time_point \<Rightarrow> SequenceSlot \<Rightarrow> bool" where
  "reapable now s \<longleftrightarrow> slot_state s = kRetiring \<and> retire_ready_at s \<le> now"

definition ReapRetiredSlotsLocked :: "time_point \<Rightarrow> SequenceSlotManager \<Rightarrow> SequenceSlotManager \<times> nat" where
  "ReapRetiredSlotsLocked now m =
     (m\<lparr>slots := map (\<lambda>s. if reapable now s then ResetSlotForReuse s else s) (slots m)\<rparr>,
      count_if (reapable now) (slots m))"

definition ReapRetiredSlots :: "time_point \<Rightarrow> SequenceSlotManager \<Rightarrow> SequenceSlotManager \<times> nat" where
  "ReapRetiredSlots now m = ReapRetiredSlotsLocked now m"

definition is_free :: "SequenceSlot \<Rightarrow> bool" where
  "is_free s \<longleftrightarrow> slot_state s = kIdle \<or> slot_state s = kEvicted"

definition is_used :: "SequenceSlot \<Rightarrow> bool" where
  "is_used s \<longleftrightarrow> slot_state s = kPrefilling \<or> slot_state s = kDecoding"

definition FindFreeSlot :: "int \<Rightarrow> SequenceSlotManager \<Rightarrow> nat option" where
  "FindFreeSlot sequence_capacity m =
     find_index (\<lambda>s. (sequence_capacity \<le> 0 \<or> slot_id s < sequence_capacity) \<and> is_free s) (slots m)"

definition FindSlotByRequestId :: "int \<Rightarrow> SequenceSlotManager \<Rightarrow> nat option" where
  "FindSlotByRequestId request_id m =
     find_index (\<lambda>s. slot_request_id s = request_id \<and> is_used s) (slots m)"

definition take_slot :: "time_point \<Rightarrow> int \<Rightarrow> SequenceSlot \<Rightarrow> SequenceSlot" where
  "take_slot now request_id s =
     s\<lparr>slot_generation := slot_generation s + 1, slot_state := kPrefilling, slot_request_id := request_id,
       slot_sequence_id := -1, slot_acquired_at := now, slot_last_access := now, retire_ready_at := 0,
       slot_token_count := 0\<rparr>"

definition slot_AcquireLease ::
  "time_point \<Rightarrow> int \<Rightarrow> int \<Rightarrow> SequenceSlotManager \<Rightarrow> SequenceSlotManager \<times> SequenceLease option" where
  "slot_AcquireLease now request_id sequence_capacity m =
     (let m1 = fst (ReapRetiredSlotsLocked now m)
      in case FindFreeSlot sequence_capacity m1 of
           None \<Rightarrow> (m1, None)
         | Some i \<Rightarrow>
             let m2 = m1\<lparr>slots := upd_at i (take_slot now request_id) (slots m1)\<rparr>
             in (m2, Some \<lparr>lease_slot_id = int i, lease_generation = slot_generation (slots m2 ! i),
                           lease_request_id = request_id\<rparr>))"

definition AcquireSlot :: "time_point \<Rightarrow> int \<Rightarrow> SequenceSlotManager \<Rightarrow> SequenceSlotManager \<times> int option" where
  "AcquireSlot now request_id m =
     (case slot_AcquireLease now request_id 0 m of (m', l) \<Rightarrow> (m', map_option lease_slot_id l))"

definition slot_in_range :: "int \<Rightarrow> SequenceSlotManager \<Rightarrow> bool" where
  "slot_in_range i m \<longleftrightarrow> 0 \<le> i \<and> i < int (max_slots m)"

definition ReleaseSlot :: "int \<Rightarrow> SequenceSlotManager \<Rightarrow> SequenceSlotManager" where
  "ReleaseSlot i m =
     (if \<not> slot_in_range i m then m else m\<lparr>slots := upd_at (nat i) ResetSlotForReuse (slots m)\<rparr>)"

text \<open>The slot a lease still owns in one of the accepted states.\<close>

definition LockAndValidateLease ::
  "SequenceLease \<Rightarrow> SequenceState list \<Rightarrow> SequenceSlotManager \<Rightarrow> nat option" where
  "LockAndValidateLease l states m =
     (if \<not> lease_IsValid l then None
      else if \<not> slot_in_range (lease_slot_id l) m then None
      else let i = nat (lease_slot_id l); s = slots m ! i
           in if slot_generation s \<noteq> lease_generation l then None
              else if slot_state s \<in> set states then Some i else None)"

definition with_lease ::
  "SequenceLease \<Rightarrow> SequenceState list \<Rightarrow> (SequenceSlot \<Rightarrow> SequenceSlot) \<Rightarrow> SequenceSlotManager \<Rightarrow>
   SequenceSlotManager \<times> bool" where
  "with_lease l states f m =
     (case LockAndValidateLease l states m of
        None \<Rightarrow> (m, False)
      | Some i \<Rightarrow> (m\<lparr>slots := upd_at i f (slots m)\<rparr>, True))"

definition RetireLease ::
  "time_point \<Rightarrow> SequenceLease \<Rightarrow> time_point \<Rightarrow> SequenceSlotManager \<Rightarrow> SequenceSlotManager \<times> bool" where
  "RetireLease now l ready_at m =
     with_lease l [kPrefilling, kDecoding, kCompleted]
       (\<lambda>s. s\<lparr>slot_state := kRetiring, retire_ready_at := ready_at, slot_last_access := now\<rparr>) m"

text \<open>
  \<open>ReleaseLease\<close> when nothing happens between its two critical sections, the first at
  \<open>t0\<close> and the second at \<open>t1\<close>.
\<close>

definition ReleaseLease ::
  "time_point \<Rightarrow> time_point \<Rightarrow> SequenceLease \<Rightarrow> SequenceSlotManager \<Rightarrow> SequenceSlotManager \<times> bool" where
  "ReleaseLease t0 t1 l m =
     (case RetireLease t0 l (Fence_Immediate t0) m of
        (m1, False) \<Rightarrow> (m1, False)
      | (m1, True) \<Rightarrow> (case ReapRetiredSlotsLocked t1 m1 of (m2, n) \<Rightarrow> (m2, n > 0)))"

definition CompleteRetiredLease :: "SequenceLease \<Rightarrow> SequenceSlotManager \<Rightarrow> SequenceSlotManager \<times> bool" where
  "CompleteRetiredLease l m = with_lease l [kRetiring] ResetSlotForReuse m"

definition EvictIdleSlotsLocked ::
  "time_point \<Rightarrow> int \<Rightarrow> SequenceSlotManager \<Rightarrow> SequenceSlotManager \<times> (int \<times> int) list" where
  "EvictIdleSlotsLocked now timeout m =
     (let hit = (\<lambda>s. slot_state s = kDecoding \<and> IsIdle now timeout s)
      in (m\<lparr>slots := map (\<lambda>s. if hit s then s\<lparr>slot_state := kEvicted\<rparr> else s) (slots m)\<rparr>,
          map (\<lambda>s. (slot_id s, slot_sequence_id s)) (filter hit (slots m))))"

definition EvictIdleSlots ::
  "time_point \<Rightarrow> int \<Rightarrow> SequenceSlotManager \<Rightarrow> SequenceSlotManager \<times> (int \<times> int) list" where
  "EvictIdleSlots now timeout m = EvictIdleSlotsLocked now timeout m"

definition MarkProcessing :: "time_point \<Rightarrow> int \<Rightarrow> SequenceSlotManager \<Rightarrow> SequenceSlotManager" where
  "MarkProcessing now i m =
     (if \<not> slot_in_range i m then m
      else m\<lparr>slots := upd_at (nat i)
              (\<lambda>s. let s1 = s\<lparr>slot_last_access := now\<rparr>
                   in if slot_state s1 = kPrefilling then s1\<lparr>slot_state := kDecoding\<rparr> else s1) (slots m)\<rparr>)"

definition UpdateTokenCount :: "int \<Rightarrow> int \<Rightarrow> SequenceSlotManager \<Rightarrow> SequenceSlotManager" where
  "UpdateTokenCount i n m =
     (if \<not> slot_in_range i m then m
      else m\<lparr>slots := upd_at (nat i) (\<lambda>s. s\<lparr>slot_token_count := n\<rparr>) (slots m)\<rparr>)"

definition CurrentGeneration :: "int \<Rightarrow> SequenceSlotManager \<Rightarrow> u64 option" where
  "CurrentGeneration i m = (if \<not> slot_in_range i m then None else Some (slot_generation (slots m ! nat i)))"

definition IsLiveLease :: "SequenceLease \<Rightarrow> SequenceSlotManager \<Rightarrow> bool" where
  "IsLiveLease l m \<longleftrightarrow>
     lease_IsValid l \<and> slot_in_range (lease_slot_id l) m \<and>
     (let s = slots m ! nat (lease_slot_id l)
      in slot_generation s = lease_generation l \<and> slot_request_id s = lease_request_id l \<and> is_used s)"

definition GetRetiringSlotCount :: "SequenceSlotManager \<Rightarrow> nat" where
  "GetRetiringSlotCount m = count_if (\<lambda>s. slot_state s = kRetiring) (slots m)"

definition GetUsedSlotCount :: "SequenceSlotManager \<Rightarrow> nat" where
  "GetUsedSlotCount m = count_if is_used (slots m)"

definition GetFreeSlotCount :: "SequenceSlotManager \<Rightarrow> nat" where
  "GetFreeSlotCount m = count_if is_free (slots m)"

definition MarkCompleted ::
  "time_point \<Rightarrow> SequenceLease \<Rightarrow> int \<Rightarrow> SequenceSlotManager \<Rightarrow> SequenceSlotManager \<times> bool" where
  "MarkCompleted now l n m =
     with_lease l [kPrefilling, kDecoding, kCompleted]
       (\<lambda>s. s\<lparr>slot_state := kCompleted, slot_token_count := max 0 n, slot_last_access := now\<rparr>) m"

definition RestoreLease ::
  "time_point \<Rightarrow> SequenceLease \<Rightarrow> int \<Rightarrow> int \<Rightarrow> int \<Rightarrow> SequenceSlotManager \<Rightarrow> SequenceSlotManager \<times> bool" where
  "RestoreLease now l request_id sequence_id n m =
     with_lease l [kCompleted]
       (\<lambda>s. s\<lparr>slot_request_id := request_id, slot_sequence_id := sequence_id, slot_state := kPrefilling,
             slot_token_count := max 0 n, slot_last_access := now, slot_acquired_at := now,
             retire_ready_at := 0\<rparr>) m"

definition SetMaxSlots :: "time_point \<Rightarrow> nat \<Rightarrow> SequenceSlotManager \<Rightarrow> SequenceSlotManager" where
  "SetMaxSlots now n m = (if n = max_slots m then m else InitializeSlots now (m\<lparr>max_slots := n\<rparr>))"

definition SetIdleTimeout :: "int \<Rightarrow> SequenceSlotManager \<Rightarrow> SequenceSlotManager" where
  "SetIdleTimeout timeout m = m\<lparr>idle_timeout := timeout\<rparr>"

subsection \<open>Memory pressure\<close>

definition CanAcceptRequest :: "(nat \<times> nat) option \<Rightarrow> bool" where
  "CanAcceptRequest mem =
     (case mem of
        None \<Rightarrow> True
      | Some (free_b, total_b) \<Rightarrow> \<not> (real (total_b - free_b) / real total_b * 100 > 90))"

definition GetMemoryPressure :: "(nat \<times> nat) option \<Rightarrow> int" where
  "GetMemoryPressure mem =
     (case mem of None \<Rightarrow> -1 | Some (free_b, total_b) \<Rightarrow> \<lfloor>real (total_b - free_b) / real total_b * 100\<rfloor>)"

definition PerformGracefulDegradation ::
  "(nat \<times> nat) option \<Rightarrow> SequenceSlotManager \<Rightarrow> SequenceSlotManager \<times> bool" where
  "PerformGracefulDegradation mem m =
     (let pressure = GetMemoryPressure mem
      in if pressure < 0 then (m, False)
         else if pressure \<ge> 90 then
           (let new_max = max 8 (max_slots m div 2)
            in if new_max < max_slots m then (m\<lparr>max_slots := new_max\<rparr>, True) else (m, False))
         else if pressure \<ge> 85 then
           (let new_max = max 16 (max_slots m * 3 div 4)
            in if new_max < max_slots m then (m\<lparr>max_slots := new_max\<rparr>, True) else (m, False))
         else (m, False))"

subsection \<open>Well-formedness\<close>

definition slot_ok :: "nat \<Rightarrow> SequenceSlot \<Rightarrow> bool" where
  "slot_ok i s \<longleftrightarrow>
     slot_id s = int i \<and>
     (slot_state s = kIdle \<longrightarrow> slot_request_id s = -1 \<and> slot_sequence_id s = -1 \<and> retire_ready_at s = 0)"

text \<open>The range check of every method, against \<open>max_slots\<close>, keeps the vector access in bounds.\<close>

definition slots_wf :: "SequenceSlotManager \<Rightarrow> bool" where
  "slots_wf m \<longleftrightarrow> max_slots m \<le> length (slots m) \<and> (\<forall>i < length (slots m). slot_ok i (slots m ! i))"

lemma slots_wf_map:
  assumes "slots_wf m" "\<And>i s. slot_ok i s \<Longrightarrow> slot_ok i (f s)"
  shows "slots_wf (m\<lparr>slots := map f (slots m)\<rparr>)"
  using assms by (simp add: slots_wf_def)

lemma slots_wf_upd:
  assumes "slots_wf m" "\<And>i s. slot_ok i s \<Longrightarrow> slot_ok i (f s)"
  shows "slots_wf (m\<lparr>slots := upd_at j f (slots m)\<rparr>)"
  using assms by (auto simp: slots_wf_def nth_upd_at)

lemma slot_ok_Reset: "slot_ok i s \<Longrightarrow> slot_ok i (ResetSlotForReuse s)"
  by (simp add: slot_ok_def ResetSlotForReuse_def)

lemma slots_wf_Initialize [invariants]: "slots_wf (InitializeSlots now m)"
  by (simp add: slots_wf_def InitializeSlots_def slot_ok_def initial_slot_def)

lemma slots_wf_init [invariants]: "slots_wf (SequenceSlotManager_init now n)"
  by (simp add: SequenceSlotManager_init_def slots_wf_Initialize)

lemma slots_wf_Reap [invariants]: "slots_wf m \<Longrightarrow> slots_wf (fst (ReapRetiredSlotsLocked now m))"
  by (auto simp: ReapRetiredSlotsLocked_def intro!: slots_wf_map slot_ok_Reset)

lemma slots_wf_AcquireLease [invariants]: "slots_wf m \<Longrightarrow> slots_wf (fst (slot_AcquireLease now r cap m))"
  by (auto simp: slot_AcquireLease_def Let_def take_slot_def slot_ok_def split: option.split
           intro!: slots_wf_Reap slots_wf_upd)

lemma slots_wf_with_lease:
  "slots_wf m \<Longrightarrow> (\<And>i s. slot_ok i s \<Longrightarrow> slot_ok i (f s)) \<Longrightarrow> slots_wf (fst (with_lease l states f m))"
  by (auto simp: with_lease_def split: option.split intro!: slots_wf_upd)

lemma slots_wf_RetireLease [invariants]: "slots_wf m \<Longrightarrow> slots_wf (fst (RetireLease now l t m))"
  by (auto simp: RetireLease_def slot_ok_def intro!: slots_wf_with_lease)

lemma ReleaseLease_eq:
  "ReleaseLease t0 t1 l m =
     (let r = RetireLease t0 l (Fence_Immediate t0) m; q = ReapRetiredSlotsLocked t1 (fst r)
      in if snd r then (fst q, snd q > 0) else (fst r, False))"
  by (simp add: ReleaseLease_def Let_def split: prod.split bool.split)

lemma slots_wf_ReleaseLease [invariants]: "slots_wf m \<Longrightarrow> slots_wf (fst (ReleaseLease t0 t1 l m))"
proof -
  assume "slots_wf m"
  then have "slots_wf (fst (RetireLease t0 l (Fence_Immediate t0) m))" by (rule invariants)
  then show ?thesis by (simp add: ReleaseLease_eq Let_def slots_wf_Reap)
qed

lemma slots_wf_rest [invariants]:
  "slots_wf m \<Longrightarrow> slots_wf (ReleaseSlot i m)"
  "slots_wf m \<Longrightarrow> slots_wf (fst (CompleteRetiredLease l m))"
  "slots_wf m \<Longrightarrow> slots_wf (fst (EvictIdleSlots now timeout m))"
  "slots_wf m \<Longrightarrow> slots_wf (MarkProcessing now i m)"
  "slots_wf m \<Longrightarrow> slots_wf (UpdateTokenCount i k m)"
  "slots_wf m \<Longrightarrow> slots_wf (fst (MarkCompleted now l k m))"
  "slots_wf m \<Longrightarrow> slots_wf (fst (RestoreLease now l r q k m))"
  "slots_wf m \<Longrightarrow> slots_wf (SetMaxSlots now n m)"
  "slots_wf m \<Longrightarrow> slots_wf (SetIdleTimeout timeout m)"
  "slots_wf m \<Longrightarrow> slots_wf (fst (PerformGracefulDegradation mem m))"
  subgoal by (auto simp: ReleaseSlot_def intro!: slots_wf_upd slot_ok_Reset)
  subgoal by (auto simp: CompleteRetiredLease_def intro!: slots_wf_with_lease slot_ok_Reset)
  subgoal by (auto simp: EvictIdleSlots_def EvictIdleSlotsLocked_def Let_def slot_ok_def intro!: slots_wf_map)
  subgoal by (auto simp: MarkProcessing_def slot_ok_def Let_def intro!: slots_wf_upd)
  subgoal by (auto simp: UpdateTokenCount_def slot_ok_def intro!: slots_wf_upd)
  subgoal by (auto simp: MarkCompleted_def slot_ok_def intro!: slots_wf_with_lease)
  subgoal by (auto simp: RestoreLease_def slot_ok_def intro!: slots_wf_with_lease)
  subgoal by (simp add: SetMaxSlots_def slots_wf_Initialize)
  subgoal by (simp add: SetIdleTimeout_def slots_wf_def)
  subgoal by (auto simp: PerformGracefulDegradation_def Let_def slots_wf_def)
  done

subsection \<open>The manager as a machine\<close>

datatype slot_op =
    OpAcquireLease time_point int int
  | OpReleaseSlot int
  | OpRetireLease time_point SequenceLease time_point
  | OpReleaseLease time_point time_point SequenceLease
  | OpCompleteRetiredLease SequenceLease
  | OpReapRetiredSlots time_point
  | OpEvictIdleSlots time_point int
  | OpMarkProcessing time_point int
  | OpUpdateTokenCount int int
  | OpMarkCompleted time_point SequenceLease int
  | OpRestoreLease time_point SequenceLease int int int
  | OpSetMaxSlots time_point nat
  | OpSetIdleTimeout int
  | OpPerformGracefulDegradation "(nat \<times> nat) option"

text \<open>The new state and the lease the call hands out, if any.\<close>

primrec slot_exec :: "SequenceSlotManager \<Rightarrow> slot_op \<Rightarrow> SequenceSlotManager \<times> SequenceLease option" where
  "slot_exec m (OpAcquireLease now r cap) = slot_AcquireLease now r cap m"
| "slot_exec m (OpReleaseSlot i) = (ReleaseSlot i m, None)"
| "slot_exec m (OpRetireLease now l t) = (fst (RetireLease now l t m), None)"
| "slot_exec m (OpReleaseLease t0 t1 l) = (fst (ReleaseLease t0 t1 l m), None)"
| "slot_exec m (OpCompleteRetiredLease l) = (fst (CompleteRetiredLease l m), None)"
| "slot_exec m (OpReapRetiredSlots now) = (fst (ReapRetiredSlots now m), None)"
| "slot_exec m (OpEvictIdleSlots now timeout) = (fst (EvictIdleSlots now timeout m), None)"
| "slot_exec m (OpMarkProcessing now i) = (MarkProcessing now i m, None)"
| "slot_exec m (OpUpdateTokenCount i k) = (UpdateTokenCount i k m, None)"
| "slot_exec m (OpMarkCompleted now l k) = (fst (MarkCompleted now l k m), None)"
| "slot_exec m (OpRestoreLease now l r q k) = (fst (RestoreLease now l r q k m), None)"
| "slot_exec m (OpSetMaxSlots now n) = (SetMaxSlots now n m, None)"
| "slot_exec m (OpSetIdleTimeout timeout) = (SetIdleTimeout timeout m, None)"
| "slot_exec m (OpPerformGracefulDegradation mem) = (fst (PerformGracefulDegradation mem m), None)"

interpretation slotm: machine "\<lambda>m a. fst (slot_exec m a)" slots_wf "\<lambda>_ _. True"
proof
  show "slots_wf m \<Longrightarrow> True \<Longrightarrow> slots_wf (fst (slot_exec m a))" for m a
    by (cases a) (simp_all add: invariants ReapRetiredSlots_def)
qed

fun slot_run :: "SequenceSlotManager \<Rightarrow> slot_op list \<Rightarrow> SequenceSlotManager \<times> SequenceLease list" where
  "slot_run m [] = (m, [])"
| "slot_run m (a # as) =
     (case slot_exec m a of (m1, l) \<Rightarrow>
        (case slot_run m1 as of (m2, ls) \<Rightarrow> (m2, (case l of Some x \<Rightarrow> x # ls | None \<Rightarrow> ls))))"

definition resizes :: "slot_op \<Rightarrow> bool" where
  "resizes a = (case a of OpSetMaxSlots now n \<Rightarrow> True | _ \<Rightarrow> False)"

subsection \<open>Generations\<close>

definition generations :: "SequenceSlotManager \<Rightarrow> u64 list" where
  "generations m = map slot_generation (slots m)"

lemma generations_upd [simp]:
  "(\<And>s. slot_generation (f s) = slot_generation s) \<Longrightarrow>
     generations (m\<lparr>slots := upd_at i f (slots m)\<rparr>) = generations m"
  by (simp add: generations_def map_upd_at_inv)

lemma generations_Reap [simp]: "generations (fst (ReapRetiredSlotsLocked now m)) = generations m"
  by (simp add: generations_def ReapRetiredSlotsLocked_def ResetSlotForReuse_def)

lemma generations_with_lease [simp]:
  "(\<And>s. slot_generation (f s) = slot_generation s) \<Longrightarrow>
     generations (fst (with_lease l states f m)) = generations m"
  by (simp add: with_lease_def split: option.split)

lemma generations_ReleaseLease [simp]: "generations (fst (ReleaseLease t0 t1 l m)) = generations m"
  by (simp add: ReleaseLease_eq RetireLease_def Let_def)

lemma generations_exec_other:
  assumes "\<not> resizes a" "\<And>now r cap. a \<noteq> OpAcquireLease now r cap"
  shows "generations (fst (slot_exec m a)) = generations m \<and> snd (slot_exec m a) = None"
proof (cases a)
  case (OpEvictIdleSlots now timeout)
  then show ?thesis by (simp add: EvictIdleSlots_def EvictIdleSlotsLocked_def generations_def Let_def)
next
  case (OpSetIdleTimeout timeout)
  then show ?thesis by (simp add: SetIdleTimeout_def generations_def)
next
  case (OpPerformGracefulDegradation mem)
  then show ?thesis by (auto simp: PerformGracefulDegradation_def generations_def Let_def)
qed (use assms in \<open>auto simp: resizes_def ReleaseSlot_def ResetSlotForReuse_def RetireLease_def
      CompleteRetiredLease_def ReapRetiredSlots_def MarkProcessing_def UpdateTokenCount_def
      MarkCompleted_def RestoreLease_def Let_def\<close>)

lemma slot_AcquireLease_generations:
  assumes "slot_AcquireLease now r cap m = (m', l)"
  shows "(l = None \<and> generations m' = generations m) \<or>
    (\<exists>i x. l = Some x \<and> i < length (slots m) \<and> lease_slot_id x = int i \<and>
       lease_generation x = generations m ! i + 1 \<and>
       generations m' = (generations m)[i := generations m ! i + 1])"
proof -
  let ?m1 = "fst (ReapRetiredSlotsLocked now m)"
  have len: "length (slots ?m1) = length (slots m)" by (simp add: ReapRetiredSlotsLocked_def)
  have gen: "map slot_generation (slots ?m1) = generations m"
    using generations_Reap [of now m] by (simp only: generations_def)
  show ?thesis
  proof (cases "FindFreeSlot cap ?m1")
    case None
    with assms show ?thesis by (auto simp: slot_AcquireLease_def Let_def)
  next
    case (Some i)
    then have i: "i < length (slots ?m1)" using find_index_SomeD by (fastforce simp: FindFreeSlot_def)
    have g: "slot_generation (slots ?m1 ! i) = generations m ! i"
      using i by (simp add: gen [symmetric])
    have "map slot_generation (upd_at i (take_slot now r) (slots ?m1)) = (generations m)[i := generations m ! i + 1]"
      using i g by (simp add: upd_at_def map_update gen take_slot_def)
    with assms Some i len g show ?thesis
      by (auto simp: slot_AcquireLease_def Let_def generations_def take_slot_def)
  qed
qed

text \<open>
  \<open>issued_ok k m ls\<close>: at most \<open>k\<close> acquisitions so far, of two leases in \<open>ls\<close> (newest first) on
  one slot the newer has the larger generation, and none is ahead of its slot.
\<close>

definition newer_lease :: "SequenceLease \<Rightarrow> SequenceLease \<Rightarrow> bool" where
  "newer_lease a b \<longleftrightarrow>
     (lease_slot_id a = lease_slot_id b \<longrightarrow> unat (lease_generation b) < unat (lease_generation a))"

definition issued_ok :: "nat \<Rightarrow> SequenceSlotManager \<Rightarrow> SequenceLease list \<Rightarrow> bool" where
  "issued_ok k m ls \<longleftrightarrow>
     (\<forall>g \<in> set (generations m). unat g \<le> k) \<and> sorted_wrt newer_lease ls \<and>
     (\<forall>l \<in> set ls. in_range (lease_slot_id l) (slots m) \<and>
        unat (lease_generation l) \<le> unat (generations m ! nat (lease_slot_id l)))"

lemma issued_ok_exec:
  assumes "issued_ok k m ls" "\<not> resizes a" "k + 1 < 2 ^ 64" "slot_exec m a = (m', l)"
  shows "issued_ok (Suc k) m' (case l of Some x \<Rightarrow> x # ls | None \<Rightarrow> ls)"
proof (cases "\<exists>now r cap. a = OpAcquireLease now r cap")
  case False
  with generations_exec_other [OF assms(2), of m] assms(4) have "generations m' = generations m" "l = None"
    by auto
  moreover have "length (slots m') = length (slots m)"
    using \<open>generations m' = generations m\<close> by (metis generations_def length_map)
  ultimately show ?thesis using assms(1) by (auto simp: issued_ok_def in_range_def)
next
  case True
  then obtain now r cap where "slot_AcquireLease now r cap m = (m', l)" using assms(4) by auto
  from slot_AcquireLease_generations [OF this] show ?thesis
  proof (elim disjE exE conjE)
    assume "l = None" "generations m' = generations m"
    moreover have "length (slots m') = length (slots m)"
      using \<open>generations m' = generations m\<close> by (metis generations_def length_map)
    ultimately show ?thesis using assms(1) by (auto simp: issued_ok_def in_range_def)
  next
    fix i x
    assume x: "l = Some x" "i < length (slots m)" "lease_slot_id x = int i"
      "lease_generation x = generations m ! i + 1"
      "generations m' = (generations m)[i := generations m ! i + 1]"
    have len: "length (slots m') = length (slots m)" using x(5) by (metis generations_def length_list_update length_map)
    have gi: "i < length (generations m)" using x(2) by (simp add: generations_def)
    then have le: "unat (generations m ! i) \<le> k" using assms(1) by (auto simp: issued_ok_def)
    then have suc: "unat (generations m ! i + 1) = Suc (unat (generations m ! i))"
      using assms(3) by (simp add: unat_word_ariths)
    have "newer_lease x y" if "y \<in> set ls" for y
      using assms(1) that x(3,4) suc
      by (auto simp: issued_ok_def newer_lease_def less_Suc_eq_le) (metis nat_int)
    with assms(1) have dist: "sorted_wrt newer_lease (x # ls)" by (simp add: issued_ok_def)
    have bound: "\<forall>g \<in> set (generations m'). unat g \<le> Suc k"
    proof
      fix g assume "g \<in> set (generations m')"
      then have "g = generations m ! i + 1 \<or> g \<in> set (generations m)"
        using set_update_subset_insert [of "generations m" i] unfolding x(5) by blast
      then show "unat g \<le> Suc k" using suc le assms(1) unfolding issued_ok_def by (metis Suc_le_mono le_SucI)
    qed
    have "in_range (lease_slot_id y) (slots m') \<and>
        unat (lease_generation y) \<le> unat (generations m' ! nat (lease_slot_id y))" if "y \<in> set ls" for y
      using assms(1) that len suc gi
      by (cases "nat (lease_slot_id y) = i") (auto simp: issued_ok_def in_range_def x(5) le_SucI)
    moreover have "in_range (lease_slot_id x) (slots m') \<and>
        unat (lease_generation x) \<le> unat (generations m' ! nat (lease_slot_id x))"
      using x(2-4) len gi by (simp add: x(5))
    ultimately show ?thesis using bound dist by (simp add: issued_ok_def x(1))
  qed
qed

lemma issued_ok_run:
  assumes "issued_ok k m ls0" "list_all (\<lambda>a. \<not> resizes a) as" "k + length as < 2 ^ 64"
    "slot_run m as = (m', ls)"
  shows "issued_ok (k + length as) m' (rev ls @ ls0)"
  using assms
proof (induction as arbitrary: k m m' ls0 ls)
  case (Cons a as)
  obtain m1 l where e: "slot_exec m a = (m1, l)" by fastforce
  obtain m2 ls2 where r: "slot_run m1 as = (m2, ls2)" by fastforce
  let ?ls1 = "case l of Some x \<Rightarrow> x # ls0 | None \<Rightarrow> ls0"
  have "issued_ok (Suc k) m1 ?ls1" using issued_ok_exec [OF Cons.prems(1) _ _ e] Cons.prems(2,3) by simp
  from Cons.IH [OF this _ _ r] Cons.prems(2,3) have "issued_ok (Suc k + length as) m2 (rev ls2 @ ?ls1)" by simp
  with Cons.prems(4) e r show ?case by (cases l) auto
qed simp

lemma issued_ok_init: "issued_ok 0 (SequenceSlotManager_init now n) []"
  by (auto simp: issued_ok_def generations_def SequenceSlotManager_init_def InitializeSlots_def
      initial_slot_def)

lemma stale_with_lease:
  assumes "0 \<le> lease_slot_id l" "lease_generation l \<noteq> slot_generation (slots m ! nat (lease_slot_id l))"
  shows "with_lease l states f m = (m, False)"
  using assms by (simp add: with_lease_def LockAndValidateLease_def Let_def)

subsection \<open>Properties\<close>

text \<open>
  C34: Under every sequence of calls, degradation under memory pressure and resizing
  included, a slot's recorded number is its position, an idle slot carries no request, no
  sequence and no fence, and \<open>max_slots\<close> never exceeds the slot vector, so the range check
  of every method keeps its vector access in bounds.
\<close>

theorem slots_reachable_wf:
  "slots_wf (foldl (\<lambda>m a. fst (slot_exec m a)) (SequenceSlotManager_init now n) ops)"
  by (rule slotm.run_inv [OF slots_wf_init legal_run_total]) simp

text \<open>
  C12: A lease dies with its slot's next acquisition. In any run of fewer than \<open>2 ^ 64\<close> calls
  that does not resize the manager, if one lease and later another one were handed out for the
  same slot, then at the end every operation on the older lease (retire, complete, mark
  completed, restore) is refused without any change, and it is not live.
\<close>

theorem slot_stale_lease_rejected:
  assumes "slot_run (SequenceSlotManager_init now n) ops = (m, xs @ old # ys @ new # zs)"
    "list_all (\<lambda>a. \<not> resizes a) ops" "length ops < 2 ^ 64" "lease_slot_id old = lease_slot_id new"
  shows "RetireLease t old ready m = (m, False) \<and> CompleteRetiredLease old m = (m, False) \<and>
    MarkCompleted t old k m = (m, False) \<and> RestoreLease t old r q k m = (m, False) \<and> \<not> IsLiveLease old m"
proof -
  have ok: "issued_ok (length ops) m (rev zs @ new # rev ys @ old # rev xs)"
    using issued_ok_run [OF issued_ok_init assms(2) _ assms(1)] assms(3) by simp
  then have "newer_lease new old" by (auto simp: issued_ok_def sorted_wrt_append)
  moreover have r: "in_range (lease_slot_id new) (slots m)"
    "unat (lease_generation new) \<le> unat (generations m ! nat (lease_slot_id new))"
    using ok by (auto simp: issued_ok_def)
  ultimately have "lease_generation old \<noteq> generations m ! nat (lease_slot_id old)"
    using assms(4) by (auto simp: newer_lease_def)
  then have ne: "0 \<le> lease_slot_id old" "lease_generation old \<noteq> slot_generation (slots m ! nat (lease_slot_id old))"
    using r(1) assms(4) by (auto simp: generations_def in_range_def)
  then show ?thesis
    by (auto simp: RetireLease_def CompleteRetiredLease_def MarkCompleted_def RestoreLease_def
        IsLiveLease_def Let_def stale_with_lease)
qed

theorem slot_stale_lease_rejected_witness:
  "\<exists>m old new. slot_run (SequenceSlotManager_init 0 1) [OpAcquireLease 0 7 0, OpReleaseSlot 0, OpAcquireLease 1 8 0]
       = (m, [old, new]) \<and> \<not> IsLiveLease old m"
proof -
  let ?ops = "[OpAcquireLease 0 7 0, OpReleaseSlot 0, OpAcquireLease 1 8 0]"
  let ?r = "slot_run (SequenceSlotManager_init 0 1) ?ops"
  let ?old = "\<lparr>lease_slot_id = 0, lease_generation = 1, lease_request_id = 7\<rparr>"
  let ?new = "\<lparr>lease_slot_id = 0, lease_generation = 2, lease_request_id = 8\<rparr>"
  have "snd ?r = [?old, ?new]" by code_simp
  then have r: "?r = (fst ?r, [] @ ?old # [] @ ?new # [])" by (metis append_Nil prod.collapse)
  have "\<not> IsLiveLease ?old (fst ?r)"
    using slot_stale_lease_rejected [OF r] by (simp add: resizes_def)
  with r show ?thesis by (metis append_Nil)
qed



text \<open>
  Releasing an owned lease works at once: when the lease is current and its slot is
  prefilling, decoding or completed, \<open>ReleaseLease\<close> (with its two critical sections adjacent
  and the clock not running backwards) returns true and the slot is idle, keeping its
  generation so that the old lease cannot come back to life. Otherwise it returns false and
  changes nothing.
\<close>

theorem slot_ReleaseLease_correct:
  assumes "slots_wf m" "t0 \<le> t1"
  shows "(LockAndValidateLease l [kPrefilling, kDecoding, kCompleted] m \<noteq> None \<longrightarrow>
      (\<exists>m'. ReleaseLease t0 t1 l m = (m', True) \<and>
         slot_state (slots m' ! nat (lease_slot_id l)) = kIdle \<and>
         slot_generation (slots m' ! nat (lease_slot_id l)) = lease_generation l)) \<and>
    (LockAndValidateLease l [kPrefilling, kDecoding, kCompleted] m = None \<longrightarrow>
      ReleaseLease t0 t1 l m = (m, False))"
proof (cases "LockAndValidateLease l [kPrefilling, kDecoding, kCompleted] m")
  case None
  then show ?thesis by (simp add: ReleaseLease_eq RetireLease_def with_lease_def)
next
  case (Some i)
  then have i: "i = nat (lease_slot_id l)" "i < length (slots m)"
    "slot_generation (slots m ! i) = lease_generation l"
    using assms(1)
    by (auto simp: LockAndValidateLease_def lease_IsValid_def slot_in_range_def slots_wf_def Let_def
             split: if_splits)
  let ?f = "\<lambda>s. s\<lparr>slot_state := kRetiring, retire_ready_at := t0, slot_last_access := t0\<rparr>"
  let ?m1 = "m\<lparr>slots := upd_at i ?f (slots m)\<rparr>"
  have r: "RetireLease t0 l (Fence_Immediate t0) m = (?m1, True)"
    using Some by (simp add: RetireLease_def with_lease_def Fence_Immediate_def)
  have ready: "reapable t1 (slots ?m1 ! i)" using i(2) assms(2) by (simp add: reapable_def)
  then have "0 < snd (ReapRetiredSlotsLocked t1 ?m1)"
    using count_if_pos [of i "slots ?m1" "reapable t1"] i(2) by (simp add: ReapRetiredSlotsLocked_def)
  moreover have "slots (fst (ReapRetiredSlotsLocked t1 ?m1)) ! i = ResetSlotForReuse (slots ?m1 ! i)"
    using i(2) ready by (simp add: ReapRetiredSlotsLocked_def)
  ultimately show ?thesis
    using Some i r by (simp add: ReleaseLease_eq Let_def ResetSlotForReuse_def)
qed

theorem slot_ReleaseLease_correct_witness:
  "\<exists>m'. ReleaseLease 3 4 \<lparr>lease_slot_id = 0, lease_generation = 1, lease_request_id = 7\<rparr>
     (fst (slot_AcquireLease 0 7 0 (SequenceSlotManager_init 0 1))) = (m', True) \<and>
     slot_state (slots m' ! 0) = kIdle"
proof -
  let ?m = "fst (slot_AcquireLease 0 7 0 (SequenceSlotManager_init 0 1))"
  let ?l = "\<lparr>lease_slot_id = 0, lease_generation = 1, lease_request_id = 7\<rparr>"
  have l: "LockAndValidateLease ?l [kPrefilling, kDecoding, kCompleted] ?m \<noteq> None" by code_simp
  have wf: "slots_wf ?m" by (intro invariants)
  have t: "(3 :: int) \<le> 4" by simp
  from slot_ReleaseLease_correct [OF wf t, THEN conjunct1, rule_format, OF l] show ?thesis by auto
qed

text \<open>
  The three slot counts never overlap, and together with the completed slots they
  account for every slot of the vector.
\<close>

theorem slot_counts_partition:
  "GetUsedSlotCount m + GetFreeSlotCount m + GetRetiringSlotCount m +
     count_if (\<lambda>s. slot_state s = kCompleted) (slots m) = length (slots m)"
proof -
  have "count_if is_used ss + count_if is_free ss + count_if (\<lambda>s. slot_state s = kRetiring) ss +
      count_if (\<lambda>s. slot_state s = kCompleted) ss = length ss" for ss :: "SequenceSlot list"
  proof (induction ss)
    case (Cons s ss)
    then show ?case by (cases "slot_state s") (auto simp: is_used_def is_free_def)
  qed simp
  then show ?thesis
    by (simp add: GetUsedSlotCount_def GetFreeSlotCount_def GetRetiringSlotCount_def)
qed

text \<open>
  \<open>ReleaseLease\<close> can report failure although the slot was released: between its two
  critical sections another caller's \<open>AcquireLease\<close> reaps the retired slot (and takes it), so
  the second section finds nothing to reap and \<open>ReleaseLease\<close> returns false.
\<close>

theorem slot_ReleaseLease_race:
  "\<exists>m l m1 m2 l2. RetireLease 1 l (Fence_Immediate 1) m = (m1, True) \<and>
     slot_AcquireLease 2 9 0 m1 = (m2, Some l2) \<and> lease_slot_id l2 = lease_slot_id l \<and>
     snd (ReapRetiredSlotsLocked 3 m2) = 0"
proof -
  let ?m = "fst (slot_AcquireLease 0 7 0 (SequenceSlotManager_init 0 1))"
  let ?l = "\<lparr>lease_slot_id = 0, lease_generation = 1, lease_request_id = 7\<rparr>"
  let ?m1 = "fst (RetireLease 1 ?l (Fence_Immediate 1) ?m)"
  let ?m2 = "fst (slot_AcquireLease 2 9 0 ?m1)"
  let ?l2 = "\<lparr>lease_slot_id = 0, lease_generation = 2, lease_request_id = 9\<rparr>"
  have "snd (RetireLease 1 ?l (Fence_Immediate 1) ?m) = True"
    "snd (slot_AcquireLease 2 9 0 ?m1) = Some ?l2" "snd (ReapRetiredSlotsLocked 3 ?m2) = 0"
    by code_simp+
  then show ?thesis
    by (intro exI [of _ ?m] exI [of _ ?l] exI [of _ ?m1] exI [of _ ?m2] exI [of _ ?l2])
       (simp add: prod_eq_iff)
qed


end
