(* ===== verification/Session_Handles.thy ===== *)
theory Session_Handles
  imports Prelude "HOL-Library.AList" "HOL-Library.Multiset"
begin

section \<open>Session handles\<close>

text \<open>
  \<open>scheduler/session_handle_manager.{h,cpp}\<close>. A table from session names to entries that keep
  the KV state of a conversation between requests. A session is leased by at most one
  request at a time; idle sessions expire or are evicted, and their states are handed back
  to the caller for cleanup. The \<open>unordered_map\<close> is an association list with distinct keys;
  its order matters only for the order of the states handed back and between equal access
  times. Every method holds the mutex for its whole body.
\<close>

record SessionHandleState =
  ss_model_id :: string
  ss_sequence_id :: int
  ss_sequence_generation :: u64
  ss_prompt_tokens :: "int list"
  ss_block_table :: "int list"

record session_entry =
  se_state :: SessionHandleState
  se_has_state :: bool
  se_in_use :: bool
  se_last_access :: time_point
  se_expires_at :: time_point

record SessionHandleManager =
  sm_max_sessions :: nat
  sm_ttl :: int
  sm_entries :: "(string \<times> session_entry) list"

datatype lease_status = kAcquired | kBusy

record LeaseResult =
  lr_status :: lease_status
  lr_has_state :: bool
  lr_state :: SessionHandleState
  lr_cleanup_states :: "SessionHandleState list"

definition empty_session_state :: SessionHandleState where
  "empty_session_state =
     \<lparr>ss_model_id = [], ss_sequence_id = -1, ss_sequence_generation = 0, ss_prompt_tokens = [],
      ss_block_table = []\<rparr>"

definition new_entry :: session_entry where
  "new_entry = \<lparr>se_state = empty_session_state, se_has_state = False, se_in_use = False,
     se_last_access = 0, se_expires_at = 0\<rparr>"

definition busy_result :: LeaseResult where
  "busy_result = \<lparr>lr_status = kBusy, lr_has_state = False, lr_state = empty_session_state,
     lr_cleanup_states = []\<rparr>"

definition SessionHandleManager_init :: "nat \<Rightarrow> int \<Rightarrow> SessionHandleManager" where
  "SessionHandleManager_init n ttl =
     \<lparr>sm_max_sessions = (if n = 0 then 1 else n), sm_ttl = (if ttl \<le> 0 then 1 else ttl), sm_entries = []\<rparr>"

fun eviction_scan ::
  "(string \<times> session_entry) list \<Rightarrow> (string \<times> session_entry) option \<Rightarrow> (string \<times> session_entry) option" where
  "eviction_scan [] best = best"
| "eviction_scan ((k, e) # es) best =
     (if se_in_use e then eviction_scan es best
      else case best of
          None \<Rightarrow> eviction_scan es (Some (k, e))
        | Some (kb, eb) \<Rightarrow>
            if se_last_access e < se_last_access eb then eviction_scan es (Some (k, e))
            else eviction_scan es best)"

definition FindEvictionCandidateLocked :: "SessionHandleManager \<Rightarrow> (string \<times> session_entry) option" where
  "FindEvictionCandidateLocked m = eviction_scan (sm_entries m) None"

definition entry_states :: "session_entry \<Rightarrow> SessionHandleState list" where
  "entry_states e = (if se_has_state e then [se_state e] else [])"

definition leased_entry :: "time_point \<Rightarrow> int \<Rightarrow> session_entry \<Rightarrow> session_entry" where
  "leased_entry now ttl e = e\<lparr>se_in_use := True, se_last_access := now, se_expires_at := now + ttl\<rparr>"

definition session_AcquireLease ::
  "time_point \<Rightarrow> string \<Rightarrow> SessionHandleManager \<Rightarrow> SessionHandleManager \<times> LeaseResult" where
  "session_AcquireLease now sid m =
     (if sid = [] then (m, busy_result)
      else case map_of (sm_entries m) sid of
          None \<Rightarrow>
            (let insert_new = (\<lambda>es. m\<lparr>sm_entries := AList.update sid (leased_entry now (sm_ttl m) new_entry) es\<rparr>)
             in if length (sm_entries m) \<ge> sm_max_sessions m then
                  (case FindEvictionCandidateLocked m of
                     None \<Rightarrow> (m, busy_result)
                   | Some (k, e) \<Rightarrow>
                       (insert_new (AList.delete k (sm_entries m)),
                        busy_result\<lparr>lr_cleanup_states := entry_states e, lr_status := kAcquired\<rparr>))
                else (insert_new (sm_entries m), busy_result\<lparr>lr_status := kAcquired\<rparr>))
        | Some e \<Rightarrow>
            if se_in_use e then (m, busy_result)
            else
              let expired = (se_has_state e \<and> now \<ge> se_expires_at e);
                  e1 = (if expired then e\<lparr>se_has_state := False, se_state := empty_session_state\<rparr> else e);
                  e2 = leased_entry now (sm_ttl m) e1
              in (m\<lparr>sm_entries := AList.update sid e2 (sm_entries m)\<rparr>,
                  \<lparr>lr_status = kAcquired, lr_has_state = se_has_state e2,
                   lr_state = (if se_has_state e2 then se_state e2 else empty_session_state),
                   lr_cleanup_states = (if expired then [se_state e] else [])\<rparr>))"

definition CommitLease :: "time_point \<Rightarrow> string \<Rightarrow> SessionHandleState \<Rightarrow> SessionHandleManager \<Rightarrow> SessionHandleManager" where
  "CommitLease now sid st m =
     (if sid = [] then m
      else
        let e = (case map_of (sm_entries m) sid of Some e \<Rightarrow> e | None \<Rightarrow> new_entry)
        in m\<lparr>sm_entries := AList.update sid
               (e\<lparr>se_state := st, se_has_state := True, se_in_use := False, se_last_access := now,
                  se_expires_at := now + sm_ttl m\<rparr>) (sm_entries m)\<rparr>)"

definition session_ReleaseLease :: "time_point \<Rightarrow> string \<Rightarrow> SessionHandleManager \<Rightarrow> SessionHandleManager" where
  "session_ReleaseLease now sid m =
     (if sid = [] then m
      else case map_of (sm_entries m) sid of
          None \<Rightarrow> m
        | Some e \<Rightarrow>
            let e1 = e\<lparr>se_in_use := False, se_last_access := now\<rparr>
            in if se_has_state e1
               then m\<lparr>sm_entries := AList.update sid (e1\<lparr>se_expires_at := now + sm_ttl m\<rparr>) (sm_entries m)\<rparr>
               else m\<lparr>sm_entries := AList.delete sid (sm_entries m)\<rparr>)"

definition DiscardLeasedState :: "string \<Rightarrow> SessionHandleManager \<Rightarrow> SessionHandleManager" where
  "DiscardLeasedState sid m =
     (if sid = [] then m
      else case map_of (sm_entries m) sid of
          None \<Rightarrow> m
        | Some e \<Rightarrow>
            m\<lparr>sm_entries := AList.update sid (e\<lparr>se_state := empty_session_state, se_has_state := False\<rparr>)
                (sm_entries m)\<rparr>)"

definition survives :: "time_point \<Rightarrow> session_entry \<Rightarrow> bool" where
  "survives now e \<longleftrightarrow> se_in_use e \<or> now < se_expires_at e"

definition CollectExpired :: "time_point \<Rightarrow> SessionHandleManager \<Rightarrow> SessionHandleManager \<times> SessionHandleState list" where
  "CollectExpired now m =
     (m\<lparr>sm_entries := filter (\<lambda>(k, e). survives now e) (sm_entries m)\<rparr>,
      concat (map (\<lambda>(k, e). entry_states e) (filter (\<lambda>(k, e). \<not> survives now e) (sm_entries m))))"

definition DrainAll :: "SessionHandleManager \<Rightarrow> SessionHandleManager \<times> SessionHandleState list" where
  "DrainAll m = (m\<lparr>sm_entries := []\<rparr>, concat (map (\<lambda>(k, e). entry_states e) (sm_entries m)))"

definition SessionCount :: "SessionHandleManager \<Rightarrow> nat" where
  "SessionCount m = length (sm_entries m)"

subsection \<open>Eviction candidates\<close>

lemma eviction_scan_Some:
  assumes "eviction_scan es best = Some (k, e)" "\<forall>kb eb. best = Some (kb, eb) \<longrightarrow> \<not> se_in_use eb"
  shows "\<not> se_in_use e \<and> (best = Some (k, e) \<or> (k, e) \<in> set es)"
  using assms
  by (induction es best rule: eviction_scan.induct) (fastforce split: if_splits option.splits)+

lemma eviction_scan_oldest:
  assumes "eviction_scan es best = Some (k, e)"
  shows "(\<forall>(k', e') \<in> set es. \<not> se_in_use e' \<longrightarrow> se_last_access e \<le> se_last_access e') \<and>
         (\<forall>kb eb. best = Some (kb, eb) \<longrightarrow> se_last_access e \<le> se_last_access eb)"
  using assms
proof (induction es best rule: eviction_scan.induct)
  case (2 k' e' es best)
  then show ?case by (cases best) (fastforce split: if_splits)+
qed auto

lemma FindEvictionCandidate_Some:
  assumes "FindEvictionCandidateLocked m = Some (k, e)"
  shows "(k, e) \<in> set (sm_entries m) \<and> \<not> se_in_use e"
  using eviction_scan_Some [of "sm_entries m" None k e] assms
  by (simp add: FindEvictionCandidateLocked_def)

subsection \<open>Steps of the table\<close>

datatype session_op =
    SAcquire time_point string
  | SCommit time_point string SessionHandleState
  | SRelease time_point string
  | SDiscard string
  | SCollect time_point
  | SDrain

text \<open>One call, with the states it hands back for cleanup.\<close>

fun session_step :: "session_op \<Rightarrow> SessionHandleManager \<Rightarrow> SessionHandleManager \<times> SessionHandleState list" where
  "session_step (SAcquire now sid) m = (let (m', r) = session_AcquireLease now sid m in (m', lr_cleanup_states r))"
| "session_step (SCommit now sid st) m = (CommitLease now sid st m, [])"
| "session_step (SRelease now sid) m = (session_ReleaseLease now sid m, [])"
| "session_step (SDiscard sid) m = (DiscardLeasedState sid m, [])"
| "session_step (SCollect now) m = CollectExpired now m"
| "session_step SDrain m = DrainAll m"

fun session_run :: "session_op list \<Rightarrow> SessionHandleManager \<Rightarrow> SessionHandleManager \<times> SessionHandleState list" where
  "session_run [] m = (m, [])"
| "session_run (op # ops) m =
     (let (m1, out1) = session_step op m; (m2, out2) = session_run ops m1 in (m2, out1 @ out2))"

text \<open>
  The states a call puts into the table, and the states it takes out of it without handing
  them back: a commit replaces the state the lease holder was given, and a discard drops it.
\<close>

fun session_given :: "session_op \<Rightarrow> SessionHandleState list" where
  "session_given (SCommit now sid st) = (if sid = [] then [] else [st])"
| "session_given _ = []"

definition held_state :: "string \<Rightarrow> SessionHandleManager \<Rightarrow> SessionHandleState list" where
  "held_state sid m =
     (if sid = [] then [] else case map_of (sm_entries m) sid of None \<Rightarrow> [] | Some e \<Rightarrow> entry_states e)"

fun session_taken :: "session_op \<Rightarrow> SessionHandleManager \<Rightarrow> SessionHandleState list" where
  "session_taken (SCommit now sid st) m = held_state sid m"
| "session_taken (SDiscard sid) m = held_state sid m"
| "session_taken _ m = []"

fun session_taken_run :: "session_op list \<Rightarrow> SessionHandleManager \<Rightarrow> SessionHandleState list" where
  "session_taken_run [] m = []"
| "session_taken_run (op # ops) m = session_taken op m @ session_taken_run ops (fst (session_step op m))"

definition states_of :: "(string \<times> session_entry) list \<Rightarrow> SessionHandleState multiset" where
  "states_of es = mset (concat (map (\<lambda>(k, e). entry_states e) es))"

definition session_ok :: "SessionHandleManager \<Rightarrow> bool" where
  "session_ok m \<longleftrightarrow> distinct (map fst (sm_entries m)) \<and> 0 < sm_max_sessions m \<and> 0 < sm_ttl m"

subsection \<open>The table as a ledger of states\<close>

lemma states_of_simps [simp]:
  "states_of [] = {#}" "states_of ((k, e) # es) = mset (entry_states e) + states_of es"
  by (simp_all add: states_of_def)

lemma states_of_update:
  "distinct (map fst es) \<Longrightarrow>
   states_of (AList.update k e es) + (case map_of es k of None \<Rightarrow> {#} | Some e0 \<Rightarrow> mset (entry_states e0))
   = states_of es + mset (entry_states e)"
  by (induction es) (auto simp: ac_simps)

lemma states_of_update_Some:
  "distinct (map fst es) \<Longrightarrow> map_of es k = Some e0 \<Longrightarrow>
   states_of (AList.update k e es) + mset (entry_states e0) = states_of es + mset (entry_states e)"
  using states_of_update [of es k e] by simp

lemma states_of_update_None:
  "distinct (map fst es) \<Longrightarrow> map_of es k = None \<Longrightarrow>
   states_of (AList.update k e es) = states_of es + mset (entry_states e)"
  using states_of_update [of es k e] by simp

lemma states_of_delete:
  "distinct (map fst es) \<Longrightarrow> map_of es k = Some e0 \<Longrightarrow>
   states_of (AList.delete k es) + mset (entry_states e0) = states_of es"
  by (induction es) (auto simp: ac_simps delete_idem split: if_splits)

lemma states_of_filter:
  "states_of (filter P es) + mset (concat (map (\<lambda>(k, e). entry_states e) (filter (\<lambda>x. \<not> P x) es))) = states_of es"
  by (induction es) (auto simp: states_of_def ac_simps)

lemma states_of_leased [simp]: "entry_states (leased_entry now ttl e) = entry_states e"
  by (simp add: entry_states_def leased_entry_def)

lemma entry_states_new [simp]: "entry_states new_entry = []"
  by (simp add: entry_states_def new_entry_def)

lemma busy_result_simps [simp]:
  "lr_status busy_result = kBusy" "lr_cleanup_states busy_result = []" "lr_has_state busy_result = False"
  by (simp_all add: busy_result_def)

lemma FindEvictionCandidate_map_of:
  assumes "session_ok m" "FindEvictionCandidateLocked m = Some (k, e)"
  shows "map_of (sm_entries m) k = Some e \<and> \<not> se_in_use e"
  using FindEvictionCandidate_Some [OF assms(2)] assms(1) by (simp add: session_ok_def map_of_is_SomeI)

lemma session_step_ok [invariants]: "session_ok m \<Longrightarrow> session_ok (fst (session_step op m))"
  by (cases op)
     (auto simp: session_ok_def session_AcquireLease_def CommitLease_def session_ReleaseLease_def
        DiscardLeasedState_def CollectExpired_def DrainAll_def Let_def distinct_map_filter
        intro: distinct_update distinct_delete split: option.splits)

lemma mset_swap:
  fixes A B C D E :: "'a multiset"
  assumes "A + B = C + D" "B = D + E"
  shows "A + E = C"
proof -
  have "(A + E) + D = C + D" using assms by (simp add: ac_simps)
  then show ?thesis by simp
qed

lemma mset_chain:
  fixes S1 :: "'a multiset"
  assumes "S2 + O2 + T2 = S1 + G2" "S1 + O1 + T1 = S + G1"
  shows "S2 + (O1 + O2) + (T1 + T2) = S + (G1 + G2)"
proof -
  have "S2 + (O1 + O2) + (T1 + T2) = (S2 + O2 + T2) + (O1 + T1)" by (simp add: ac_simps)
  also have "\<dots> = (S1 + O1 + T1) + G2" by (simp only: assms(1)) (simp add: ac_simps)
  also have "\<dots> = S + (G1 + G2)" by (simp only: assms(2)) (simp add: ac_simps)
  finally show ?thesis .
qed

lemma AcquireLease_states:
  assumes "session_ok m" "session_AcquireLease now sid m = (m', r)"
  shows "states_of (sm_entries m') + mset (lr_cleanup_states r) = states_of (sm_entries m)"
proof (cases "map_of (sm_entries m) sid")
  case (Some e)
  let ?expired = "se_has_state e \<and> now \<ge> se_expires_at e"
  let ?e1 = "if ?expired then e\<lparr>se_has_state := False, se_state := empty_session_state\<rparr> else e"
  have "states_of (AList.update sid (leased_entry now (sm_ttl m) ?e1) (sm_entries m)) + mset (entry_states e)
        = states_of (sm_entries m) + mset (entry_states ?e1)"
    using states_of_update_Some [OF _ Some] assms(1) by (simp add: session_ok_def)
  moreover have "mset (entry_states e) = mset (entry_states ?e1) + mset (if ?expired then [se_state e] else [])"
    by (simp add: entry_states_def)
  ultimately have "states_of (AList.update sid (leased_entry now (sm_ttl m) ?e1) (sm_entries m))
        + mset (if ?expired then [se_state e] else []) = states_of (sm_entries m)"
    by (rule mset_swap)
  then show ?thesis
    using assms(2) Some by (auto simp: session_AcquireLease_def Let_def split: if_splits)
next
  case None
  have dist: "distinct (map fst (sm_entries m))" using assms(1) by (simp add: session_ok_def)
  have upd: "states_of (AList.update sid (leased_entry now (sm_ttl m) new_entry) es) = states_of es"
    if "distinct (map fst es)" "map_of es sid = None" for es
    using states_of_update_None [OF that] by simp
  show ?thesis
  proof (cases "sm_max_sessions m \<le> length (sm_entries m)")
    case False
    then show ?thesis using assms(2) None dist upd [OF dist None]
      by (auto simp: session_AcquireLease_def Let_def split: if_splits)
  next
    case True
    show ?thesis
    proof (cases "FindEvictionCandidateLocked m")
      case None': None
      then show ?thesis using assms(2) None True
        by (auto simp: session_AcquireLease_def Let_def split: if_splits)
    next
      case (Some c)
      obtain k e where c: "FindEvictionCandidateLocked m = Some (k, e)" using Some by (cases c) auto
      have "map_of (AList.delete k (sm_entries m)) sid = None"
        using None by (simp add: delete_conv')
      then have "states_of (AList.update sid (leased_entry now (sm_ttl m) new_entry) (AList.delete k (sm_entries m)))
                 + mset (entry_states e) = states_of (sm_entries m)"
        using upd [OF distinct_delete [OF dist]] states_of_delete [OF dist, of k e]
          FindEvictionCandidate_Some [OF c] dist by (simp add: map_of_is_SomeI)
      then show ?thesis using assms(2) None True c
        by (auto simp: session_AcquireLease_def Let_def split: if_splits)
    qed
  qed
qed

lemma session_step_states:
  assumes "session_ok m" "session_step op m = (m', out)"
  shows "states_of (sm_entries m') + mset out + mset (session_taken op m)
         = states_of (sm_entries m) + mset (session_given op)"
proof -
  have dist: "distinct (map fst (sm_entries m))" using assms(1) by (simp add: session_ok_def)
  note upd = states_of_update_Some [OF dist] states_of_update_None [OF dist] states_of_delete [OF dist]
  show ?thesis
  proof (cases op)
    case (SAcquire now sid)
    then show ?thesis
      using assms AcquireLease_states [OF assms(1), of now sid] by (auto simp: Let_def split: prod.splits)
  next
    case (SCommit now sid st)
    let ?e' = "\<lambda>e. e\<lparr>se_state := st, se_has_state := True, se_in_use := False, se_last_access := now,
                se_expires_at := now + sm_ttl m\<rparr>"
    show ?thesis
    proof (cases "map_of (sm_entries m) sid")
      case None
      then show ?thesis using SCommit assms(2) upd(2) [OF None, of "?e' new_entry"]
        by (auto simp: CommitLease_def held_state_def entry_states_def)
    next
      case (Some e)
      then show ?thesis using SCommit assms(2) upd(1) [OF Some, of "?e' e"]
        by (auto simp: CommitLease_def held_state_def entry_states_def)
    qed
  next
    case (SRelease now sid)
    show ?thesis
    proof (cases "map_of (sm_entries m) sid")
      case (Some e)
      then show ?thesis
        using SRelease assms(2) upd(3) [OF Some]
          upd(1) [OF Some, of "e\<lparr>se_in_use := False, se_last_access := now, se_expires_at := now + sm_ttl m\<rparr>"]
        by (auto simp: session_ReleaseLease_def Let_def entry_states_def split: if_splits)
    qed (use SRelease assms(2) in \<open>auto simp: session_ReleaseLease_def\<close>)
  next
    case (SDiscard sid)
    show ?thesis
    proof (cases "map_of (sm_entries m) sid")
      case (Some e)
      then show ?thesis
        using SDiscard assms(2) upd(1) [OF Some, of "e\<lparr>se_state := empty_session_state, se_has_state := False\<rparr>"]
        by (auto simp: DiscardLeasedState_def held_state_def entry_states_def)
    qed (use SDiscard assms(2) in \<open>auto simp: DiscardLeasedState_def held_state_def\<close>)
  next
    case (SCollect now)
    then show ?thesis
      using assms states_of_filter [of "\<lambda>x. survives now (snd x)" "sm_entries m"]
      by (auto simp: CollectExpired_def case_prod_unfold)
  next
    case SDrain
    then show ?thesis using assms by (auto simp: DrainAll_def states_of_def)
  qed
qed

text \<open>
  C8: No KV state is lost or duplicated by the session table. Starting from an empty table,
  after any sequence of calls the states still stored, the states handed back for cleanup
  (by eviction, expiry or draining) and the states a lease holder replaced or discarded are
  together exactly the states that were committed, each as often as it was committed.
\<close>
theorem session_states_conserved:
  assumes "session_run ops (SessionHandleManager_init n ttl) = (m', out)"
  shows "states_of (sm_entries m') + mset out + mset (session_taken_run ops (SessionHandleManager_init n ttl))
         = mset (concat (map session_given ops))"
proof -
  have "session_ok m \<Longrightarrow> session_run ops m = (m', out) \<Longrightarrow>
        states_of (sm_entries m') + mset out + mset (session_taken_run ops m)
         = states_of (sm_entries m) + mset (concat (map session_given ops))" for m
  proof (induction ops arbitrary: m m' out)
    case (Cons op ops)
    obtain m1 out1 where s: "session_step op m = (m1, out1)" by fastforce
    obtain m2 out2 where r: "session_run ops m1 = (m2, out2)" by fastforce
    have "states_of (sm_entries m2) + mset out2 + mset (session_taken_run ops m1)
          = states_of (sm_entries m1) + mset (concat (map session_given ops))"
      using Cons.IH [OF _ r] session_step_ok [OF Cons.prems(1), of op] s by simp
    moreover have "states_of (sm_entries m1) + mset out1 + mset (session_taken op m)
          = states_of (sm_entries m) + mset (session_given op)"
      using session_step_states [OF Cons.prems(1) s] .
    ultimately have "states_of (sm_entries m2) + (mset out1 + mset out2)
          + (mset (session_taken op m) + mset (session_taken_run ops m1))
          = states_of (sm_entries m) + (mset (session_given op) + mset (concat (map session_given ops)))"
      by (rule mset_chain)
    then show ?case using Cons.prems(2) s r by auto
  qed simp
  then show ?thesis using assms by (simp add: session_ok_def SessionHandleManager_init_def)
qed

definition session_example_state :: "int \<Rightarrow> SessionHandleState" where
  "session_example_state i = empty_session_state\<lparr>ss_sequence_id := i\<rparr>"

definition session_example_ops :: "session_op list" where
  "session_example_ops =
     [SAcquire 0 ''a'', SCommit 1 ''a'' (session_example_state 1),
      SAcquire 2 ''b'', SCommit 3 ''b'' (session_example_state 2),
      SAcquire 4 ''b'', SCommit 5 ''b'' (session_example_state 3), SCollect 2000]"

text \<open>A table of one session: the second session evicts the first, replaces its own state, then expires.\<close>

theorem session_states_conserved_witness:
  "snd (session_run session_example_ops (SessionHandleManager_init 1 1000)) = map session_example_state [1, 3] \<and>
   session_taken_run session_example_ops (SessionHandleManager_init 1 1000) = [session_example_state 2] \<and>
   mset (map session_example_state [1, 3]) + {#session_example_state 2#} =
     mset (concat (map session_given session_example_ops))"
proof -
  let ?r = "session_run session_example_ops (SessionHandleManager_init 1 1000)"
  have out: "snd ?r = map session_example_state [1, 3]" "sm_entries (fst ?r) = []"
    "session_taken_run session_example_ops (SessionHandleManager_init 1 1000) = [session_example_state 2]"
    by code_simp+
  show ?thesis
    using session_states_conserved [of session_example_ops 1 1000 "fst ?r" "snd ?r"] out by simp
qed

subsection \<open>Exclusive leases\<close>

text \<open>The session's entry is leased, with the given state.\<close>

definition leased_with :: "string \<Rightarrow> SessionHandleState list \<Rightarrow> SessionHandleManager \<Rightarrow> bool" where
  "leased_with sid sts m \<longleftrightarrow>
     (case map_of (sm_entries m) sid of None \<Rightarrow> False | Some e \<Rightarrow> se_in_use e \<and> entry_states e = sts)"

text \<open>The calls that do not end the lease of \<open>sid\<close> nor drop its state.\<close>

fun keeps_lease :: "string \<Rightarrow> session_op \<Rightarrow> bool" where
  "keeps_lease sid (SCommit now s st) = (s \<noteq> sid)"
| "keeps_lease sid (SRelease now s) = (s \<noteq> sid)"
| "keeps_lease sid (SDiscard s) = (s \<noteq> sid)"
| "keeps_lease sid SDrain = False"
| "keeps_lease sid _ = True"

lemma map_of_filter_keep:
  "distinct (map fst es) \<Longrightarrow> map_of es k = Some e \<Longrightarrow> P (k, e) \<Longrightarrow> map_of (filter P es) k = Some e"
  by (simp add: distinct_map_filter)

lemma AcquireLease_other:
  assumes "session_ok m" "leased_with sid sts m"
  shows "leased_with sid sts (fst (session_AcquireLease now s m))"
proof -
  obtain e where e: "map_of (sm_entries m) sid = Some e" "se_in_use e" "entry_states e = sts"
    using assms(2) by (auto simp: leased_with_def split: option.splits)
  have evict: "k \<noteq> sid" if "FindEvictionCandidateLocked m = Some (k, ek)" for k ek
    using FindEvictionCandidate_map_of [OF assms(1) that] e by auto
  show ?thesis
  proof (cases "s = sid")
    case True
    then show ?thesis using assms(2) e by (auto simp: session_AcquireLease_def)
  next
    case False
    then show ?thesis
      using e evict
      by (auto simp: session_AcquireLease_def leased_with_def Let_def update_conv' delete_conv' split: option.split)
  qed
qed

lemma session_step_keeps_lease:
  assumes "session_ok m" "leased_with sid sts m" "keeps_lease sid op"
  shows "leased_with sid sts (fst (session_step op m))"
proof (cases op)
  case (SAcquire now s)
  then show ?thesis using AcquireLease_other [OF assms(1,2), of now s] by (simp add: case_prod_beta Let_def)
next
  case (SCollect now)
  then show ?thesis
    using assms by (auto simp: leased_with_def CollectExpired_def session_ok_def survives_def
        map_of_filter_keep split: option.splits)
qed (use assms in \<open>auto simp: leased_with_def CommitLease_def session_ReleaseLease_def DiscardLeasedState_def
       Let_def update_conv' delete_conv' split: option.split\<close>)

lemma session_run_keeps_lease:
  assumes "session_ok m" "leased_with sid sts m" "list_all (keeps_lease sid) ops"
  shows "leased_with sid sts (fst (session_run ops m))"
  using assms
  by (induction ops arbitrary: m)
     (auto simp: case_prod_beta Let_def session_step_ok session_step_keeps_lease)

text \<open>
  C25: A session is leased by one request at a time. Once a request has acquired a session,
  every further acquisition of it fails with busy and leaves the table unchanged, whatever
  calls other sessions make, however much time passes and however full the table is, until
  the session is committed, released or drained; and the state the holder was given stays in
  the entry: neither eviction nor expiry takes it.
\<close>
theorem session_lease_exclusive:
  assumes "session_ok m" "session_AcquireLease now sid m = (m1, r)" "lr_status r = kAcquired"
    "list_all (keeps_lease sid) ops" "m2 = fst (session_run ops m1)"
  shows "session_AcquireLease later sid m2 = (m2, busy_result) \<and>
         held_state sid m2 = (if lr_has_state r then [lr_state r] else [])"
proof -
  have sid: "sid \<noteq> []" using assms(2,3) by (auto simp: session_AcquireLease_def)
  have "leased_with sid (if lr_has_state r then [lr_state r] else []) m1"
    using assms(2,3) sid
    by (auto simp: session_AcquireLease_def leased_with_def leased_entry_def new_entry_def entry_states_def
          busy_result_def Let_def update_conv' split: option.splits if_splits)
  moreover have "session_ok m1" using session_step_ok [OF assms(1), of "SAcquire now sid"] assms(2) by simp
  ultimately have "leased_with sid (if lr_has_state r then [lr_state r] else []) m2"
    using session_run_keeps_lease assms(4,5) by blast
  then show ?thesis using sid by (auto simp: leased_with_def session_AcquireLease_def held_state_def split: option.splits)
qed

theorem session_lease_exclusive_witness:
  "let m = SessionHandleManager_init 2 10; (m1, r) = session_AcquireLease 0 ''a'' m;
       ops = [SAcquire 5 ''b'', SRelease 6 ''b'', SCollect 500, SAcquire 501 ''c'', SAcquire 502 ''d'']
   in lr_status r = kAcquired \<and>
      session_AcquireLease 600 ''a'' (fst (session_run ops m1)) = (fst (session_run ops m1), busy_result)"
proof -
  let ?m = "SessionHandleManager_init 2 10"
  let ?a = "session_AcquireLease 0 ''a'' ?m"
  let ?ops = "[SAcquire 5 ''b'', SRelease 6 ''b'', SCollect 500, SAcquire 501 ''c'', SAcquire 502 ''d'']"
  have acq: "lr_status (snd ?a) = kAcquired" by code_simp
  have "session_ok ?m" by (simp add: session_ok_def SessionHandleManager_init_def)
  then show ?thesis
    using session_lease_exclusive [of ?m 0 "''a''" "fst ?a" "snd ?a" ?ops "fst (session_run ?ops (fst ?a))" 600] acq
    unfolding Let_def case_prod_beta by simp
qed

subsection \<open>The bound on the number of sessions\<close>

lemma length_delete: "map_of es k \<noteq> None \<Longrightarrow> length (AList.delete k es) < length es"
  by (induction es) (auto simp: less_Suc_eq_le length_delete_le split: if_splits)

lemma length_update_new: "map_of es k = None \<Longrightarrow> length (AList.update k e es) = Suc (length es)"
  by (induction es) (auto split: if_splits)

lemma length_update_old: "map_of es k = Some e0 \<Longrightarrow> length (AList.update k e es) = length es"
  by (induction es) (auto split: if_splits)

lemma AcquireLease_bound:
  assumes "session_ok m" "SessionCount m \<le> sm_max_sessions m"
  shows "SessionCount (fst (session_AcquireLease now sid m)) \<le> sm_max_sessions m"
proof (cases "map_of (sm_entries m) sid")
  case (Some e)
  then show ?thesis using assms
    by (auto simp: session_AcquireLease_def SessionCount_def Let_def length_update_old)
next
  case None
  have "length (AList.delete k (sm_entries m)) < length (sm_entries m)"
    if "FindEvictionCandidateLocked m = Some (k, e)" for k e
    using FindEvictionCandidate_map_of [OF assms(1) that] by (intro length_delete) simp
  then show ?thesis using assms None
    by (fastforce simp: session_AcquireLease_def SessionCount_def Let_def length_update_new delete_conv'
          split: option.split)
qed

text \<open>
  A commit of a session that is not in the table inserts it, without looking at the bound:
  a lease released twice, or drained before its commit, leaves one session too many.
\<close>

theorem CommitLease_exceeds_bound:
  "let m = fst (session_run [SAcquire 0 ''a'', SRelease 1 ''a'', SAcquire 2 ''b'', SCommit 3 ''a'' empty_session_state]
                  (SessionHandleManager_init 1 1000))
   in sm_max_sessions m = 1 \<and> SessionCount m = 2"
  by code_simp

end
