(* ===== verification/Prefix_Cache.thy ===== *)
theory Prefix_Cache
  imports Prelude "HOL-Library.AList"
begin

section \<open>The exact-match prefix cache\<close>

text \<open>
  \<open>runtime/prefix_cache/prefix_cache.{h,cpp}\<close>: completions of whole prompts, looked up by the
  serialised token sequence, with a list of keys in order of use. The theory shows that the
  table and the list together implement a bounded least-recently-used map from token
  sequences to completions. The \<open>unordered_map\<close> is an association list; \<open>std::list::splice\<close>
  of an element to the front moves that key to the front.
\<close>

record PrefixCacheEntry =
  pe_completion :: string
  pe_completion_tokens :: int
  pe_last_used :: time_point
  pe_hits :: nat

record PrefixCache =
  pc_capacity :: nat
  pc_table :: "(string \<times> PrefixCacheEntry) list"
  pc_lru :: "string list"

definition PrefixCache_init :: "nat \<Rightarrow> PrefixCache" where
  "PrefixCache_init capacity = \<lparr>pc_capacity = capacity, pc_table = [], pc_lru = []\<rparr>"

definition Serialize :: "int list \<Rightarrow> string" where
  "Serialize toks = concat (map (\<lambda>token. int_to_string token @ '','') toks)"

definition splice_front :: "string \<Rightarrow> string list \<Rightarrow> string list" where
  "splice_front key lru = key # remove1 key lru"

definition prefix_Lookup :: "time_point \<Rightarrow> int list \<Rightarrow> PrefixCache \<Rightarrow> PrefixCache \<times> (string \<times> int) option" where
  "prefix_Lookup now toks pc =
     (if pc_capacity pc = 0 then (pc, None)
      else
        let key = Serialize toks in
        case map_of (pc_table pc) key of
          None \<Rightarrow> (pc, None)
        | Some e \<Rightarrow>
            let e1 = e\<lparr>pe_hits := pe_hits e + 1, pe_last_used := now\<rparr> in
            (pc\<lparr>pc_table := AList.update key e1 (pc_table pc), pc_lru := splice_front key (pc_lru pc)\<rparr>,
             Some (pe_completion e1, pe_completion_tokens e1)))"

definition prefix_Insert :: "time_point \<Rightarrow> int list \<Rightarrow> string \<Rightarrow> int \<Rightarrow> PrefixCache \<Rightarrow> PrefixCache" where
  "prefix_Insert now toks completion completion_tokens pc =
     (if pc_capacity pc = 0 then pc
      else
        let key = Serialize toks in
        case map_of (pc_table pc) key of
          Some e \<Rightarrow>
            pc\<lparr>pc_table := AList.update key
                 (e\<lparr>pe_completion := completion, pe_completion_tokens := completion_tokens, pe_last_used := now\<rparr>)
                 (pc_table pc),
               pc_lru := splice_front key (pc_lru pc)\<rparr>
        | None \<Rightarrow>
            let pc1 = (if length (pc_table pc) \<ge> pc_capacity pc \<and> pc_lru pc \<noteq> []
                       then pc\<lparr>pc_table := AList.delete (last (pc_lru pc)) (pc_table pc), pc_lru := butlast (pc_lru pc)\<rparr>
                       else pc)
            in pc1\<lparr>pc_lru := key # pc_lru pc1,
                   pc_table := AList.update key
                     \<lparr>pe_completion = completion, pe_completion_tokens = completion_tokens, pe_last_used = now, pe_hits = 0\<rparr>
                     (pc_table pc1)\<rparr>)"

subsection \<open>Keys\<close>

lemma Serialize_simps [simp]:
  "Serialize [] = []" "Serialize (t # ts) = int_to_string t @ CHR '','' # Serialize ts"
  by (simp_all add: Serialize_def)

lemma split_at_comma:
  assumes "xs @ CHR '','' # us = ys @ CHR '','' # vs" "CHR '','' \<notin> set xs" "CHR '','' \<notin> set ys"
  shows "xs = ys \<and> us = vs"
  using assms
proof (induction xs arbitrary: ys)
  case Nil
  then show ?case by (cases ys) auto
next
  case (Cons x xs)
  then show ?case by (cases ys) auto
qed

lemma Serialize_eq_iff [simp]: "Serialize xs = Serialize ys \<longleftrightarrow> xs = ys"
proof (induction xs arbitrary: ys)
  case Nil
  then show ?case by (cases ys) auto
next
  case (Cons x xs)
  show ?case
  proof (cases ys)
    case (Cons y ys')
    then show ?thesis
      using split_at_comma [OF _ int_to_string_no_comma int_to_string_no_comma, of x "Serialize xs" y "Serialize ys'"]
        Cons.IH [of ys'] int_to_string_inj [of x y] by auto
  qed simp
qed

subsection \<open>The abstract cache: a list of prompts and completions, the most recent first\<close>

type_synonym lru_map = "(int list \<times> string \<times> int) list"

definition lru_lookup :: "int list \<Rightarrow> lru_map \<Rightarrow> lru_map \<times> (string \<times> int) option" where
  "lru_lookup toks xs =
     (case map_of xs toks of
        None \<Rightarrow> (xs, None)
      | Some v \<Rightarrow> ((toks, v) # AList.delete toks xs, Some v))"

definition lru_insert :: "nat \<Rightarrow> int list \<Rightarrow> string \<times> int \<Rightarrow> lru_map \<Rightarrow> lru_map" where
  "lru_insert cap toks v xs = take cap ((toks, v) # AList.delete toks xs)"

definition entry_value :: "PrefixCacheEntry \<Rightarrow> string \<times> int" where
  "entry_value e = (pe_completion e, pe_completion_tokens e)"

text \<open>The cache implements the abstract list.\<close>

definition implements :: "PrefixCache \<Rightarrow> lru_map \<Rightarrow> bool" where
  "implements pc xs \<longleftrightarrow>
     pc_lru pc = map (Serialize \<circ> fst) xs \<and> distinct (map fst xs) \<and> length xs \<le> pc_capacity pc \<and>
     distinct (map fst (pc_table pc)) \<and> length (pc_table pc) = length xs \<and>
     (\<forall>toks. map_of xs toks = map_option entry_value (map_of (pc_table pc) (Serialize toks)))"

datatype prefix_op = PLookup time_point "int list" | PInsert time_point "int list" string int

fun prefix_run :: "prefix_op list \<Rightarrow> PrefixCache \<Rightarrow> PrefixCache \<times> (string \<times> int) option list" where
  "prefix_run [] pc = (pc, [])"
| "prefix_run (PLookup now toks # ops) pc =
     (let (pc1, r) = prefix_Lookup now toks pc; (pc2, rs) = prefix_run ops pc1 in (pc2, r # rs))"
| "prefix_run (PInsert now toks c n # ops) pc = prefix_run ops (prefix_Insert now toks c n pc)"

fun lru_run :: "nat \<Rightarrow> prefix_op list \<Rightarrow> lru_map \<Rightarrow> lru_map \<times> (string \<times> int) option list" where
  "lru_run cap [] xs = (xs, [])"
| "lru_run cap (PLookup now toks # ops) xs =
     (let (xs1, r) = lru_lookup toks xs; (xs2, rs) = lru_run cap ops xs1 in (xs2, r # rs))"
| "lru_run cap (PInsert now toks c n # ops) xs = lru_run cap ops (lru_insert cap toks (c, n) xs)"

subsection \<open>Refinement\<close>

lemma map_delete_Serialize:
  "map (Serialize \<circ> fst) (AList.delete toks xs) = filter (\<lambda>k. k \<noteq> Serialize toks) (map (Serialize \<circ> fst) xs)"
  by (induction xs) auto

lemma remove1_filter: "distinct xs \<Longrightarrow> remove1 x xs = filter (\<lambda>y. y \<noteq> x) xs"
  by (induction xs) (auto intro!: filter_True [symmetric])

lemma length_delete_present:
  "distinct (map fst es) \<Longrightarrow> map_of es k = Some e \<Longrightarrow> Suc (length (AList.delete k es)) = length es"
  by (induction es) (auto simp: delete_idem split: if_splits)

lemma length_update_present: "map_of es k = Some e0 \<Longrightarrow> length (AList.update k e es) = length es"
  by (induction es) (auto split: if_splits)

lemma length_update_absent: "map_of es k = None \<Longrightarrow> length (AList.update k e es) = Suc (length es)"
  by (induction es) (auto split: if_splits)

lemma lru_distinct: "implements pc xs \<Longrightarrow> distinct (pc_lru pc)"
  by (auto simp: implements_def distinct_map comp_inj_on inj_on_def)

lemma implements_capacity: "implements pc xs \<Longrightarrow> map_of (pc_table pc) k = Some e \<Longrightarrow> pc_capacity pc \<noteq> 0"
  by (cases "pc_table pc") (auto simp: implements_def)

lemma touch_implements:
  assumes "implements pc xs" "map_of (pc_table pc) (Serialize toks) = Some e"
  shows "implements (pc\<lparr>pc_table := AList.update (Serialize toks) e1 (pc_table pc),
                        pc_lru := splice_front (Serialize toks) (pc_lru pc)\<rparr>)
           ((toks, entry_value e1) # AList.delete toks xs)"
proof -
  have present: "map_of xs toks = Some (entry_value e)" using assms by (simp add: implements_def)
  have len: "Suc (length (AList.delete toks xs)) = length xs"
    using length_delete_present [OF _ present] assms(1) by (simp add: implements_def)
  have "splice_front (Serialize toks) (pc_lru pc) = map (Serialize \<circ> fst) ((toks, entry_value e1) # AList.delete toks xs)"
    using lru_distinct [OF assms(1)] assms(1)
    by (simp add: splice_front_def remove1_filter map_delete_Serialize implements_def)
  then show ?thesis
    using assms len
    by (auto simp: implements_def length_update_present distinct_update distinct_delete update_conv'
          delete_conv' delete_keys distinct_removeAll)
qed

lemma Lookup_implements:
  assumes "implements pc xs"
  shows "implements (fst (prefix_Lookup now toks pc)) (fst (lru_lookup toks xs)) \<and>
         snd (prefix_Lookup now toks pc) = snd (lru_lookup toks xs)"
proof (cases "map_of (pc_table pc) (Serialize toks)")
  case None
  then show ?thesis using assms by (auto simp: prefix_Lookup_def lru_lookup_def implements_def)
next
  case (Some e)
  let ?e1 = "e\<lparr>pe_hits := pe_hits e + 1, pe_last_used := now\<rparr>"
  have "map_of xs toks = Some (entry_value ?e1)" using assms Some by (simp add: implements_def entry_value_def)
  moreover have "pc_capacity pc \<noteq> 0" by (rule implements_capacity [OF assms Some])
  ultimately show ?thesis
    using touch_implements [OF assms Some, of ?e1] Some
    by (simp add: prefix_Lookup_def lru_lookup_def entry_value_def Let_def)
qed

lemma evict_implements:
  assumes "implements pc xs" "xs \<noteq> []"
  shows "implements (pc\<lparr>pc_table := AList.delete (last (pc_lru pc)) (pc_table pc), pc_lru := butlast (pc_lru pc)\<rparr>)
           (butlast xs)"
proof -
  obtain ys t v where xs: "xs = ys @ [(t, v)]" using assms(2) by (metis prod.exhaust rev_exhaust)
  have notin: "map_of ys t = None"
    using assms(1) xs by (auto simp: implements_def map_of_eq_None_iff)
  have dom: "map_of xs toks = map_option entry_value (map_of (pc_table pc) (Serialize toks))" for toks
    using assms(1) by (simp add: implements_def)
  have present: "map_of (pc_table pc) (Serialize t) \<noteq> None"
    using dom [of t] xs notin by (cases "map_of (pc_table pc) (Serialize t)") (auto simp: map_add_def)
  have "Suc (length (AList.delete (Serialize t) (pc_table pc))) = length (pc_table pc)"
    using present length_delete_present [of "pc_table pc" "Serialize t"] assms(1) unfolding implements_def by blast
  moreover have "map_of ys toks = map_option entry_value (map_of (AList.delete (Serialize t) (pc_table pc)) (Serialize toks))" for toks
    using dom [of toks] xs notin by (auto simp: delete_conv' map_add_def split: if_splits option.splits)
  ultimately show ?thesis
    using assms(1) xs by (auto simp: implements_def distinct_delete)
qed

lemma add_implements:
  assumes "implements pc xs" "length xs < pc_capacity pc" "map_of xs toks = None"
  shows "implements (pc\<lparr>pc_lru := Serialize toks # pc_lru pc,
                        pc_table := AList.update (Serialize toks) e (pc_table pc)\<rparr>)
           ((toks, entry_value e) # xs)"
proof -
  have "toks \<notin> fst ` set xs" using assms(3) by (simp add: map_of_eq_None_iff)
  moreover have "map_of (pc_table pc) (Serialize toks) = None"
    using assms(1,3) unfolding implements_def by (metis option.map_disc_iff)
  ultimately show ?thesis
    using assms(1,2) by (auto simp: implements_def length_update_absent distinct_update update_conv')
qed

lemma Insert_implements:
  assumes "implements pc xs"
  shows "implements (prefix_Insert now toks c n pc) (lru_insert (pc_capacity pc) toks (c, n) xs)"
proof (cases "map_of (pc_table pc) (Serialize toks)")
  case (Some e)
  have cap: "pc_capacity pc \<noteq> 0" by (rule implements_capacity [OF assms Some])
  have "map_of xs toks = Some (entry_value e)" using assms Some by (simp add: implements_def)
  then have "length ((toks, (c, n)) # AList.delete toks xs) \<le> pc_capacity pc"
    using length_delete_present [of xs toks] assms by (auto simp: implements_def)
  then show ?thesis
    using touch_implements [OF assms Some,
        of "e\<lparr>pe_completion := c, pe_completion_tokens := n, pe_last_used := now\<rparr>"] Some cap
    by (simp add: prefix_Insert_def lru_insert_def entry_value_def Let_def)
next
  case None
  have absent: "map_of xs toks = None" using assms None by (simp add: implements_def)
  then have del: "AList.delete toks xs = xs" by (simp add: delete_idem map_of_eq_None_iff)
  let ?e = "\<lparr>pe_completion = c, pe_completion_tokens = n, pe_last_used = now, pe_hits = 0\<rparr>"
  let ?full = "length (pc_table pc) \<ge> pc_capacity pc \<and> pc_lru pc \<noteq> []"
  show ?thesis
  proof (cases "pc_capacity pc = 0")
    case True
    then show ?thesis using assms by (auto simp: prefix_Insert_def lru_insert_def implements_def)
  next
    case cap: False
    have len: "length (pc_table pc) = length xs" "length (pc_lru pc) = length xs" "length xs \<le> pc_capacity pc"
      using assms by (auto simp: implements_def)
    show ?thesis
    proof (cases ?full)
      case True
      then have ne: "xs \<noteq> []" and full: "length xs = pc_capacity pc" using len by auto
      have "map_of (butlast xs) toks = None"
        using absent by (auto simp: map_of_eq_None_iff dest: in_set_butlastD)
      then show ?thesis
        using add_implements [OF evict_implements [OF assms ne], of toks ?e] True None full ne cap
        by (auto simp: prefix_Insert_def lru_insert_def Let_def del entry_value_def take_Cons' butlast_conv_take)
    next
      case False
      then have "length xs < pc_capacity pc" using len cap by auto
      then show ?thesis
        using add_implements [OF assms _ absent, of ?e] False None cap
        by (auto simp: prefix_Insert_def lru_insert_def Let_def del entry_value_def)
    qed
  qed
qed

lemma prefix_capacity [simp]:
  "pc_capacity (prefix_Insert now toks c n pc) = pc_capacity pc"
  "pc_capacity (fst (prefix_Lookup now toks pc)) = pc_capacity pc"
  by (auto simp: prefix_Insert_def prefix_Lookup_def Let_def split: option.splits)

text \<open>
  C21: The prefix cache is a least-recently-used map from token sequences to completions.
  Every lookup in any sequence of insertions and lookups returns what the abstract cache
  returns: the completion last inserted for exactly these tokens, as long as fewer than
  \<open>capacity\<close> other prompts have been used since; two different prompts never share an
  entry; and the table never holds more than \<open>capacity\<close> entries.
\<close>
theorem prefix_cache_is_lru:
  "snd (prefix_run ops (PrefixCache_init cap)) = snd (lru_run cap ops []) \<and>
   length (pc_table (fst (prefix_run ops (PrefixCache_init cap)))) \<le> cap"
proof -
  have sim: "implements pc xs \<Longrightarrow> implements (fst (prefix_run ops pc)) (fst (lru_run (pc_capacity pc) ops xs)) \<and>
        snd (prefix_run ops pc) = snd (lru_run (pc_capacity pc) ops xs) \<and>
        pc_capacity (fst (prefix_run ops pc)) = pc_capacity pc" for pc xs
  proof (induction ops pc arbitrary: xs rule: prefix_run.induct)
    case (2 now toks ops pc)
    obtain pc1 r where l: "prefix_Lookup now toks pc = (pc1, r)" by fastforce
    have "implements pc1 (fst (lru_lookup toks xs))" "r = snd (lru_lookup toks xs)" "pc_capacity pc1 = pc_capacity pc"
      using Lookup_implements [OF 2(2), of now toks] prefix_capacity(2) [of now toks pc] l by auto
    then show ?case
      using 2(1) [OF l [symmetric] refl, of "fst (lru_lookup toks xs)"] l by (auto simp: Let_def case_prod_beta)
  next
    case (3 now toks c n ops pc)
    show ?case using 3(1) [OF Insert_implements [OF 3(2)]] by simp
  qed simp
  have "implements (PrefixCache_init cap) []" by (simp add: implements_def PrefixCache_init_def)
  from sim [OF this] have sim': "implements (fst (prefix_run ops (PrefixCache_init cap))) (fst (lru_run cap ops []))"
      "snd (prefix_run ops (PrefixCache_init cap)) = snd (lru_run cap ops [])"
      "pc_capacity (fst (prefix_run ops (PrefixCache_init cap))) = cap"
    by (simp_all add: PrefixCache_init_def)
  then show ?thesis by (simp add: implements_def)
qed

end
