(* ===== verification/Utf8_Assembler.thy ===== *)
theory Utf8_Assembler
  imports Prelude
begin

section \<open>Incremental UTF-8 assembly\<close>

text \<open>
  \<open>runtime/text/incremental_utf8.{h,cpp}\<close>: tokenizer pieces are byte strings that may end
  inside a character. The assembler emits complete characters, replaces malformed input by
  U+FFFD and keeps an incomplete character at the end until more bytes arrive. The theory
  gives the encoding of Unicode scalar values independently of the assembler and shows
  that the emitted text is always a sequence of encoded scalar values, that valid text
  passes unchanged, and that the way the bytes are cut into pieces does not matter.
\<close>

definition kReplacementCharacter :: "byte list" where
  "kReplacementCharacter = [0xEF, 0xBF, 0xBD]"

definition IsContinuation :: "byte \<Rightarrow> bool" where
  "IsContinuation b \<longleftrightarrow> b \<ge> 0x80 \<and> b \<le> 0xBF"

definition SequenceLength :: "byte \<Rightarrow> nat" where
  "SequenceLength lead =
     (if lead \<le> 0x7F then 1
      else if lead \<ge> 0xC2 \<and> lead \<le> 0xDF then 2
      else if lead \<ge> 0xE0 \<and> lead \<le> 0xEF then 3
      else if lead \<ge> 0xF0 \<and> lead \<le> 0xF4 then 4
      else 0)"

definition IsValidSecondByte :: "byte \<Rightarrow> byte \<Rightarrow> bool" where
  "IsValidSecondByte lead second =
     (if \<not> IsContinuation second then False
      else if lead = 0xE0 then second \<ge> 0xA0
      else if lead = 0xED then second \<le> 0x9F
      else if lead = 0xF0 then second \<ge> 0x90
      else if lead = 0xF4 then second \<le> 0x8F
      else True)"

record Utf8AssemblyResult =
  out_text :: "byte list"
  replacements :: nat

text \<open>The check of the bytes that are already there, of the sequence that starts with the first of them.\<close>

definition valid_available_prefix :: "nat \<Rightarrow> byte list \<Rightarrow> bool" where
  "valid_available_prefix available_tail p \<longleftrightarrow>
     (available_tail < 2 \<or> IsValidSecondByte (p ! 0) (p ! 1)) \<and>
     list_all IsContinuation (take (available_tail - 2) (drop 2 p))"

text \<open>
  The loop of \<open>Consume\<close>; the second component of the result is what stays in \<open>pending_\<close>.
\<close>

definition emit :: "byte list \<Rightarrow> nat \<Rightarrow> Utf8AssemblyResult \<times> byte list \<Rightarrow> Utf8AssemblyResult \<times> byte list" where
  "emit bs n = (\<lambda>(r, p). (r\<lparr>out_text := bs @ out_text r, replacements := n + replacements r\<rparr>, p))"

function Consume :: "bool \<Rightarrow> byte list \<Rightarrow> Utf8AssemblyResult \<times> byte list" where
  "Consume finish [] = (\<lparr>out_text = [], replacements = 0\<rparr>, [])"
| "Consume finish (lead # rest) =
     (let length' = SequenceLength lead in
      if length' = 1 then emit [lead] 0 (Consume finish rest)
      else if length' = 0 then emit kReplacementCharacter 1 (Consume finish rest)
      else
        let available = length (lead # rest);
            available_tail = min available length'
        in if \<not> valid_available_prefix available_tail (lead # rest)
           then emit kReplacementCharacter 1 (Consume finish rest)
           else if available < length'
           then (if \<not> finish then (\<lparr>out_text = [], replacements = 0\<rparr>, lead # rest)
                 else (\<lparr>out_text = kReplacementCharacter, replacements = 1\<rparr>, []))
           else emit (take length' (lead # rest)) 0 (Consume finish (drop (length' - 1) rest)))"
  by pat_completeness auto
termination by (relation "measure (\<lambda>(_, p). length p)") auto

definition utf8_Append :: "byte list \<Rightarrow> byte list \<Rightarrow> Utf8AssemblyResult \<times> byte list" where
  "utf8_Append pending bytes = Consume False (pending @ bytes)"

definition utf8_Finish :: "byte list \<Rightarrow> Utf8AssemblyResult \<times> byte list" where
  "utf8_Finish pending = Consume True pending"

definition HasPendingBytes :: "byte list \<Rightarrow> bool" where
  "HasPendingBytes pending \<longleftrightarrow> pending \<noteq> []"

text \<open>A stream of pieces, then the end of the stream: all emitted text, all replacements, and what is left.\<close>

fun assemble :: "byte list \<Rightarrow> byte list list \<Rightarrow> Utf8AssemblyResult \<times> byte list" where
  "assemble pending [] = utf8_Finish pending"
| "assemble pending (piece # pieces) =
     (let (r, pending') = utf8_Append pending piece
      in emit (out_text r) (replacements r) (assemble pending' pieces))"

subsection \<open>Independence of the cutting into pieces\<close>

lemma emit_simps [simp]:
  "out_text (fst (emit bs n x)) = bs @ out_text (fst x)"
  "replacements (fst (emit bs n x)) = n + replacements (fst x)"
  "snd (emit bs n x) = snd x"
  by (auto simp: emit_def case_prod_beta)

lemma emit_emit [simp]: "emit as m (emit bs n x) = emit (as @ bs) (m + n) x"
  by (cases x) (simp add: emit_def)

lemma emit_0 [simp]: "emit [] 0 x = x"
  by (cases x) (simp add: emit_def)

lemma emit_pair: "emit bs n (\<lparr>out_text = t, replacements = k\<rparr>, p) = (\<lparr>out_text = bs @ t, replacements = n + k\<rparr>, p)"
  by (simp add: emit_def)

lemma SequenceLength_le: "SequenceLength lead \<le> 4"
  by (simp add: SequenceLength_def)

text \<open>More bytes cannot make an invalid start of a sequence valid, nor change a complete one.\<close>

lemma valid_available_prefix_append:
  assumes "n \<le> length p" "n \<le> m" "valid_available_prefix m (p @ ys)"
  shows "valid_available_prefix n p"
proof -
  have "take (n - 2) (drop 2 p) = take (n - 2) (drop 2 (p @ ys))" using assms(1) by simp
  moreover have "set (take (n - 2) (drop 2 (p @ ys))) \<subseteq> set (take (m - 2) (drop 2 (p @ ys)))"
    using assms(2) by (intro set_take_subset_set_take) simp
  ultimately have "list_all IsContinuation (take (n - 2) (drop 2 p))"
    using assms(3) by (auto simp: valid_available_prefix_def list_all_iff)
  moreover have "n < 2 \<or> IsValidSecondByte (p ! 0) (p ! 1)"
  proof (cases "n < 2")
    case False
    then have "p \<noteq> []" "Suc 0 < length p" "\<not> m < 2" using assms(1,2) by auto
    then show ?thesis using assms(3) by (simp add: valid_available_prefix_def nth_append)
  qed simp
  ultimately show ?thesis by (simp add: valid_available_prefix_def)
qed

lemma valid_available_prefix_same:
  assumes "n \<le> length p"
  shows "valid_available_prefix n (p @ ys) = valid_available_prefix n p"
proof (cases "n < 2")
  case False
  then have "p \<noteq> []" "Suc 0 < length p" using assms by auto
  then show ?thesis using assms by (simp add: valid_available_prefix_def nth_append)
qed (simp add: valid_available_prefix_def)

lemma Consume_append:
  "Consume finish (xs @ ys) =
     (let (r, p) = Consume False xs in emit (out_text r) (replacements r) (Consume finish (p @ ys)))"
proof (induction "False" xs rule: Consume.induct)
  case 1
  show ?case by (simp add: emit_0)
next
  case (2 lead rest)
  let ?l = "SequenceLength lead"
  let ?p = "lead # rest"
  consider (one) "?l = 1" | (bad) "?l = 0"
    | (invalid) "?l \<noteq> 1" "?l \<noteq> 0" "\<not> valid_available_prefix (min (length ?p) ?l) ?p"
    | (short) "?l \<noteq> 1" "?l \<noteq> 0" "valid_available_prefix (min (length ?p) ?l) ?p" "length ?p < ?l"
    | (full) "?l \<noteq> 1" "?l \<noteq> 0" "valid_available_prefix (min (length ?p) ?l) ?p" "\<not> length ?p < ?l"
    by blast
  then show ?case
  proof cases
    case one
    then show ?thesis using 2(1) by (simp add: Let_def case_prod_beta)
  next
    case bad
    then show ?thesis using 2(2) by (simp add: Let_def case_prod_beta)
  next
    case invalid
    have "\<not> valid_available_prefix (min (length (?p @ ys)) ?l) (?p @ ys)"
      using invalid(3) valid_available_prefix_append [of "min (length ?p) ?l" ?p "min (length (?p @ ys)) ?l" ys]
      by (auto simp: min_def split: if_splits)
    then show ?thesis using invalid 2(3) by (simp add: Let_def case_prod_beta)
  next
    case short
    then show ?thesis by (simp add: Let_def)
  next
    case full
    then have "min (length (?p @ ys)) ?l = ?l" "min (length ?p) ?l = ?l" "?l \<le> length ?p" by auto
    then have "valid_available_prefix (min (length (?p @ ys)) ?l) (?p @ ys)"
      using valid_available_prefix_same [of ?l ?p ys] full(3) by simp
    moreover have "drop (?l - 1) (rest @ ys) = drop (?l - 1) rest @ ys" "take ?l (?p @ ys) = take ?l ?p"
      using full by (auto simp: take_Cons')
    ultimately show ?thesis using full 2(4) by (simp add: Let_def case_prod_beta)
  qed
qed

lemma assemble_eq_Consume: "assemble pending pieces = Consume True (pending @ concat pieces)"
proof (induction pieces arbitrary: pending)
  case (Cons piece pieces)
  then show ?case
    using Consume_append [of True "pending @ piece" "concat pieces"]
    by (simp add: utf8_Append_def case_prod_beta Let_def)
qed (simp add: utf8_Finish_def)

lemma Consume_True_empty: "snd (Consume True xs) = []"
  by (induction "True" xs rule: Consume.induct) (auto simp: Let_def)

lemma Consume_pending_short: "length (snd (Consume False xs)) < 4"
proof (induction "False" xs rule: Consume.induct)
  case (2 lead rest)
  then show ?case using SequenceLength_le [of lead] by (auto simp: Let_def)
qed simp

subsection \<open>The encoding of Unicode scalar values\<close>

definition is_scalar :: "nat \<Rightarrow> bool" where
  "is_scalar cp \<longleftrightarrow> cp < 0xD800 \<or> (0xE000 \<le> cp \<and> cp \<le> 0x10FFFF)"

definition utf8_encode :: "nat \<Rightarrow> byte list" where
  "utf8_encode cp =
     (if cp < 0x80 then [of_nat cp]
      else if cp < 0x800 then [of_nat (0xC0 + cp div 64), of_nat (0x80 + cp mod 64)]
      else if cp < 0x10000
      then [of_nat (0xE0 + cp div 4096), of_nat (0x80 + cp div 64 mod 64), of_nat (0x80 + cp mod 64)]
      else [of_nat (0xF0 + cp div 262144), of_nat (0x80 + cp div 4096 mod 64),
            of_nat (0x80 + cp div 64 mod 64), of_nat (0x80 + cp mod 64)])"

definition valid_utf8 :: "byte list \<Rightarrow> bool" where
  "valid_utf8 bs \<longleftrightarrow> (\<exists>cps. list_all is_scalar cps \<and> bs = concat (map utf8_encode cps))"

lemma IsContinuation_unat: "IsContinuation b \<longleftrightarrow> 128 \<le> unat b \<and> unat b < 192"
  by (auto simp: IsContinuation_def word_le_nat_alt)

lemma SequenceLength_unat:
  "SequenceLength b =
     (if unat b < 128 then 1 else if 194 \<le> unat b \<and> unat b < 224 then 2
      else if 224 \<le> unat b \<and> unat b < 240 then 3 else if 240 \<le> unat b \<and> unat b < 245 then 4 else 0)"
  by (auto simp: SequenceLength_def word_le_nat_alt)

lemma IsValidSecondByte_unat:
  "IsValidSecondByte l b \<longleftrightarrow> 128 \<le> unat b \<and> unat b < 192 \<and>
     (unat l = 224 \<longrightarrow> 160 \<le> unat b) \<and> (unat l = 237 \<longrightarrow> unat b < 160) \<and>
     (unat l = 240 \<longrightarrow> 144 \<le> unat b) \<and> (unat l = 244 \<longrightarrow> unat b < 144)"
  by (auto simp: IsValidSecondByte_def IsContinuation_unat word_le_nat_alt word_unat_eq_iff)

lemmas utf8_unat = IsContinuation_unat SequenceLength_unat IsValidSecondByte_unat

lemma byte_of_nat: "n < 256 \<Longrightarrow> unat (of_nat n :: byte) = n"
  by (simp add: unat_of_nat)

lemma byte_eq_of_nat: "(b :: byte) = of_nat n" if "unat b = n"
  using that by auto

text \<open>Every complete sequence the assembler accepts is the encoding of a scalar value.\<close>

lemma base64:
  fixes x y z w :: nat
  shows "y < 64 \<Longrightarrow> (x * 64 + y) div 64 = x \<and> (x * 64 + y) mod 64 = y"
    and "y < 64 \<Longrightarrow> z < 64 \<Longrightarrow> ((x * 64 + y) * 64 + z) div 4096 = x"
    and "y < 64 \<Longrightarrow> z < 64 \<Longrightarrow> w < 64 \<Longrightarrow> (((x * 64 + y) * 64 + z) * 64 + w) div 262144 = x"
proof -
  have d: "y < 64 \<Longrightarrow> (x * 64 + y) div 64 = x" for x y :: nat by simp
  have 4096: "n div 4096 = n div 64 div 64" "n div 262144 = n div 64 div 64 div 64" for n :: nat
    by (simp_all add: div_mult2_eq [symmetric])
  show "y < 64 \<Longrightarrow> (x * 64 + y) div 64 = x \<and> (x * 64 + y) mod 64 = y" by simp
  show "y < 64 \<Longrightarrow> z < 64 \<Longrightarrow> ((x * 64 + y) * 64 + z) div 4096 = x" by (simp only: 4096 d)
  show "y < 64 \<Longrightarrow> z < 64 \<Longrightarrow> w < 64 \<Longrightarrow> (((x * 64 + y) * 64 + z) * 64 + w) div 262144 = x"
    by (simp only: 4096 d)
qed

lemma accepted_2:
  assumes "194 \<le> unat b0" "unat b0 < 224" "IsValidSecondByte b0 b1"
  shows "\<exists>cp. is_scalar cp \<and> [b0, b1] = utf8_encode cp"
proof -
  obtain x y where e: "unat b0 = 192 + x" "unat b1 = 128 + y"
    using assms by (auto simp: utf8_unat le_iff_add)
  have y: "y < 64" "unat b1 = 128 + y" and x: "2 \<le> x" "x < 32" "unat b0 = 192 + x"
    using assms e by (auto simp: utf8_unat)
  have b: "b0 = of_nat (192 + x)" "b1 = of_nat (128 + y)"
    using e by (auto simp only: byte_eq_of_nat)
  let ?cp = "x * 64 + y"
  have "?cp div 64 = x" "?cp mod 64 = y" "128 \<le> ?cp" "?cp < 2048" using x y by auto
  then have "[b0, b1] = utf8_encode ?cp" "is_scalar ?cp"
    using x y b by (auto simp: utf8_encode_def is_scalar_def)
  then show ?thesis by blast
qed

lemma accepted_3:
  assumes "224 \<le> unat b0" "unat b0 < 240" "IsValidSecondByte b0 b1" "IsContinuation b2"
  shows "\<exists>cp. is_scalar cp \<and> [b0, b1, b2] = utf8_encode cp"
proof -
  obtain x y z where e: "unat b0 = 224 + x" "unat b1 = 128 + y" "unat b2 = 128 + z"
    using assms by (auto simp: utf8_unat le_iff_add)
  have z: "z < 64" "unat b2 = 128 + z" and y: "y < 64" "unat b1 = 128 + y"
    and x: "x < 16" "unat b0 = 224 + x" and lim: "x = 0 \<Longrightarrow> 32 \<le> y" "x = 13 \<Longrightarrow> y < 32"
    using assms e by (auto simp: utf8_unat)
  have b: "b0 = of_nat (224 + x)" "b1 = of_nat (128 + y)" "b2 = of_nat (128 + z)"
    using e by (auto simp only: byte_eq_of_nat)
  let ?cp = "(x * 64 + y) * 64 + z"
  have "?cp div 4096 = x" "?cp div 64 mod 64 = y" "?cp mod 64 = z" "?cp < 65536"
    using x(1) y(1) z(1) base64(1) [of z "x * 64 + y"] base64(1) [of y x] base64(2) [of y z x] by auto
  moreover have "2048 \<le> ?cp" using lim(1) by (cases "x = 0") auto
  moreover have "is_scalar ?cp"
    using lim(2) x(1) y(1) z(1) unfolding is_scalar_def by (cases "x = 13"; cases "x \<le> 12") auto
  ultimately have "[b0, b1, b2] = utf8_encode ?cp"
    using b x(2) y(2) z(2) by (auto simp: utf8_encode_def)
  with \<open>is_scalar ?cp\<close> show ?thesis by blast
qed

lemma accepted_4:
  assumes "240 \<le> unat b0" "unat b0 < 245" "IsValidSecondByte b0 b1" "IsContinuation b2" "IsContinuation b3"
  shows "\<exists>cp. is_scalar cp \<and> [b0, b1, b2, b3] = utf8_encode cp"
proof -
  obtain x y z w where e: "unat b0 = 240 + x" "unat b1 = 128 + y" "unat b2 = 128 + z" "unat b3 = 128 + w"
    using assms by (auto simp: utf8_unat le_iff_add)
  have w: "w < 64" "unat b3 = 128 + w" and z: "z < 64" "unat b2 = 128 + z" and y: "y < 64" "unat b1 = 128 + y"
    and x: "x < 5" "unat b0 = 240 + x" and lim: "x = 0 \<Longrightarrow> 16 \<le> y" "x = 4 \<Longrightarrow> y < 16"
    using assms e by (auto simp: utf8_unat)
  have b: "b0 = of_nat (240 + x)" "b1 = of_nat (128 + y)" "b2 = of_nat (128 + z)" "b3 = of_nat (128 + w)"
    using e by (auto simp only: byte_eq_of_nat)
  let ?cp = "((x * 64 + y) * 64 + z) * 64 + w"
  have "?cp div 262144 = x" "?cp div 4096 mod 64 = y" "?cp div 64 mod 64 = z" "?cp mod 64 = w"
    using y(1) z(1) w(1) base64(1) [of w "(x * 64 + y) * 64 + z"] base64(1) [of z "x * 64 + y"] base64(1) [of y x]
      base64(2) [of z w "x * 64 + y"] base64(3) [of y z w x] by auto
  moreover have "65536 \<le> ?cp" using lim(1) by (cases "x = 0") auto
  moreover have "?cp \<le> 1114111" using lim(2) x(1) y(1) z(1) w(1) by (cases "x = 4") auto
  ultimately have "[b0, b1, b2, b3] = utf8_encode ?cp" "is_scalar ?cp"
    using b x(2) y(2) z(2) w(2) by (auto simp: utf8_encode_def is_scalar_def)
  then show ?thesis by blast
qed

lemma SequenceLength_cases:
  assumes "SequenceLength lead \<noteq> 0"
  obtains "SequenceLength lead = 1" "unat lead < 128"
    | "SequenceLength lead = 2" "194 \<le> unat lead" "unat lead < 224"
    | "SequenceLength lead = 3" "224 \<le> unat lead" "unat lead < 240"
    | "SequenceLength lead = 4" "240 \<le> unat lead" "unat lead < 245"
  using assms by (auto simp: SequenceLength_unat split: if_splits)

lemma accepted_is_encoding:
  assumes "SequenceLength lead \<noteq> 0" "SequenceLength lead \<le> length (lead # rest)"
    "valid_available_prefix (SequenceLength lead) (lead # rest)"
  shows "\<exists>cp. is_scalar cp \<and> take (SequenceLength lead) (lead # rest) = utf8_encode cp"
  using assms(1)
proof (cases rule: SequenceLength_cases)
  case 1
  then show ?thesis
    by (intro exI [of _ "unat lead"]) (auto simp: utf8_encode_def is_scalar_def)
next
  case 2
  then obtain b1 r where "rest = b1 # r" using assms(2) by (cases rest) auto
  then show ?thesis using 2 assms(3) accepted_2 by (auto simp: valid_available_prefix_def numeral_eq_Suc)
next
  case 3
  then obtain b1 b2 r where "rest = b1 # b2 # r"
    using assms(2) by (auto simp: numeral_eq_Suc Suc_le_length_iff)
  then show ?thesis using 3 assms(3) accepted_3 by (auto simp: valid_available_prefix_def numeral_eq_Suc)
next
  case 4
  then obtain b1 b2 b3 r where "rest = b1 # b2 # b3 # r"
    using assms(2) by (auto simp: numeral_eq_Suc Suc_le_length_iff)
  then show ?thesis using 4 assms(3) accepted_4 by (auto simp: valid_available_prefix_def numeral_eq_Suc)
qed

lemma digit_limits:
  fixes cp x y z w :: nat
  shows "cp = (x * 64 + y) * 64 + z \<Longrightarrow> z < 64 \<Longrightarrow> 2048 \<le> cp \<Longrightarrow> x = 0 \<longrightarrow> 32 \<le> y"
    and "cp = (x * 64 + y) * 64 + z \<Longrightarrow> y < 64 \<Longrightarrow> z < 64 \<Longrightarrow> cp < 55296 \<or> 57344 \<le> cp \<Longrightarrow> x = 13 \<longrightarrow> y < 32"
    and "cp = ((x * 64 + y) * 64 + z) * 64 + w \<Longrightarrow> z < 64 \<Longrightarrow> w < 64 \<Longrightarrow> 65536 \<le> cp \<Longrightarrow> x = 0 \<longrightarrow> 16 \<le> y"
    and "cp = ((x * 64 + y) * 64 + z) * 64 + w \<Longrightarrow> cp \<le> 1114111 \<Longrightarrow> x = 4 \<longrightarrow> y < 16"
  by auto

lemma encoding_is_accepted:
  assumes "is_scalar cp"
  shows "\<exists>lead rest. utf8_encode cp = lead # rest \<and> SequenceLength lead = length (lead # rest) \<and>
           valid_available_prefix (length (lead # rest)) (lead # rest)"
proof -
  have small: "cp \<le> 1114111" "\<not> (55296 \<le> cp \<and> cp < 57344)" using assms by (auto simp: is_scalar_def)
  consider "cp < 128" | "128 \<le> cp" "cp < 2048" | "2048 \<le> cp" "cp < 65536" | "65536 \<le> cp" by linarith
  then show ?thesis
  proof cases
    case 1
    then show ?thesis by (simp add: utf8_encode_def valid_available_prefix_def SequenceLength_unat byte_of_nat)
  next
    case 2
    then have "cp div 64 < 32" "2 \<le> cp div 64" "cp mod 64 < 64" by auto
    then show ?thesis using 2
      by (simp add: utf8_encode_def valid_available_prefix_def utf8_unat byte_of_nat del: of_nat_add)
  next
    case 3
    have "cp = (cp div 4096 * 64 + cp div 64 mod 64) * 64 + cp mod 64"
      using div_mult_mod_eq [of "cp div 64" 64] div_mult_mod_eq [of cp 64] by (simp add: div_mult2_eq [symmetric])
    note lim = digit_limits(1) [OF this] digit_limits(2) [OF this]
    have "cp div 4096 < 16" "cp div 64 mod 64 < 64" "cp mod 64 < 64"
      "cp div 4096 = 0 \<longrightarrow> 32 \<le> cp div 64 mod 64" "cp div 4096 = 13 \<longrightarrow> cp div 64 mod 64 < 32"
      using 3 lim small(2) by (auto simp: not_le not_less)
    then show ?thesis using 3
      by (simp add: utf8_encode_def valid_available_prefix_def utf8_unat byte_of_nat del: of_nat_add)
  next
    case 4
    have "cp = ((cp div 262144 * 64 + cp div 4096 mod 64) * 64 + cp div 64 mod 64) * 64 + cp mod 64"
      using div_mult_mod_eq [of "cp div 4096" 64] div_mult_mod_eq [of "cp div 64" 64] div_mult_mod_eq [of cp 64]
      by (simp add: div_mult2_eq [symmetric])
    note lim = digit_limits(3) [OF this] digit_limits(4) [OF this]
    have "cp div 262144 < 5" "cp div 4096 mod 64 < 64" "cp div 64 mod 64 < 64" "cp mod 64 < 64"
      "cp div 262144 = 0 \<longrightarrow> 16 \<le> cp div 4096 mod 64" "cp div 262144 = 4 \<longrightarrow> cp div 4096 mod 64 < 16"
      using 4 small(1) lim by auto
    then show ?thesis using 4
      by (simp add: utf8_encode_def valid_available_prefix_def utf8_unat byte_of_nat del: of_nat_add)
  qed
qed

subsection \<open>The emitted text\<close>

lemma valid_utf8_Nil [simp]: "valid_utf8 []"
  by (auto simp: valid_utf8_def intro: exI [of _ "[]"])

lemma valid_utf8_append: "is_scalar cp \<Longrightarrow> valid_utf8 bs \<Longrightarrow> valid_utf8 (utf8_encode cp @ bs)"
  unfolding valid_utf8_def by (metis concat.simps(2) list.pred_inject(2) list.simps(9))

lemma replacement_encoding: "kReplacementCharacter = utf8_encode 0xFFFD" "is_scalar 0xFFFD"
  by (simp_all add: kReplacementCharacter_def utf8_encode_def is_scalar_def)

lemma ascii_encoding:
  "SequenceLength lead = 1 \<Longrightarrow> [lead] = utf8_encode (unat lead) \<and> is_scalar (unat lead)"
  by (auto simp: SequenceLength_unat utf8_encode_def is_scalar_def split: if_splits)

lemma Consume_valid: "valid_utf8 (out_text (fst (Consume finish xs)))"
proof (induction finish xs rule: Consume.induct)
  case (2 finish lead rest)
  let ?l = "SequenceLength lead"
  have repl: "valid_utf8 bs \<Longrightarrow> valid_utf8 (kReplacementCharacter @ bs)" for bs
    using valid_utf8_append [OF replacement_encoding(2)] by (simp add: replacement_encoding(1))
  show ?case
  proof (cases "?l \<noteq> 1 \<and> ?l \<noteq> 0 \<and> valid_available_prefix (min (length (lead # rest)) ?l) (lead # rest)")
    case True
    show ?thesis
    proof (cases "length (lead # rest) < ?l")
      case short: True
      then show ?thesis using True repl [of "[]"] by (simp add: Let_def)
    next
      case False
      then have m: "min (length (lead # rest)) ?l = ?l" by simp
      obtain cp where "is_scalar cp" "take ?l (lead # rest) = utf8_encode cp"
        using accepted_is_encoding [of lead rest] True False m by auto
      then show ?thesis using True False 2(4) m valid_utf8_append by (simp add: Let_def)
    qed
  next
    case False
    have ascii: "valid_utf8 ([lead] @ bs)" if "?l = 1" "valid_utf8 bs" for bs
      using ascii_encoding [OF that(1)] valid_utf8_append [of "unat lead" bs] that(2) by simp
    consider (one) "?l = 1" | (bad) "?l = 0"
      | (invalid) "?l \<noteq> 1" "?l \<noteq> 0" "\<not> valid_available_prefix (min (length (lead # rest)) ?l) (lead # rest)"
      using False by blast
    then show ?thesis
    proof cases
      case one
      then show ?thesis using 2(1) ascii by (simp add: Let_def)
    next
      case bad
      then show ?thesis using 2(2) repl by (simp add: Let_def)
    next
      case invalid
      then show ?thesis using 2(3) repl by (simp add: Let_def)
    qed
  qed
qed simp

lemma Consume_encoding:
  assumes "is_scalar cp"
  shows "Consume finish (utf8_encode cp @ bs) = emit (utf8_encode cp) 0 (Consume finish bs)"
proof -
  obtain lead rest where e: "utf8_encode cp = lead # rest" "SequenceLength lead = length (lead # rest)"
    "valid_available_prefix (length (lead # rest)) (lead # rest)"
    using encoding_is_accepted [OF assms] by blast
  then have "valid_available_prefix (length (lead # rest)) ((lead # rest) @ bs)"
    using valid_available_prefix_same [of "length (lead # rest)" "lead # rest" bs] by simp
  then show ?thesis using e by (cases "rest = []") (auto simp: Let_def)
qed

lemma Consume_valid_input:
  "list_all is_scalar cps \<Longrightarrow>
   Consume finish (concat (map utf8_encode cps)) = (\<lparr>out_text = concat (map utf8_encode cps), replacements = 0\<rparr>, [])"
  by (induction cps) (simp_all add: Consume_encoding emit_pair)

lemma Consume_no_replacement:
  "replacements (fst (Consume True xs)) = 0 \<Longrightarrow> out_text (fst (Consume True xs)) = xs"
proof (induction "True" xs rule: Consume.induct)
  case (2 lead rest)
  have "take n (lead # rest) @ drop (n - 1) rest = lead # rest" if "n \<noteq> 0" for n
    using that append_take_drop_id [of n "lead # rest"] by (cases n) auto
  then show ?case using 2 by (auto simp: Let_def split: if_splits)
qed simp

text \<open>
  C6: However the byte stream is cut into pieces, also inside characters, the emitted text
  and the number of replacements are those of assembling the whole stream at once, and
  nothing stays buffered after the end of the stream.
\<close>
theorem utf8_chunking_irrelevant:
  "assemble [] pieces = utf8_Finish (concat pieces) \<and> \<not> HasPendingBytes (snd (assemble [] pieces))"
  by (simp add: assemble_eq_Consume utf8_Finish_def HasPendingBytes_def Consume_True_empty)

text \<open>
  C30: The text each call emits is well-formed UTF-8 on its own, that is, a sequence of encoded
  Unicode scalar values, whatever bytes were buffered or arrive: no surrogate, no overlong
  form, no value beyond U+10FFFF and no split character ever leaves the assembler.
\<close>
theorem utf8_output_valid:
  "valid_utf8 (out_text (fst (utf8_Append pending piece))) \<and> valid_utf8 (out_text (fst (utf8_Finish pending)))"
  by (simp add: utf8_Append_def utf8_Finish_def Consume_valid)

text \<open>
  C31: The assembler replaces nothing exactly when the whole stream is well-formed UTF-8, and
  then it emits the stream unchanged.
\<close>
theorem utf8_valid_input_unchanged:
  "(replacements (fst (assemble [] pieces)) = 0 \<longleftrightarrow> valid_utf8 (concat pieces)) \<and>
   (valid_utf8 (concat pieces) \<longrightarrow> out_text (fst (assemble [] pieces)) = concat pieces)"
proof -
  have "valid_utf8 (concat pieces)" if "replacements (fst (Consume True (concat pieces))) = 0"
    using Consume_no_replacement [OF that] Consume_valid [of True "concat pieces"] by simp
  moreover have "fst (Consume True (concat pieces)) = \<lparr>out_text = concat pieces, replacements = 0\<rparr>"
    if "valid_utf8 (concat pieces)"
    using that Consume_valid_input by (auto simp: valid_utf8_def)
  ultimately show ?thesis by (auto simp: assemble_eq_Consume)
qed

text \<open>The euro sign and a letter, cut inside the euro sign.\<close>

theorem utf8_valid_input_unchanged_witness:
  "valid_utf8 [0xE2, 0x82, 0xAC, 0x41] \<and> out_text (fst (assemble [] [[0xE2], [0x82], [0xAC, 0x41]])) = [0xE2, 0x82, 0xAC, 0x41]"
proof -
  have "valid_utf8 [0xE2, 0x82, 0xAC, 0x41]"
    unfolding valid_utf8_def by (intro exI [of _ "[0x20AC, 0x41]"]) (simp add: is_scalar_def utf8_encode_def)
  then show ?thesis using utf8_valid_input_unchanged [of "[[0xE2], [0x82], [0xAC, 0x41]]"] by simp
qed

text \<open>
  At most three bytes stay buffered between calls, so a stream of pieces of any size is
  assembled in constant extra memory.
\<close>
theorem utf8_pending_bounded: "length (snd (utf8_Append pending piece)) \<le> 3"
  using Consume_pending_short [of "pending @ piece"] by (simp add: utf8_Append_def)

end
