(* ===== verification/Marker_Scan.thy ===== *)
theory Marker_Scan
  imports Prelude "HOL-Library.Sublist"
begin

section \<open>Scanning for markers in streamed text\<close>

text \<open>
  What the two response splitters of \<open>runtime/text\<close> share: searching a text for the earliest
  of a set of markers and holding back a suffix that may become a marker. \<open>marker_set\<close> is
  the interface a set of markers has to satisfy (no marker occurs inside a proper prefix of
  another); under it the theory shows that a search on a prefix of the text gives the
  result of the search on the whole text.
\<close>

definition occurs_at :: "string \<Rightarrow> string \<Rightarrow> nat \<Rightarrow> bool" where
  "occurs_at m str pos \<longleftrightarrow> prefix m (drop pos str)"

text \<open>\<open>std::string_view::find\<close>.\<close>

fun str_find_from :: "nat \<Rightarrow> string \<Rightarrow> string \<Rightarrow> nat option" where
  "str_find_from pos [] m = (if m = [] then Some pos else None)"
| "str_find_from pos (c # cs) m = (if prefix m (c # cs) then Some pos else str_find_from (Suc pos) cs m)"

definition str_find :: "string \<Rightarrow> string \<Rightarrow> nat option" where
  "str_find str m = str_find_from 0 str m"

text \<open>\<open>for (k = n; k >= 1; --k) if (P(k)) return k; return 0;\<close>\<close>

fun largest_le :: "nat \<Rightarrow> (nat \<Rightarrow> bool) \<Rightarrow> nat" where
  "largest_le 0 P = 0"
| "largest_le (Suc k) P = (if P (Suc k) then Suc k else largest_le k P)"

definition FindEarliestMarker :: "string \<Rightarrow> string list \<Rightarrow> (nat \<times> string) option" where
  "FindEarliestMarker str candidates =
     fold (\<lambda>cand best.
             case str_find str cand of
               None \<Rightarrow> best
             | Some pos \<Rightarrow>
                 (case best of
                    None \<Rightarrow> Some (pos, cand)
                  | Some (bpos, m) \<Rightarrow> if pos < bpos then Some (pos, cand) else best))
       candidates None"

definition suffix_starts :: "string \<Rightarrow> nat \<Rightarrow> string \<Rightarrow> bool" where
  "suffix_starts str k cand \<longleftrightarrow> k < length cand \<and> take k cand = drop (length str - k) str"

definition HoldbackSuffixLen :: "string \<Rightarrow> string list \<Rightarrow> nat" where
  "HoldbackSuffixLen str candidates =
     largest_le (min (fold (\<lambda>cand n. max n (length cand - 1)) candidates 0) (length str))
       (\<lambda>k. list_ex (suffix_starts str k) candidates)"

subsection \<open>Positions\<close>

lemma occurs_at_le: "occurs_at m str pos \<Longrightarrow> m \<noteq> [] \<Longrightarrow> pos + length m \<le> length str"
  using prefix_length_le [of m "drop pos str"] by (cases "pos \<le> length str") (auto simp: occurs_at_def)

lemma occurs_at_append: "pos + length m \<le> length str \<Longrightarrow> occurs_at m (str @ x) pos \<longleftrightarrow> occurs_at m str pos"
  using prefix_length_prefix [of m "drop pos str @ x" "drop pos str"] by (auto simp: occurs_at_def)

lemma occurs_at_drop: "occurs_at m (drop k str) pos \<longleftrightarrow> occurs_at m str (k + pos)"
  by (simp add: occurs_at_def add.commute)

text \<open>An occurrence that reaches the end of the text from inside it leaves a start of the marker there.\<close>

lemma occurs_at_cut:
  assumes "occurs_at m (str @ x) pos" "pos \<le> length str"
  shows "take (length str - pos) m = take (length m) (drop pos str)"
proof -
  obtain z where "drop pos str @ x = m @ z" using assms by (auto simp: occurs_at_def prefix_def)
  then have "take (length m) (take (length str - pos) (drop pos str @ x))
             = take (length m) (take (length str - pos) (m @ z))" by simp
  then show ?thesis by (auto simp: min_def split: if_splits)
qed

text \<open>Two occurrences that overlap: the later one occurs inside the earlier marker.\<close>

lemma occurs_at_inside:
  assumes "occurs_at a str p" "occurs_at b str q" "p \<le> q" "q + length b \<le> p + length a"
  shows "occurs_at b a (q - p)"
proof -
  obtain z where z: "drop p str = a @ z" using assms(1) by (auto simp: occurs_at_def prefix_def)
  have "drop q str = drop (q - p) (drop p str)" using assms(3) by simp
  also have "\<dots> = drop (q - p) a @ z" using z assms(3,4) by (cases "q - p \<le> length a") auto
  finally have "prefix b (drop (q - p) a @ z)" using assms(2) by (simp add: occurs_at_def)
  then show ?thesis
    using assms(3,4) by (auto simp: occurs_at_def intro: prefix_length_prefix)
qed

lemma str_find_from_None: "m \<noteq> [] \<Longrightarrow> str_find_from k str m = None \<longleftrightarrow> (\<forall>p. \<not> occurs_at m str p)"
proof (induction str arbitrary: k)
  case (Cons c str)
  have "(\<forall>p. \<not> occurs_at m (c # str) p) \<longleftrightarrow> \<not> prefix m (c # str) \<and> (\<forall>p. \<not> occurs_at m str p)"
    by (metis drop0 drop_Suc_Cons not0_implies_Suc occurs_at_def)
  then show ?case using Cons by auto
qed (simp add: occurs_at_def)

lemma str_find_from_Some:
  "m \<noteq> [] \<Longrightarrow> str_find_from k str m = Some pos \<Longrightarrow>
   k \<le> pos \<and> occurs_at m str (pos - k) \<and> (\<forall>p < pos - k. \<not> occurs_at m str p)"
proof (induction str arbitrary: k)
  case (Cons c str)
  show ?case
  proof (cases "prefix m (c # str)")
    case True
    then show ?thesis using Cons.prems by (simp add: occurs_at_def)
  next
    case False
    then have IH: "Suc k \<le> pos" "occurs_at m str (pos - Suc k)" "\<forall>p < pos - Suc k. \<not> occurs_at m str p"
      using Cons by auto
    have step: "occurs_at m (c # str) (Suc p) = occurs_at m str p" for p by (simp add: occurs_at_def)
    have "pos - k = Suc (pos - Suc k)" using IH(1) by simp
    moreover have "\<not> occurs_at m (c # str) p" if "p < Suc (pos - Suc k)" for p
      using that IH(3) False step by (cases p) (auto simp: occurs_at_def)
    ultimately show ?thesis using IH(1,2) step by simp
  qed
qed simp

lemma str_find_None: "m \<noteq> [] \<Longrightarrow> str_find str m = None \<longleftrightarrow> (\<forall>p. \<not> occurs_at m str p)"
  by (simp add: str_find_def str_find_from_None)

lemma str_find_Some: "m \<noteq> [] \<Longrightarrow> str_find str m = Some pos \<Longrightarrow> occurs_at m str pos \<and> (\<forall>p < pos. \<not> occurs_at m str p)"
  using str_find_from_Some [of m 0 str pos] by (simp add: str_find_def)

lemma largest_le_bound: "largest_le n P \<le> n"
  by (induction n) auto

lemma largest_le_sat: "0 < largest_le n P \<Longrightarrow> P (largest_le n P)"
  by (induction n) (auto split: if_splits)

lemma largest_le_max: "k \<le> n \<Longrightarrow> P k \<Longrightarrow> k \<le> largest_le n P"
  by (induction n) (auto simp: le_Suc_eq)

subsection \<open>The earliest marker\<close>

text \<open>\<open>m\<close> is a marker at \<open>pos\<close>, and no marker occurs before it.\<close>

definition first_marker :: "string list \<Rightarrow> string \<Rightarrow> nat \<Rightarrow> string \<Rightarrow> bool" where
  "first_marker C str pos m \<longleftrightarrow>
     m \<in> set C \<and> occurs_at m str pos \<and> (\<forall>m' \<in> set C. \<forall>p < pos. \<not> occurs_at m' str p)"

definition marker_free :: "string list \<Rightarrow> string \<Rightarrow> bool" where
  "marker_free C str \<longleftrightarrow> (\<forall>m \<in> set C. \<forall>p. \<not> occurs_at m str p)"

definition better_hit :: "string \<Rightarrow> string \<Rightarrow> (nat \<times> string) option \<Rightarrow> (nat \<times> string) option" where
  "better_hit str cand best =
     (case str_find str cand of
        None \<Rightarrow> best
      | Some pos \<Rightarrow>
          (case best of
             None \<Rightarrow> Some (pos, cand)
           | Some (bpos, m) \<Rightarrow> if pos < bpos then Some (pos, cand) else best))"

lemma FindEarliestMarker_fold: "FindEarliestMarker str C = fold (better_hit str) C None"
  unfolding FindEarliestMarker_def better_hit_def [abs_def] ..

definition best_so_far :: "string list \<Rightarrow> string \<Rightarrow> (nat \<times> string) option \<Rightarrow> bool" where
  "best_so_far C str r = (case r of None \<Rightarrow> marker_free C str | Some (pos, m) \<Rightarrow> first_marker C str pos m)"

lemma better_hit_snoc:
  assumes "cand \<noteq> []" "best_so_far C str best"
  shows "best_so_far (C @ [cand]) str (better_hit str cand best)"
proof (cases "str_find str cand")
  case None
  then show ?thesis
    using assms str_find_None [OF assms(1), of str]
    by (auto simp: best_so_far_def better_hit_def marker_free_def first_marker_def split: option.splits)
next
  case (Some pos)
  note cand = str_find_Some [OF assms(1) Some]
  show ?thesis
  proof (cases best)
    case None
    then show ?thesis using assms(2) Some cand
      by (auto simp: best_so_far_def better_hit_def marker_free_def first_marker_def)
  next
    case (Some b)
    obtain bpos m where b: "best = Some (bpos, m)" using Some by (cases b) auto
    then show ?thesis using assms(2) \<open>str_find str cand = Some pos\<close> cand
      by (auto simp: best_so_far_def better_hit_def marker_free_def first_marker_def not_less
            dest: order.strict_trans2 order.strict_trans)
  qed
qed

lemma FindEarliestMarker_best: "[] \<notin> set C \<Longrightarrow> best_so_far C str (FindEarliestMarker str C)"
proof (induction C rule: rev_induct)
  case Nil
  then show ?case by (simp add: FindEarliestMarker_def best_so_far_def marker_free_def)
next
  case (snoc cand C)
  have "cand \<noteq> []" "best_so_far C str (fold (better_hit str) C None)"
    using snoc by (auto simp: FindEarliestMarker_fold)
  from better_hit_snoc [OF this] show ?case by (simp add: FindEarliestMarker_fold)
qed

subsection \<open>The interface of a set of markers\<close>

lemma max_len_ge: "m \<in> set C \<Longrightarrow> length m - 1 \<le> fold (\<lambda>cand n. max n (length cand - 1)) C (0::nat)"
proof (induction C rule: rev_induct)
  case (snoc cand C)
  then show ?case by (auto simp: max_def)
qed simp

lemma HoldbackSuffixLen_le: "HoldbackSuffixLen str C \<le> length str"
  using largest_le_bound [of "min (fold (\<lambda>cand n. max n (length cand - 1)) C 0) (length str)"]
  by (auto simp: HoldbackSuffixLen_def intro: order_trans)

lemma HoldbackSuffixLen_max:
  assumes "m \<in> set C" "suffix_starts str k m" "k \<le> length str"
  shows "k \<le> HoldbackSuffixLen str C"
  unfolding HoldbackSuffixLen_def
  using assms max_len_ge [OF assms(1)]
  by (intro largest_le_max) (auto simp: suffix_starts_def list_ex_iff)

lemma HoldbackSuffixLen_sat:
  "0 < HoldbackSuffixLen str C \<Longrightarrow> \<exists>m \<in> set C. suffix_starts str (HoldbackSuffixLen str C) m"
  using largest_le_sat [of _ "\<lambda>k. list_ex (suffix_starts str k) C"]
  by (simp add: HoldbackSuffixLen_def list_ex_iff)

locale marker_set =
  fixes C :: "string list"
  assumes nonempty: "m \<in> set C \<Longrightarrow> m \<noteq> []"
    and no_nesting: "a \<in> set C \<Longrightarrow> b \<in> set C \<Longrightarrow> occurs_at b a k \<Longrightarrow> k + length b = length a"
begin

lemma first_marker_unique:
  assumes "first_marker C str p m" "first_marker C str q m'"
  shows "p = q \<and> m = m'"
proof -
  have pq: "p = q"
    using assms unfolding first_marker_def by (metis linorder_neqE_nat)
  have same: "a = b"
    if "a \<in> set C" "b \<in> set C" "occurs_at a str p" "occurs_at b str p" "length b \<le> length a" for a b
  proof -
    have "occurs_at b a 0" using occurs_at_inside [OF that(3,4)] that(5) by simp
    then have "prefix b a" "length b = length a"
      using no_nesting [OF that(1,2), of 0] by (auto simp: occurs_at_def)
    then show "a = b" by (auto simp: prefix_def)
  qed
  show ?thesis
    using assms pq same [of m m'] same [of m' m] by (cases "length m' \<le> length m") (auto simp: first_marker_def)
qed

lemma find_Some_iff: "FindEarliestMarker str C = Some (pos, m) \<longleftrightarrow> first_marker C str pos m"
proof -
  have best: "best_so_far C str (FindEarliestMarker str C)"
    using FindEarliestMarker_best nonempty by blast
  show ?thesis
  proof
    assume f: "first_marker C str pos m"
    show "FindEarliestMarker str C = Some (pos, m)"
    proof (cases "FindEarliestMarker str C")
      case None
      then show ?thesis using best f by (auto simp: best_so_far_def marker_free_def first_marker_def)
    next
      case (Some h)
      then show ?thesis using best first_marker_unique [OF f] by (cases h) (auto simp: best_so_far_def)
    qed
  qed (use best in \<open>simp add: best_so_far_def\<close>)
qed

lemma find_None_iff: "FindEarliestMarker str C = None \<longleftrightarrow> marker_free C str"
proof -
  have best: "best_so_far C str (FindEarliestMarker str C)"
    using FindEarliestMarker_best nonempty by blast
  then show ?thesis
    by (cases "FindEarliestMarker str C") (auto simp: best_so_far_def marker_free_def first_marker_def, blast)
qed

lemma find_append:
  assumes "FindEarliestMarker str C = Some (pos, m)"
  shows "FindEarliestMarker (str @ x) C = Some (pos, m)"
proof -
  have f: "m \<in> set C" "occurs_at m str pos" "\<And>m' p. m' \<in> set C \<Longrightarrow> p < pos \<Longrightarrow> \<not> occurs_at m' str p"
    using assms by (auto simp: find_Some_iff first_marker_def)
  have le: "pos + length m \<le> length str" using occurs_at_le [OF f(2)] nonempty [OF f(1)] by simp
  have occ: "occurs_at m (str @ x) pos" using occurs_at_append [OF le] f(2) by simp
  have "\<not> occurs_at b (str @ x) p" if b: "b \<in> set C" "p < pos" for b p
  proof
    assume o: "occurs_at b (str @ x) p"
    show False
    proof (cases "p + length b \<le> length str")
      case True
      then show False using f(3) [OF b] o occurs_at_append by blast
    next
      case False
      then have "occurs_at m b (pos - p)" using occurs_at_inside [OF o occ] le b(2) by simp
      then have "pos - p + length m = length b" using no_nesting [OF b(1) f(1)] by blast
      then show False using False le b(2) by simp
    qed
  qed
  then show ?thesis using f(1) occ by (simp add: find_Some_iff first_marker_def)
qed

lemma marker_after_emitted:
  assumes "marker_free C str" "m \<in> set C" "occurs_at m (str @ x) p"
  shows "length str - HoldbackSuffixLen str C \<le> p"
proof (rule ccontr)
  assume "\<not> ?thesis"
  then have p: "p < length str - HoldbackSuffixLen str C" by simp
  have "\<not> p + length m \<le> length str"
    using assms occurs_at_append [of p m str x] by (auto simp: marker_free_def)
  then have "suffix_starts str (length str - p) m"
    using occurs_at_cut [OF assms(3)] p by (simp add: suffix_starts_def)
  then show False using HoldbackSuffixLen_max [OF assms(2)] p by fastforce
qed

lemma find_after_emit:
  assumes "marker_free C str" "n = length str - HoldbackSuffixLen str C"
  shows "FindEarliestMarker (str @ x) C =
           map_option (\<lambda>(p, m). (n + p, m)) (FindEarliestMarker (drop n str @ x) C)"
proof -
  have n: "drop n str @ x = drop n (str @ x)" using assms(2) by simp
  have late: "n \<le> p" if "m \<in> set C" "occurs_at m (str @ x) p" for m p
    using marker_after_emitted [OF assms(1) that] assms(2) by simp
  have occ: "occurs_at m (str @ x) (n + p) = occurs_at m (drop n str @ x) p" for m p
    unfolding n occurs_at_drop ..
  show ?thesis
  proof (cases "FindEarliestMarker (drop n str @ x) C")
    case None
    then have "marker_free C (str @ x)"
      unfolding find_None_iff marker_free_def using late occ by (metis le_iff_add)
    then have "FindEarliestMarker (str @ x) C = None" by (simp only: find_None_iff)
    then show ?thesis using None by simp
  next
    case (Some h)
    obtain p m where h: "h = (p, m)" by fastforce
    then have f: "first_marker C (drop n str @ x) p m" using Some by (simp add: find_Some_iff)
    have "first_marker C (str @ x) (n + p) m"
      unfolding first_marker_def
    proof (intro conjI ballI allI impI notI)
      fix m' q
      assume q: "m' \<in> set C" "q < n + p" "occurs_at m' (str @ x) q"
      then have "n \<le> q" using late by blast
      then have "occurs_at m' (drop n str @ x) (q - n)" using occ [of m' "q - n"] q(3) by simp
      then show False using f q(1,2) \<open>n \<le> q\<close> by (auto simp: first_marker_def)
    qed (use f occ in \<open>auto simp: first_marker_def\<close>)
    then have "FindEarliestMarker (str @ x) C = Some (n + p, m)" by (simp only: find_Some_iff)
    then show ?thesis using Some h by simp
  qed
qed

lemma hold_after_emit:
  assumes "n = length str - HoldbackSuffixLen str C"
  shows "HoldbackSuffixLen (str @ x) C = HoldbackSuffixLen (drop n str @ x) C" (is "?a = ?b")
proof (rule antisym)
  have same: "suffix_starts (str @ x) k m = suffix_starts (drop n str @ x) k m" if "k \<le> length (drop n str @ x)" for k m
  proof -
    have "drop (length (str @ x) - k) (str @ x) = drop (length (drop n str @ x) - k) (drop n str @ x)"
    proof -
      have "drop (length (str @ x) - k) (str @ x) = drop (length (str @ x) - k - n) (drop n (str @ x))"
        using that assms by (simp add: drop_drop)
      then show ?thesis using that assms by simp
    qed
    then show ?thesis by (simp only: suffix_starts_def)
  qed
  show "?b \<le> ?a"
  proof (cases "?b = 0")
    case False
    then obtain m where m: "m \<in> set C" "suffix_starts (drop n str @ x) ?b m" using HoldbackSuffixLen_sat by blast
    have "?b \<le> length (drop n str @ x)" by (rule HoldbackSuffixLen_le)
    then show ?thesis using HoldbackSuffixLen_max [OF m(1), of "str @ x" ?b] same m(2) by simp
  qed simp
  show "?a \<le> ?b"
  proof (cases "?a = 0")
    case False
    then obtain m where m: "m \<in> set C" "suffix_starts (str @ x) ?a m" using HoldbackSuffixLen_sat by blast
    have "?a \<le> length (drop n str @ x)"
    proof (rule ccontr)
      assume long: "\<not> ?thesis"
      let ?k = "?a - length x"
      have le: "?a \<le> length (str @ x)" by (rule HoldbackSuffixLen_le)
      have "take ?k m = take ?k (take ?a m)" by simp
      also have "\<dots> = take ?k (drop (length (str @ x) - ?a) (str @ x))" using m(2) by (simp add: suffix_starts_def)
      also have "\<dots> = drop (length str - ?k) str" using long le by (simp add: drop_take)
      finally have "suffix_starts str ?k m" using m(2) by (auto simp: suffix_starts_def)
      then have "?k \<le> HoldbackSuffixLen str C" using HoldbackSuffixLen_max [OF m(1)] le by simp
      then show False using long assms HoldbackSuffixLen_le [of str C] by simp
    qed
    then show ?thesis using HoldbackSuffixLen_max [OF m(1), of "drop n str @ x" ?a] same m(2) by simp
  qed simp
qed

end

text \<open>A check of the interface that evaluates.\<close>

definition nesting_free :: "string list \<Rightarrow> bool" where
  "nesting_free C \<longleftrightarrow>
     list_all (\<lambda>a. a \<noteq> [] \<and> list_all (\<lambda>b. list_all (\<lambda>k. \<not> occurs_at b a k) [0..<length a - length b]) C) C"

lemma nesting_free_marker_set: "nesting_free C \<Longrightarrow> marker_set C"
proof
  fix a b k
  assume ok: "nesting_free C" and ab: "a \<in> set C" "b \<in> set C" "occurs_at b a k"
  have "b \<noteq> []" using ok ab(2) by (auto simp: nesting_free_def list_all_iff)
  then have "k + length b \<le> length a" using occurs_at_le [OF ab(3)] by simp
  moreover have "\<not> k < length a - length b" using ok ab by (auto simp: nesting_free_def list_all_iff)
  ultimately show "k + length b = length a" by simp
qed (auto simp: nesting_free_def list_all_iff)

end
