(* ===== verification/Reasoning_Splitter.thy ===== *)
theory Reasoning_Splitter
  imports Marker_Scan
begin

section \<open>Splitting responses with think tags\<close>

text \<open>
  \<open>runtime/text/reasoning_splitter.{h,cpp}\<close>: text between \<open><think>\<close> and \<open></think>\<close> is reasoning,
  the rest is content. The record holds the member variables; \<open>Feed\<close> is the loop of the source
  over the held-back bytes, which ends because every iteration that goes on shortens them.
\<close>

record Parts =
  parts_reasoning :: string
  parts_content :: string

definition kOpenTag :: string where "kOpenTag = ''<think>''"
definition kCloseTag :: string where "kCloseTag = ''</think>''"
definition kMaxTagLen :: nat where "kMaxTagLen = 8"

definition StartsWithTag :: "string \<Rightarrow> string \<Rightarrow> bool" where
  "StartsWithTag str tag \<longleftrightarrow> length str \<ge> length tag \<and> take (length tag) str = tag"

definition MaybePartialTag :: "string \<Rightarrow> string \<Rightarrow> bool" where
  "MaybePartialTag str tag \<longleftrightarrow> length str < length tag \<and> take (length str) tag = str"

datatype think_state = TNormal | TInThink

record ReasoningSplitter =
  r_state :: think_state
  r_pending :: string
  r_reasoning :: string
  r_content :: string
  r_reasoning_bytes :: nat
  r_content_bytes :: nat
  r_drained_reasoning :: nat
  r_drained_content :: nat

definition ReasoningSplitter_init :: ReasoningSplitter where
  "ReasoningSplitter_init = \<lparr>r_state = TNormal, r_pending = [], r_reasoning = [], r_content = [],
     r_reasoning_bytes = 0, r_content_bytes = 0, r_drained_reasoning = 0, r_drained_content = 0\<rparr>"

definition in_reasoning :: "ReasoningSplitter \<Rightarrow> bool" where
  "in_reasoning r \<longleftrightarrow> r_state r = TInThink"

text \<open>The bytes at the end of the text that may be the start of a close tag, or of either tag.\<close>

definition keep_close :: "string \<Rightarrow> nat" where
  "keep_close p =
     largest_le (length kCloseTag - 1) (\<lambda>k. length p \<ge> k \<and> drop (length p - k) p = take k kCloseTag)"

definition hold_tags :: "string \<Rightarrow> nat" where
  "hold_tags p =
     largest_le kMaxTagLen
       (\<lambda>k. length p \<ge> k \<and>
            (MaybePartialTag (drop (length p - k) p) kOpenTag \<or> MaybePartialTag (drop (length p - k) p) kCloseTag))"

text \<open>One iteration of the loop of \<open>Feed\<close>, with the new value of \<open>progressed\<close>.\<close>

definition think_iteration :: "ReasoningSplitter \<Rightarrow> ReasoningSplitter \<times> bool" where
  "think_iteration r =
     (let p = r_pending r in
      if r_state r = TInThink then
        (case str_find p kCloseTag of
           Some close \<Rightarrow>
             (r\<lparr>r_reasoning := r_reasoning r @ take close p, r_pending := drop (close + length kCloseTag) p,
                r_state := TNormal\<rparr>, True)
         | None \<Rightarrow>
             let n = length p - keep_close p in
             if n = 0 then (r, False)
             else (r\<lparr>r_reasoning := r_reasoning r @ take n p, r_pending := drop n p\<rparr>, True))
      else if StartsWithTag p kOpenTag then
        (r\<lparr>r_pending := drop (length kOpenTag) p, r_state := TInThink\<rparr>, True)
      else if StartsWithTag p kCloseTag then (r\<lparr>r_pending := drop (length kCloseTag) p\<rparr>, True)
      else
        let n = length p - hold_tags p in
        if n = 0 then (r, False)
        else (r\<lparr>r_content := r_content r @ take n p, r_pending := drop n p\<rparr>, True))"

lemma think_iteration_decreases:
  "r_pending r \<noteq> [] \<Longrightarrow> think_iteration r = (r', True) \<Longrightarrow> length (r_pending r') < length (r_pending r)"
  by (auto simp: think_iteration_def Let_def kOpenTag_def kCloseTag_def split: if_splits option.splits)

function think_loop :: "ReasoningSplitter \<Rightarrow> ReasoningSplitter" where
  "think_loop r =
     (if r_pending r = [] then r
      else let (r', progressed) = think_iteration r in if progressed then think_loop r' else r')"
  by pat_completeness auto
termination
  by (relation "measure (\<lambda>r. length (r_pending r))") (auto intro: think_iteration_decreases)

declare think_loop.simps [simp del]

definition think_Feed :: "string \<Rightarrow> ReasoningSplitter \<Rightarrow> ReasoningSplitter" where
  "think_Feed piece r = think_loop (r\<lparr>r_pending := r_pending r @ piece\<rparr>)"

text \<open>\<open>Finish\<close> moves the accumulators out, which leaves them empty.\<close>

definition think_Finish :: "ReasoningSplitter \<Rightarrow> ReasoningSplitter \<times> Parts" where
  "think_Finish r =
     (let r1 = (if r_pending r \<noteq> [] then
                  (if r_state r = TInThink then r\<lparr>r_reasoning := r_reasoning r @ r_pending r\<rparr>
                   else r\<lparr>r_content := r_content r @ r_pending r\<rparr>)\<lparr>r_pending := []\<rparr>
                else r);
          parts = \<lparr>parts_reasoning = r_reasoning r1, parts_content = r_content r1\<rparr>
      in (r1\<lparr>r_reasoning := [], r_content := [], r_reasoning_bytes := length (parts_reasoning parts),
             r_content_bytes := length (parts_content parts)\<rparr>, parts))"

definition think_Drain :: "ReasoningSplitter \<Rightarrow> ReasoningSplitter \<times> Parts" where
  "think_Drain r =
     (r\<lparr>r_drained_reasoning := length (r_reasoning r), r_drained_content := length (r_content r)\<rparr>,
      \<lparr>parts_reasoning = drop (r_drained_reasoning r) (r_reasoning r),
       parts_content = drop (r_drained_content r) (r_content r)\<rparr>)"

definition think_Split :: "string \<Rightarrow> Parts" where
  "think_Split output = snd (think_Finish (think_Feed output ReasoningSplitter_init))"

definition think_feed_all :: "string list \<Rightarrow> Parts" where
  "think_feed_all pieces = snd (think_Finish (fold think_Feed pieces ReasoningSplitter_init))"

subsection \<open>What one call does in each state\<close>

lemmas tag_defs = kOpenTag_def kCloseTag_def kMaxTagLen_def

lemma tags_nonempty [simp]: "kOpenTag \<noteq> []" "kCloseTag \<noteq> []" "length kOpenTag = 7" "length kCloseTag = 8"
  by (simp_all add: tag_defs)

lemma StartsWithTag_occurs: "StartsWithTag str tag \<longleftrightarrow> occurs_at tag str 0"
  by (auto simp: StartsWithTag_def occurs_at_def prefix_def) (metis append_take_drop_id)

lemma think_loop_step:
  "r_pending r \<noteq> [] \<Longrightarrow> think_iteration r = (r', True) \<Longrightarrow> think_loop r = think_loop r'"
  by (subst think_loop.simps) simp

lemma think_loop_stop:
  "think_iteration r = (r, False) \<Longrightarrow> think_loop r = r"
  by (subst think_loop.simps) simp

lemma think_loop_empty: "r_pending r = [] \<Longrightarrow> think_loop r = r"
  by (subst think_loop.simps) simp

lemma largest_le_tail:
  assumes "k = largest_le n (\<lambda>j. length p \<ge> j \<and> P j (drop (length p - j) p))" "k \<le> length p" "0 < k"
  shows "largest_le n (\<lambda>j. length (drop (length p - k) p) \<ge> j \<and> P j (drop (length (drop (length p - k) p) - j) (drop (length p - k) p))) = k"
proof -
  let ?q = "drop (length p - k) p"
  have q: "length ?q = k" using assms(2) by simp
  have "P k ?q" using largest_le_sat [of n "\<lambda>j. length p \<ge> j \<and> P j (drop (length p - j) p)"] assms by simp
  moreover have "k \<le> n" using largest_le_bound assms(1) by simp
  ultimately have "k \<le> largest_le n (\<lambda>j. length ?q \<ge> j \<and> P j (drop (length ?q - j) ?q))"
    using q by (intro largest_le_max) simp_all
  moreover have "largest_le n (\<lambda>j. length ?q \<ge> j \<and> P j (drop (length ?q - j) ?q)) \<le> k"
    using largest_le_sat [of n "\<lambda>j. length ?q \<ge> j \<and> P j (drop (length ?q - j) ?q)"] q assms(3)
    by (cases "largest_le n (\<lambda>j. length ?q \<ge> j \<and> P j (drop (length ?q - j) ?q)) = 0") auto
  ultimately show ?thesis by simp
qed

lemma keep_close_le: "keep_close p \<le> length p"
  using largest_le_sat [of _ "\<lambda>k. length p \<ge> k \<and> drop (length p - k) p = take k kCloseTag"]
  by (cases "keep_close p = 0") (auto simp: keep_close_def)

lemma hold_tags_le: "hold_tags p \<le> length p"
  using largest_le_sat [of _ "\<lambda>k. length p \<ge> k \<and> (MaybePartialTag (drop (length p - k) p) kOpenTag \<or>
      MaybePartialTag (drop (length p - k) p) kCloseTag)"]
  by (cases "hold_tags p = 0") (auto simp: hold_tags_def)

lemma keep_close_tail: "keep_close (drop (length p - keep_close p) p) = keep_close p"
proof (cases "keep_close p = 0")
  case True
  then show ?thesis using keep_close_le [of "[]"] by simp
next
  case False
  then show ?thesis
    using largest_le_tail [where P = "\<lambda>k t. t = take k kCloseTag" and n = "length kCloseTag - 1"
        and k = "keep_close p" and p = p] keep_close_le [of p]
    by (simp add: keep_close_def)
qed

lemma hold_tags_tail: "hold_tags (drop (length p - hold_tags p) p) = hold_tags p"
proof (cases "hold_tags p = 0")
  case True
  then show ?thesis using hold_tags_le [of "[]"] by simp
next
  case False
  then show ?thesis
    using largest_le_tail [where P = "\<lambda>k t. MaybePartialTag t kOpenTag \<or> MaybePartialTag t kCloseTag"
        and n = kMaxTagLen and k = "hold_tags p" and p = p] hold_tags_le [of p]
    by (simp add: hold_tags_def)
qed

text \<open>Inside a block, with no close tag in sight: all but a possible start of one becomes reasoning.\<close>

lemma think_loop_inside:
  assumes "r_state r = TInThink" "str_find (r_pending r) kCloseTag = None"
  shows "think_loop r =
     (let n = length (r_pending r) - keep_close (r_pending r)
      in r\<lparr>r_reasoning := r_reasoning r @ take n (r_pending r), r_pending := drop n (r_pending r)\<rparr>)"
proof (cases "length (r_pending r) - keep_close (r_pending r) = 0")
  case True
  then show ?thesis using assms by (simp add: think_loop_stop think_iteration_def Let_def)
next
  case False
  let ?n = "length (r_pending r) - keep_close (r_pending r)"
  let ?q = "drop ?n (r_pending r)"
  let ?r' = "r\<lparr>r_reasoning := r_reasoning r @ take ?n (r_pending r), r_pending := ?q\<rparr>"
  have "think_loop r = think_loop ?r'"
    using assms False by (intro think_loop_step) (auto simp: think_iteration_def Let_def)
  also have "str_find ?q kCloseTag = None"
    using assms(2) by (simp add: str_find_None occurs_at_drop)
  then have "think_loop ?r' = ?r'"
    using assms(1) keep_close_tail [of "r_pending r"] keep_close_le [of "r_pending r"]
    by (intro think_loop_stop) (simp add: think_iteration_def Let_def)
  finally show ?thesis by (simp add: Let_def)
qed

lemma think_loop_close:
  assumes "r_state r = TInThink" "str_find (r_pending r) kCloseTag = Some c"
  shows "think_loop r = think_loop
     (r\<lparr>r_reasoning := r_reasoning r @ take c (r_pending r), r_pending := drop (c + 8) (r_pending r), r_state := TNormal\<rparr>)"
proof -
  have "r_pending r \<noteq> []" using assms(2) by (auto simp: str_find_def)
  then show ?thesis using assms by (intro think_loop_step) (simp_all add: think_iteration_def Let_def)
qed

text \<open>Outside a block, with no tag in sight: all but a possible start of a tag becomes content.\<close>

lemma think_loop_outside:
  assumes "r_state r = TNormal" "marker_free [kOpenTag, kCloseTag] (r_pending r)"
  shows "think_loop r =
     (let n = length (r_pending r) - hold_tags (r_pending r)
      in r\<lparr>r_content := r_content r @ take n (r_pending r), r_pending := drop n (r_pending r)\<rparr>)"
proof (cases "length (r_pending r) - hold_tags (r_pending r) = 0")
  case True
  then show ?thesis using assms
    by (simp add: think_loop_stop think_iteration_def Let_def StartsWithTag_occurs marker_free_def)
next
  case False
  let ?n = "length (r_pending r) - hold_tags (r_pending r)"
  let ?q = "drop ?n (r_pending r)"
  let ?r' = "r\<lparr>r_content := r_content r @ take ?n (r_pending r), r_pending := ?q\<rparr>"
  have "think_loop r = think_loop ?r'"
    using assms False
    by (intro think_loop_step) (auto simp: think_iteration_def Let_def StartsWithTag_occurs marker_free_def)
  also have "\<not> StartsWithTag ?q kOpenTag" "\<not> StartsWithTag ?q kCloseTag"
    using assms(2) by (simp_all add: StartsWithTag_occurs occurs_at_drop marker_free_def)
  then have "think_loop ?r' = ?r'"
    using assms(1) hold_tags_tail [of "r_pending r"] hold_tags_le [of "r_pending r"]
    by (intro think_loop_stop) (simp add: think_iteration_def Let_def)
  finally show ?thesis by (simp add: Let_def)
qed

lemma think_loop_open:
  assumes "r_state r = TNormal" "StartsWithTag (r_pending r) kOpenTag"
  shows "think_loop r = think_loop (r\<lparr>r_pending := drop 7 (r_pending r), r_state := TInThink\<rparr>)"
proof -
  have "r_pending r \<noteq> []" using assms(2) by (auto simp: StartsWithTag_def tag_defs)
  then show ?thesis using assms by (intro think_loop_step) (simp_all add: think_iteration_def Let_def)
qed

subsection \<open>Well-formed responses\<close>

text \<open>
  A response that opens a block at its start, closes it, and uses no tag in the answer. The
  first close tag is the one after the body.
\<close>

definition well_formed_response :: "string \<Rightarrow> string \<Rightarrow> bool" where
  "well_formed_response body answer \<longleftrightarrow>
     str_find (body @ kCloseTag) kCloseTag = Some (length body) \<and>
     str_find answer kOpenTag = None \<and> str_find answer kCloseTag = None"

text \<open>The state after \<open>b\<close> bytes of what follows the open tag.\<close>

definition after_open :: "string \<Rightarrow> string \<Rightarrow> ReasoningSplitter \<Rightarrow> bool" where
  "after_open body b r \<longleftrightarrow>
     (if length b < length body + 8
      then r_state r = TInThink \<and> r_reasoning r @ r_pending r = b \<and> length (r_reasoning r) \<le> length body \<and> r_content r = []
      else r_state r = TNormal \<and> r_reasoning r = body \<and> r_content r @ r_pending r = drop (length body + 8) b)"

lemma answer_marker_free:
  assumes "well_formed_response body answer" "prefix (c @ p) answer"
  shows "marker_free [kOpenTag, kCloseTag] p"
proof -
  obtain z where z: "answer = c @ p @ z" using assms(2) by (auto simp: prefix_def)
  have "\<not> occurs_at t p k" if t: "t \<in> {kOpenTag, kCloseTag}" for t k
  proof
    assume o: "occurs_at t p k"
    have "t \<noteq> []" using t by (auto simp: tag_defs)
    then have "occurs_at t (p @ z) k" using o occurs_at_append [OF occurs_at_le [OF o]] by blast
    then have "occurs_at t answer (length c + k)"
      using occurs_at_drop [of t "length c" answer k] z by simp
    then show False using assms(1) t by (auto simp: well_formed_response_def str_find_None)
  qed
  then show ?thesis by (auto simp: marker_free_def)
qed

lemma outside_step:
  assumes "well_formed_response body answer" "r_state r = TNormal" "r_reasoning r = body"
    "r_content r @ r_pending r = a" "prefix a answer"
  shows "r_state (think_loop r) = TNormal \<and> r_reasoning (think_loop r) = body \<and>
         r_content (think_loop r) @ r_pending (think_loop r) = a"
  using think_loop_outside [OF assms(2) answer_marker_free [OF assms(1), of "r_content r" "r_pending r"]] assms
  by (simp add: Let_def)

lemma first_close:
  assumes "well_formed_response body answer" "occurs_at kCloseTag (body @ kCloseTag @ answer) k"
  shows "length body \<le> k"
proof (rule ccontr)
  assume "\<not> ?thesis"
  then have k: "k + length kCloseTag \<le> length (body @ kCloseTag)" "k < length body" by simp_all
  have "occurs_at kCloseTag (body @ kCloseTag) k"
    using occurs_at_append [OF k(1), of answer] assms(2) by simp
  then show False
    using str_find_Some [of kCloseTag "body @ kCloseTag" "length body"] assms(1) k(2)
    by (simp add: well_formed_response_def)
qed

lemma inside_step:
  assumes wf: "well_formed_response body answer" and st: "r_state r = TInThink" "r_content r = []"
    and b: "r_reasoning r @ r_pending r = b" "length (r_reasoning r) \<le> length body"
    and pre: "prefix b (body @ kCloseTag @ answer)"
  shows "after_open body b (think_loop r)"
proof -
  let ?rho = "r_reasoning r" and ?p = "r_pending r"
  obtain z where z: "body @ kCloseTag @ answer = b @ z" using pre by (auto simp: prefix_def)
  have late: "length body \<le> length ?rho + c" if o: "occurs_at kCloseTag ?p c" for c
  proof -
    have "occurs_at kCloseTag b (length ?rho + c)"
      using o occurs_at_drop [of kCloseTag "length ?rho" b c] b(1) by auto
    then have "occurs_at kCloseTag (b @ z) (length ?rho + c)"
      using occurs_at_append occurs_at_le [of kCloseTag b "length ?rho + c"] by auto
    then show ?thesis using first_close [OF wf] z by simp
  qed
  show ?thesis
  proof (cases "length b < length body + 8")
    case True
    have none: "str_find ?p kCloseTag = None"
      using late occurs_at_le [of kCloseTag ?p] True b(1) by (fastforce simp: str_find_None)
    have "length ?rho + (length ?p - keep_close ?p) \<le> length body"
    proof (cases "length b \<le> length body")
      case le: True
      then show ?thesis using b(1) by auto
    next
      case False
      let ?j = "length b - length body"
      have "b = take (length b) (body @ kCloseTag @ answer)" using z by simp
      then have split: "b = body @ take ?j kCloseTag" using True False by simp
      have lens: "length b = length ?rho + length ?p" by (simp add: b(1) [symmetric])
      have "drop (length body) b = drop (length body - length ?rho) ?p"
        unfolding b(1) [symmetric] using b(2) by simp
      moreover have "length ?p - ?j = length body - length ?rho" using lens False b(2) by simp
      ultimately have "drop (length ?p - ?j) ?p = take ?j kCloseTag" using split by (metis append_eq_conv_conj)
      then have "?j \<le> keep_close ?p"
        using True lens b(2) unfolding keep_close_def by (intro largest_le_max) auto
      then show ?thesis using lens b(2) by linarith
    qed
    then show ?thesis using think_loop_inside [OF st(1) none] True b st by (simp add: Let_def after_open_def)
  next
    case False
    let ?c = "length body - length ?rho"
    have "prefix (body @ kCloseTag) b"
      by (rule prefix_length_prefix [OF _ pre]) (use False in auto)
    then obtain a where a: "b = body @ kCloseTag @ a" by (auto simp: prefix_def)
    obtain us where us: "body = ?rho @ us" "?p = us @ kCloseTag @ a"
      using a b append_eq_append_conv2 [of ?rho ?p body "kCloseTag @ a"] by auto
    have c: "?c = length us" using us(1) by (metis diff_add_inverse length_append)
    have "occurs_at kCloseTag ?p ?c" unfolding c us(2) by (simp add: occurs_at_def)
    moreover have "\<not> occurs_at kCloseTag ?p k" if "k < ?c" for k using late [of k] that by auto
    ultimately have find: "str_find ?p kCloseTag = Some ?c"
      by (metis linorder_neqE_nat not_None_eq str_find_None str_find_Some tags_nonempty(2))
    have "prefix a answer" using z a by (simp add: prefix_def)
    then have "r_state (think_loop (r\<lparr>r_reasoning := body, r_pending := a, r_state := TNormal\<rparr>)) = TNormal \<and>
      r_reasoning (think_loop (r\<lparr>r_reasoning := body, r_pending := a, r_state := TNormal\<rparr>)) = body \<and>
      r_content (think_loop (r\<lparr>r_reasoning := body, r_pending := a, r_state := TNormal\<rparr>)) @
      r_pending (think_loop (r\<lparr>r_reasoning := body, r_pending := a, r_state := TNormal\<rparr>)) = a"
      using outside_step [OF wf] st(2) by simp
    moreover have "?rho @ take ?c ?p = body" "drop (?c + 8) ?p = a"
      unfolding c us(2) by (simp_all add: us(1) [symmetric])
    ultimately show ?thesis
      using think_loop_close [OF st(1) find] False a by (simp add: after_open_def)
  qed
qed

definition response_of :: "string \<Rightarrow> string \<Rightarrow> string" where
  "response_of body answer = kOpenTag @ body @ kCloseTag @ answer"

definition after_text :: "string \<Rightarrow> string \<Rightarrow> ReasoningSplitter \<Rightarrow> bool" where
  "after_text body t r \<longleftrightarrow>
     (if length t < 7 then r_state r = TNormal \<and> r_pending r = t \<and> r_reasoning r = [] \<and> r_content r = []
      else after_open body (drop 7 t) r)"

lemma partial_open_waits:
  assumes "r_state r = TNormal" "prefix (r_pending r) kOpenTag" "length (r_pending r) < 7"
  shows "think_loop r = r"
proof -
  have "take (length (r_pending r)) kOpenTag = r_pending r" using assms(2) by (metis append_eq_conv_conj prefix_def)
  then have "length (r_pending r) \<le> hold_tags (r_pending r)"
    using assms(3) unfolding hold_tags_def
    by (intro largest_le_max) (simp_all add: MaybePartialTag_def kMaxTagLen_def)
  then show ?thesis
    using assms(1,3) by (intro think_loop_stop) (simp add: think_iteration_def Let_def StartsWithTag_def)
qed

lemma prefix_drop_Cons: "prefix t (u @ v) \<Longrightarrow> length u \<le> length t \<Longrightarrow> prefix (drop (length u) t) v"
  by (auto simp: prefix_def append_eq_append_conv2)

lemma feed_after_text:
  assumes wf: "well_formed_response body answer" and pre: "prefix (t @ x) (response_of body answer)"
    and inv: "after_text body t r"
  shows "after_text body (t @ x) (think_Feed x r)"
proof -
  let ?r = "r\<lparr>r_pending := r_pending r @ x\<rparr>"
  consider (short) "length (t @ x) < 7" | (opens) "length t < 7" "7 \<le> length (t @ x)"
    | (inside) "7 \<le> length t" "length (drop 7 t) < length body + 8"
    | (outside) "7 \<le> length t" "\<not> length (drop 7 t) < length body + 8" by linarith
  then show ?thesis
  proof cases
    case short
    have "prefix (t @ x) kOpenTag"
      using prefix_length_prefix [OF pre, of kOpenTag] short by (simp add: response_of_def)
    then have "think_loop ?r = ?r" using short inv by (intro partial_open_waits) (simp_all add: after_text_def)
    then show ?thesis using short inv by (simp add: after_text_def think_Feed_def)
  next
    case opens
    then have r: "r_state r = TNormal" "r_pending r = t" "r_reasoning r = []" "r_content r = []"
      using inv by (auto simp: after_text_def)
    have "prefix kOpenTag (t @ x)"
      by (rule prefix_length_prefix [OF _ pre]) (use opens in \<open>simp_all add: response_of_def\<close>)
    then have "StartsWithTag (r_pending ?r) kOpenTag" using r by (simp add: StartsWithTag_occurs occurs_at_def)
    then have "think_Feed x r = think_loop (r\<lparr>r_pending := drop 7 (t @ x), r_state := TInThink\<rparr>)"
      using think_loop_open [of ?r] r by (simp add: think_Feed_def)
    moreover have "prefix (drop 7 (t @ x)) (body @ kCloseTag @ answer)"
      using prefix_drop_Cons [of "t @ x" kOpenTag] pre opens by (simp add: response_of_def)
    ultimately show ?thesis
      using inside_step [OF wf, of "r\<lparr>r_pending := drop 7 (t @ x), r_state := TInThink\<rparr>" "drop 7 (t @ x)"] r opens
      by (simp add: after_text_def)
  next
    case inside
    have "prefix (drop 7 (t @ x)) (body @ kCloseTag @ answer)"
      using prefix_drop_Cons [of "t @ x" kOpenTag] pre inside by (simp add: response_of_def)
    then show ?thesis
      using inside_step [OF wf, of ?r "drop 7 (t @ x)"] inv inside
      by (auto simp: after_text_def after_open_def think_Feed_def)
  next
    case outside
    have "prefix (drop 7 t @ x) (body @ kCloseTag @ answer)"
      using prefix_drop_Cons [of "t @ x" kOpenTag] pre outside by (simp add: response_of_def)
    then have "prefix (drop (length (body @ kCloseTag)) (drop 7 t @ x)) answer"
      using outside by (intro prefix_drop_Cons) simp_all
    then have "prefix (drop (length body + 8) (drop 7 t) @ x) answer" using outside by simp
    then show ?thesis
      using outside_step [OF wf, of ?r "drop (length body + 8) (drop 7 t) @ x"] inv outside
      by (auto simp: after_text_def after_open_def think_Feed_def)
  qed
qed

lemma fold_feed_after_text:
  assumes "well_formed_response body answer" "prefix (t @ concat pieces) (response_of body answer)" "after_text body t r"
  shows "after_text body (t @ concat pieces) (fold think_Feed pieces r)"
  using assms
proof (induction pieces arbitrary: t r)
  case (Cons x pieces)
  have "prefix (t @ x) (response_of body answer)"
    using Cons.prems(2) by (metis append.assoc append_prefixD concat.simps(2))
  then have "after_text body (t @ x) (think_Feed x r)" by (rule feed_after_text [OF Cons.prems(1) _ Cons.prems(3)])
  then show ?case using Cons.IH [of "t @ x"] Cons.prems by simp
qed simp

text \<open>
  C32: A response that starts with a think block is split into the body of the block and the
  answer after it, and the tags are dropped, however the response is cut into pieces, also
  inside a tag, provided the answer itself contains no tag.
\<close>
theorem think_split_correct:
  assumes "well_formed_response body answer" "concat pieces = response_of body answer"
  shows "think_feed_all pieces = \<lparr>parts_reasoning = body, parts_content = answer\<rparr>"
proof -
  have "after_text body [] ReasoningSplitter_init" by (simp add: after_text_def ReasoningSplitter_init_def)
  from fold_feed_after_text [OF assms(1) _ this, of pieces]
  have "after_text body (response_of body answer) (fold think_Feed pieces ReasoningSplitter_init)"
    using assms(2) by simp
  then show ?thesis
    by (auto simp: after_text_def after_open_def response_of_def think_feed_all_def think_Finish_def Let_def)
qed

theorem think_split_correct_witness:
  "think_feed_all [''<th'', ''ink>a < b</thi'', ''nk'', ''>yes''] = \<lparr>parts_reasoning = ''a < b'', parts_content = ''yes''\<rparr>"
proof -
  have "well_formed_response ''a < b'' ''yes''" by code_simp
  moreover have "concat [''<th'', ''ink>a < b</thi'', ''nk'', ''>yes''] = response_of ''a < b'' ''yes''" by code_simp
  ultimately show ?thesis by (rule think_split_correct)
qed

text \<open>
  The split of a response depends on how it is cut when text precedes the block: given
  whole, a response with a word before its think block keeps the tags and the reasoning in
  the user-facing content; given in pieces that separate the word, it is split. \<open>Split\<close>, which
  the header calls the oracle of the streaming path, is the wrong one.
\<close>
theorem think_split_leaks:
  "think_Split ''Hm<think>why</think>yes'' = \<lparr>parts_reasoning = [], parts_content = ''Hm<think>why</think>yes''\<rparr> \<and>
   think_feed_all [''Hm'', ''<think>why</think>yes''] = \<lparr>parts_reasoning = ''why'', parts_content = ''Hmyes''\<rparr>"
  by code_simp

end
