(* ===== verification/Splitters.thy ===== *)
theory Splitters
  imports Reasoning_Splitter
begin

section \<open>Splitting harmony responses into reasoning and content\<close>

text \<open>
  \<open>runtime/text/harmony_splitter.{h,cpp}\<close> and \<open>runtime/text/response_splitter.h\<close>: the state
  machine that routes streamed output with channel markers into reasoning and user-facing
  content, dropping the markers, and the wrapper that selects it or the splitter for
  \<open>think\<close> tags. A splitter is a record of its member variables; \<open>Feed\<close> is the loop of the source over the held-back bytes, which ends
  because every iteration that goes on shortens them.
\<close>

subsection \<open>Harmony channels\<close>

definition kAnalysisOpen :: string where "kAnalysisOpen = ''<|channel|>analysis<|message|>''"
definition kFinalOpen :: string where "kFinalOpen = ''<|channel|>final<|message|>''"
definition kCommentaryOpen :: string where "kCommentaryOpen = ''<|channel|>commentary''"
definition kMessage :: string where "kMessage = ''<|message|>''"
definition kEnd :: string where "kEnd = ''<|end|>''"
definition kReturn :: string where "kReturn = ''<|return|>''"
definition kStartAssistant :: string where "kStartAssistant = ''<|start|>assistant''"

datatype harmony_state = HNormal | HAnalysis | HFinal | HCommentaryScan | HCommentary

record HarmonySplitter =
  h_state :: harmony_state
  h_pending :: string
  h_reasoning :: string
  h_content :: string
  h_drained_reasoning :: nat
  h_drained_content :: nat

definition HarmonySplitter_init :: HarmonySplitter where
  "HarmonySplitter_init = \<lparr>h_state = HNormal, h_pending = [], h_reasoning = [], h_content = [],
     h_drained_reasoning = 0, h_drained_content = 0\<rparr>"

definition harmony_in_reasoning :: "HarmonySplitter \<Rightarrow> bool" where
  "harmony_in_reasoning h \<longleftrightarrow> h_state h = HAnalysis"

text \<open>Where a state sends text: to reasoning, to content, or nowhere.\<close>

datatype sink = ToReasoning | ToContent | Discard

fun append_sink :: "sink \<Rightarrow> string \<Rightarrow> HarmonySplitter \<Rightarrow> HarmonySplitter" where
  "append_sink ToReasoning str h = h\<lparr>h_reasoning := h_reasoning h @ str\<rparr>"
| "append_sink ToContent str h = h\<lparr>h_content := h_content h @ str\<rparr>"
| "append_sink Discard str h = h"

text \<open>The boolean is the returned \<open>progressed\<close>.\<close>

definition EmitSafePrefix :: "sink \<Rightarrow> string list \<Rightarrow> HarmonySplitter \<Rightarrow> HarmonySplitter \<times> bool" where
  "EmitSafePrefix snk candidates h =
     (let hold = HoldbackSuffixLen (h_pending h) candidates;
          n = length (h_pending h) - hold
      in if n = 0 then (h, False)
         else ((append_sink snk (take n (h_pending h)) h)\<lparr>h_pending := drop n (h_pending h)\<rparr>, True))"

text \<open>The text before a marker goes to the sink, the marker is erased, and the state changes.\<close>

definition take_marker :: "sink \<Rightarrow> nat \<Rightarrow> string \<Rightarrow> harmony_state \<Rightarrow> HarmonySplitter \<Rightarrow> HarmonySplitter" where
  "take_marker snk pos marker st h =
     (append_sink snk (take pos (h_pending h)) h)
       \<lparr>h_pending := drop (pos + length marker) (h_pending h), h_state := st\<rparr>"

text \<open>One iteration of the loop.\<close>

definition harmony_iteration :: "HarmonySplitter \<Rightarrow> HarmonySplitter \<times> bool" where
  "harmony_iteration h =
     (case h_state h of
        HNormal \<Rightarrow>
          (let candidates = [kAnalysisOpen, kFinalOpen, kCommentaryOpen, kStartAssistant] in
           case FindEarliestMarker (h_pending h) candidates of
             None \<Rightarrow> EmitSafePrefix ToContent candidates h
           | Some (pos, marker) \<Rightarrow>
               (take_marker ToContent pos marker
                  (if marker = kAnalysisOpen then HAnalysis
                   else if marker = kFinalOpen then HFinal
                   else if marker = kCommentaryOpen then HCommentaryScan
                   else HNormal) h, True))
      | HCommentaryScan \<Rightarrow>
          (let candidates = [kMessage, kAnalysisOpen, kFinalOpen] in
           case FindEarliestMarker (h_pending h) candidates of
             None \<Rightarrow> EmitSafePrefix Discard candidates h
           | Some (pos, marker) \<Rightarrow>
               (take_marker Discard pos marker
                  (if marker = kMessage then HCommentary
                   else if marker = kAnalysisOpen then HAnalysis
                   else HFinal) h, True))
      | HCommentary \<Rightarrow>
          (let candidates = [kEnd, kReturn] in
           case FindEarliestMarker (h_pending h) candidates of
             None \<Rightarrow> EmitSafePrefix Discard candidates h
           | Some (pos, marker) \<Rightarrow> (take_marker Discard pos marker HNormal h, True))
      | _ \<Rightarrow>
          (let candidates = [kEnd, kReturn];
               snk = (if h_state h = HAnalysis then ToReasoning else ToContent) in
           case FindEarliestMarker (h_pending h) candidates of
             None \<Rightarrow> EmitSafePrefix snk candidates h
           | Some (pos, marker) \<Rightarrow> (take_marker snk pos marker HNormal h, True)))"

subsection \<open>The states as a table\<close>

fun hs_candidates :: "harmony_state \<Rightarrow> string list" where
  "hs_candidates HNormal = [kAnalysisOpen, kFinalOpen, kCommentaryOpen, kStartAssistant]"
| "hs_candidates HCommentaryScan = [kMessage, kAnalysisOpen, kFinalOpen]"
| "hs_candidates _ = [kEnd, kReturn]"

fun hs_sink :: "harmony_state \<Rightarrow> sink" where
  "hs_sink HNormal = ToContent"
| "hs_sink HAnalysis = ToReasoning"
| "hs_sink HFinal = ToContent"
| "hs_sink _ = Discard"

fun hs_next :: "harmony_state \<Rightarrow> string \<Rightarrow> harmony_state" where
  "hs_next HNormal marker =
     (if marker = kAnalysisOpen then HAnalysis else if marker = kFinalOpen then HFinal
      else if marker = kCommentaryOpen then HCommentaryScan else HNormal)"
| "hs_next HCommentaryScan marker =
     (if marker = kMessage then HCommentary else if marker = kAnalysisOpen then HAnalysis else HFinal)"
| "hs_next _ marker = HNormal"

lemma harmony_iteration_table:
  "harmony_iteration h =
     (case FindEarliestMarker (h_pending h) (hs_candidates (h_state h)) of
        None \<Rightarrow> EmitSafePrefix (hs_sink (h_state h)) (hs_candidates (h_state h)) h
      | Some (pos, marker) \<Rightarrow>
          (take_marker (hs_sink (h_state h)) pos marker (hs_next (h_state h) marker) h, True))"
  by (cases "h_state h") (simp_all add: harmony_iteration_def Let_def split: option.split)

lemmas marker_defs = kAnalysisOpen_def kFinalOpen_def kCommentaryOpen_def kMessage_def kEnd_def
  kReturn_def kStartAssistant_def

lemma hs_nesting_free: "nesting_free (hs_candidates st)"
  by (induction st) code_simp+

interpretation harmony_markers: marker_set "hs_candidates st" for st
  by (rule nesting_free_marker_set [OF hs_nesting_free])

lemma hs_find_Nil [simp]: "FindEarliestMarker [] (hs_candidates st) = None"
  using harmony_markers.nonempty
  by (auto simp: harmony_markers.find_None_iff marker_free_def occurs_at_def)

lemma append_sink_simps [simp]:
  "h_pending (append_sink snk str h) = h_pending h" "h_state (append_sink snk str h) = h_state h"
  "append_sink snk str (h\<lparr>h_pending := p\<rparr>) = (append_sink snk str h)\<lparr>h_pending := p\<rparr>"
  "append_sink snk b (append_sink snk a h) = append_sink snk (a @ b) h"
  by (cases snk; simp)+

lemma harmony_iteration_decreases:
  assumes "h_pending h \<noteq> []" "harmony_iteration h = (h', True)"
  shows "length (h_pending h') < length (h_pending h)"
proof (cases "FindEarliestMarker (h_pending h) (hs_candidates (h_state h))")
  case None
  then show ?thesis using assms
    by (auto simp: harmony_iteration_table EmitSafePrefix_def Let_def split: if_splits)
next
  case (Some hit)
  then obtain pos m where hit: "hit = (pos, m)" "m \<in> set (hs_candidates (h_state h))"
    by (cases hit) (auto simp: harmony_markers.find_Some_iff first_marker_def)
  then show ?thesis using assms Some harmony_markers.nonempty [OF hit(2)]
    by (auto simp: harmony_iteration_table take_marker_def)
qed

function harmony_loop :: "HarmonySplitter \<Rightarrow> HarmonySplitter" where
  "harmony_loop h =
     (if h_pending h = [] then h
      else let (h', progressed) = harmony_iteration h in if progressed then harmony_loop h' else h')"
  by pat_completeness auto
termination
  by (relation "measure (\<lambda>h. length (h_pending h))") (auto intro: harmony_iteration_decreases)

declare harmony_loop.simps [simp del]

definition harmony_Feed :: "string \<Rightarrow> HarmonySplitter \<Rightarrow> HarmonySplitter" where
  "harmony_Feed piece h = harmony_loop (h\<lparr>h_pending := h_pending h @ piece\<rparr>)"

text \<open>\<open>Finish\<close> moves the accumulators out, which leaves them empty.\<close>

definition harmony_Finish :: "HarmonySplitter \<Rightarrow> HarmonySplitter \<times> Parts" where
  "harmony_Finish h =
     (let h1 = (append_sink (hs_sink (h_state h)) (h_pending h) h)\<lparr>h_pending := []\<rparr>
      in (h1\<lparr>h_reasoning := [], h_content := []\<rparr>,
          \<lparr>parts_reasoning = h_reasoning h1, parts_content = h_content h1\<rparr>))"

definition harmony_Drain :: "HarmonySplitter \<Rightarrow> HarmonySplitter \<times> Parts" where
  "harmony_Drain h =
     (h\<lparr>h_drained_reasoning := length (h_reasoning h), h_drained_content := length (h_content h)\<rparr>,
      \<lparr>parts_reasoning = drop (h_drained_reasoning h) (h_reasoning h),
       parts_content = drop (h_drained_content h) (h_content h)\<rparr>)"

definition harmony_Split :: "string \<Rightarrow> Parts" where
  "harmony_Split output = snd (harmony_Finish (harmony_Feed output HarmonySplitter_init))"

subsection \<open>Feeding in pieces\<close>

definition add_pending :: "string \<Rightarrow> HarmonySplitter \<Rightarrow> HarmonySplitter" where
  "add_pending x h = h\<lparr>h_pending := h_pending h @ x\<rparr>"

lemma add_pending_simps [simp]:
  "h_pending (add_pending x h) = h_pending h @ x" "h_state (add_pending x h) = h_state h"
  by (simp_all add: add_pending_def)

lemma loop_step:
  "h_pending h \<noteq> [] \<Longrightarrow> harmony_iteration h = (h', True) \<Longrightarrow> harmony_loop h = harmony_loop h'"
  by (subst harmony_loop.simps) simp

lemma iteration_marker:
  "FindEarliestMarker (h_pending h) (hs_candidates (h_state h)) = Some (pos, m) \<Longrightarrow>
   harmony_iteration h = (take_marker (hs_sink (h_state h)) pos m (hs_next (h_state h) m) h, True)"
  by (simp add: harmony_iteration_table)

definition emit_prefix :: "nat \<Rightarrow> HarmonySplitter \<Rightarrow> HarmonySplitter" where
  "emit_prefix n h = (append_sink (hs_sink (h_state h)) (take n (h_pending h)) h)\<lparr>h_pending := drop n (h_pending h)\<rparr>"

lemma emit_prefix_simps [simp]:
  "h_pending (emit_prefix n h) = drop n (h_pending h)" "h_state (emit_prefix n h) = h_state h"
  by (simp_all add: emit_prefix_def)

lemma iteration_emit:
  "FindEarliestMarker (h_pending h) (hs_candidates (h_state h)) = None \<Longrightarrow>
   n = length (h_pending h) - HoldbackSuffixLen (h_pending h) (hs_candidates (h_state h)) \<Longrightarrow>
   harmony_iteration h = (if n = 0 then (h, False) else (emit_prefix n h, True))"
  by (simp add: harmony_iteration_table EmitSafePrefix_def emit_prefix_def Let_def)

lemma loop_stop:
  "FindEarliestMarker (h_pending h) (hs_candidates (h_state h)) = None \<Longrightarrow>
   length (h_pending h) \<le> HoldbackSuffixLen (h_pending h) (hs_candidates (h_state h)) \<Longrightarrow> harmony_loop h = h"
  by (subst harmony_loop.simps) (simp add: iteration_emit)

lemma emit_prefix_0 [simp]: "emit_prefix 0 h = h"
  by (cases "hs_sink (h_state h)") (simp_all add: emit_prefix_def)

lemma loop_emit:
  "FindEarliestMarker (h_pending h) (hs_candidates (h_state h)) = None \<Longrightarrow>
   n = length (h_pending h) - HoldbackSuffixLen (h_pending h) (hs_candidates (h_state h)) \<Longrightarrow>
   harmony_loop h = harmony_loop (emit_prefix n h)"
  by (cases "n = 0") (auto simp: iteration_emit intro!: loop_step)

text \<open>Emitting the safe prefix before more bytes arrive makes no difference.\<close>

lemma emit_then_add:
  assumes none: "FindEarliestMarker (h_pending h) (hs_candidates (h_state h)) = None"
    and n: "n = length (h_pending h) - HoldbackSuffixLen (h_pending h) (hs_candidates (h_state h))"
  shows "harmony_loop (add_pending x (emit_prefix n h)) = harmony_loop (add_pending x h)"
proof -
  let ?p = "h_pending h" and ?C = "hs_candidates (h_state h)"
  let ?q = "drop n ?p"
  have free: "marker_free ?C ?p" using none by (simp add: harmony_markers.find_None_iff)
  note find = harmony_markers.find_after_emit [OF free n, of x]
  have "n \<le> length ?p" using n by simp
  then have cut: "take (n + k) (?p @ x) = take n ?p @ take k (?q @ x)" "drop (n + k) (?p @ x) = drop k (?q @ x)" for k
    using take_add [of n k "?p @ x"] drop_drop [of k n "?p @ x"] by (simp_all add: add.commute)
  show ?thesis
  proof (cases "FindEarliestMarker (?q @ x) ?C")
    case (Some hit)
    obtain pos m where hit: "hit = (pos, m)" by fastforce
    have ne: "?q @ x \<noteq> []" using Some by (auto simp del: append_is_Nil_conv)
    have "take_marker (hs_sink (h_state h)) pos m (hs_next (h_state h) m) (add_pending x (emit_prefix n h))
          = take_marker (hs_sink (h_state h)) (n + pos) m (hs_next (h_state h) m) (add_pending x h)"
      by (cases "hs_sink (h_state h)")
         (simp_all add: take_marker_def add_pending_def emit_prefix_def cut add.assoc del: take_append drop_append)
    then show ?thesis
      using Some hit ne find iteration_marker [of "add_pending x (emit_prefix n h)" pos m]
        iteration_marker [of "add_pending x h" "n + pos" m]
      by (auto simp: loop_step)
  next
    case None
    let ?m = "length (?q @ x) - HoldbackSuffixLen (?q @ x) ?C"
    have "emit_prefix ?m (add_pending x (emit_prefix n h)) = emit_prefix (n + ?m) (add_pending x h)"
      by (cases "hs_sink (h_state h)")
         (simp_all add: add_pending_def emit_prefix_def cut add.assoc del: take_append drop_append)
    moreover have "harmony_loop (add_pending x (emit_prefix n h))
        = harmony_loop (emit_prefix ?m (add_pending x (emit_prefix n h)))"
      using None by (intro loop_emit) simp_all
    moreover have "n + ?m = length (?p @ x) - HoldbackSuffixLen (?p @ x) ?C"
      using harmony_markers.hold_after_emit [OF n, of x] HoldbackSuffixLen_le [of "?q @ x" ?C] n by simp
    then have "harmony_loop (add_pending x h) = harmony_loop (emit_prefix (n + ?m) (add_pending x h))"
      using find None by (intro loop_emit) simp_all
    ultimately show ?thesis by simp
  qed
qed

lemma loop_add_pending: "harmony_loop (add_pending x (harmony_loop h)) = harmony_loop (add_pending x h)"
proof (induction h rule: harmony_loop.induct)
  case (1 h)
  let ?C = "hs_candidates (h_state h)"
  show ?case
  proof (cases "h_pending h = []")
    case True
    then show ?thesis by (simp add: harmony_loop.simps [of h])
  next
    case ne: False
    obtain h' progressed where it: "harmony_iteration h = (h', progressed)" by fastforce
    show ?thesis
    proof (cases "FindEarliestMarker (h_pending h) ?C")
      case None
      let ?n = "length (h_pending h) - HoldbackSuffixLen (h_pending h) ?C"
      show ?thesis
      proof (cases "?n = 0")
        case True
        then show ?thesis using None by (simp add: loop_stop)
      next
        case False
        then have it': "harmony_iteration h = (emit_prefix ?n h, True)" using iteration_emit [OF None refl] by simp
        then show ?thesis
          using 1 [OF ne it' [symmetric] refl] emit_then_add [OF None refl, of x] loop_step [OF ne it'] by simp
      qed
    next
      case (Some hit)
      obtain pos m where hit: "hit = (pos, m)" by fastforce
      let ?h' = "take_marker (hs_sink (h_state h)) pos m (hs_next (h_state h) m) h"
      have it': "harmony_iteration h = (?h', True)" using Some hit by (simp add: iteration_marker)
      have f: "FindEarliestMarker (h_pending h @ x) ?C = Some (pos, m)"
        using harmony_markers.find_append Some hit by simp
      have le: "pos + length m \<le> length (h_pending h)"
        using Some hit occurs_at_le harmony_markers.nonempty
        by (auto simp: harmony_markers.find_Some_iff first_marker_def)
      then have "harmony_iteration (add_pending x h) = (add_pending x ?h', True)"
        using iteration_marker [of "add_pending x h" pos m] f
        by (cases "hs_sink (h_state h)") (simp_all add: take_marker_def add_pending_def)
      then show ?thesis
        using 1 [OF ne it' [symmetric] refl] loop_step [OF ne it'] ne loop_step [of "add_pending x h"] by simp
    qed
  qed
qed

lemma harmony_Feed_append: "harmony_Feed (a @ b) h = harmony_Feed b (harmony_Feed a h)"
proof -
  have "harmony_Feed (a @ b) h = harmony_loop (add_pending b (add_pending a h))"
    by (simp add: harmony_Feed_def add_pending_def)
  also have "\<dots> = harmony_loop (add_pending b (harmony_loop (add_pending a h)))" by (simp add: loop_add_pending)
  finally show ?thesis by (simp add: harmony_Feed_def add_pending_def)
qed

lemma fold_Feed: "pieces \<noteq> [] \<Longrightarrow> fold harmony_Feed pieces h = harmony_Feed (concat pieces) h"
  by (induction pieces arbitrary: h rule: list_nonempty_induct) (simp_all add: harmony_Feed_append)

subsection \<open>Draining\<close>

definition set_drained :: "nat \<Rightarrow> nat \<Rightarrow> HarmonySplitter \<Rightarrow> HarmonySplitter" where
  "set_drained i j h = h\<lparr>h_drained_reasoning := i, h_drained_content := j\<rparr>"

lemma set_drained_simps [simp]:
  "h_pending (set_drained i j h) = h_pending h" "h_state (set_drained i j h) = h_state h"
  "h_reasoning (set_drained i j h) = h_reasoning h" "h_content (set_drained i j h) = h_content h"
  "append_sink snk str (set_drained i j h) = set_drained i j (append_sink snk str h)"
  "(set_drained i j h)\<lparr>h_pending := p\<rparr> = set_drained i j (h\<lparr>h_pending := p\<rparr>)"
  "(set_drained i j h)\<lparr>h_state := st\<rparr> = set_drained i j (h\<lparr>h_state := st\<rparr>)"
  by (cases snk; simp add: set_drained_def)+

lemma iteration_set_drained:
  "harmony_iteration (set_drained i j h) = map_prod (set_drained i j) id (harmony_iteration h)"
  by (simp add: harmony_iteration_table EmitSafePrefix_def take_marker_def Let_def split: option.split)

lemma loop_set_drained: "harmony_loop (set_drained i j h) = set_drained i j (harmony_loop h)"
proof (induction h rule: harmony_loop.induct)
  case (1 h)
  obtain h' b where it: "harmony_iteration h = (h', b)" by fastforce
  show ?case
    using 1 [OF _ it [symmetric] refl] it iteration_set_drained [of i j h]
    by (cases "h_pending h = []"; cases b) (simp_all add: harmony_loop.simps [of h] harmony_loop.simps [of "set_drained i j h"])
qed

lemma Feed_set_drained: "harmony_Feed x (set_drained i j h) = set_drained i j (harmony_Feed x h)"
  by (simp add: harmony_Feed_def loop_set_drained)

text \<open>The accumulators only grow.\<close>

definition grows :: "HarmonySplitter \<Rightarrow> HarmonySplitter \<Rightarrow> bool" where
  "grows h h' \<longleftrightarrow> prefix (h_reasoning h) (h_reasoning h') \<and> prefix (h_content h) (h_content h') \<and>
     h_drained_reasoning h' = h_drained_reasoning h \<and> h_drained_content h' = h_drained_content h"

lemma grows_refl [simp]: "grows h h"
  by (simp add: grows_def)

lemma grows_trans: "grows a b \<Longrightarrow> grows b c \<Longrightarrow> grows a c"
  by (auto simp: grows_def intro: prefix_order.trans)

lemma append_sink_grows: "grows h (append_sink snk str h)"
  by (cases snk) (simp_all add: grows_def)

lemma iteration_grows: "grows h (fst (harmony_iteration h))"
  using append_sink_grows [of h]
  by (auto simp: harmony_iteration_table EmitSafePrefix_def take_marker_def Let_def grows_def split: option.split)

lemma loop_grows: "grows h (harmony_loop h)"
proof (induction h rule: harmony_loop.induct)
  case (1 h)
  obtain h' b where it: "harmony_iteration h = (h', b)" by fastforce
  show ?case
    using 1 [OF _ it [symmetric] refl] it iteration_grows [of h] grows_trans [of h h']
    by (cases "h_pending h = []"; cases b) (simp_all add: harmony_loop.simps [of h])
qed

lemma Feed_grows: "grows h (harmony_Feed x h)"
  using loop_grows [of "h\<lparr>h_pending := h_pending h @ x\<rparr>"] by (simp add: harmony_Feed_def grows_def)

text \<open>A streaming client: every piece is fed, then what became final is drained.\<close>

fun harmony_stream :: "string list \<Rightarrow> HarmonySplitter \<Rightarrow> HarmonySplitter \<times> Parts list" where
  "harmony_stream [] h = (h, [])"
| "harmony_stream (piece # pieces) h =
     (let (h1, d) = harmony_Drain (harmony_Feed piece h);
          (h2, ds) = harmony_stream pieces h1
      in (h2, d # ds))"

definition drained_all :: "HarmonySplitter \<Rightarrow> bool" where
  "drained_all h \<longleftrightarrow> h_drained_reasoning h = length (h_reasoning h) \<and> h_drained_content h = length (h_content h)"

lemma stream_deltas:
  assumes "drained_all h" "harmony_stream pieces h = (h', ds)"
  shows "h_reasoning h' = h_reasoning h @ concat (map parts_reasoning ds) \<and>
         h_content h' = h_content h @ concat (map parts_content ds) \<and>
         (\<exists>i j. h' = set_drained i j (fold harmony_Feed pieces h))"
  using assms
proof (induction pieces arbitrary: h ds)
  case Nil
  have "h = set_drained (h_drained_reasoning h) (h_drained_content h) h" by (simp add: set_drained_def)
  then show ?case using Nil by (metis Pair_inject append_Nil2 concat.simps(1) fold_simps(1) harmony_stream.simps(1) list.simps(8))
next
  case (Cons piece pieces)
  let ?f = "harmony_Feed piece h"
  let ?h1 = "set_drained (length (h_reasoning ?f)) (length (h_content ?f)) ?f"
  obtain ds' where s: "harmony_stream pieces ?h1 = (h', ds')"
    and ds: "ds = snd (harmony_Drain ?f) # ds'"
    using Cons.prems(2) by (auto simp: harmony_Drain_def set_drained_def split: prod.splits)
  have IH: "h_reasoning h' = h_reasoning ?h1 @ concat (map parts_reasoning ds')"
    "h_content h' = h_content ?h1 @ concat (map parts_content ds')"
    "\<exists>i j. h' = set_drained i j (fold harmony_Feed pieces ?h1)"
    using Cons.IH [OF _ s] by (auto simp: drained_all_def set_drained_def)
  have "h_reasoning ?f = h_reasoning h @ parts_reasoning (snd (harmony_Drain ?f))"
    "h_content ?f = h_content h @ parts_content (snd (harmony_Drain ?f))"
    using Feed_grows [of h piece] Cons.prems(1)
    by (auto simp: grows_def harmony_Drain_def drained_all_def prefix_def)
  moreover have "fold harmony_Feed pieces (set_drained i j g) = set_drained i j (fold harmony_Feed pieces g)" for i j g
    by (induction pieces arbitrary: g) (simp_all add: Feed_set_drained)
  then have "\<exists>i j. h' = set_drained i j (fold harmony_Feed (piece # pieces) h)"
    using IH(3) by (auto simp: set_drained_def)
  ultimately show ?case using IH ds by simp
qed

lemma Finish_set_drained: "snd (harmony_Finish (set_drained i j h)) = snd (harmony_Finish h)"
  by (simp add: harmony_Finish_def Let_def)

text \<open>
  C7: The split of a harmony response does not depend on how the response is cut into pieces:
  feeding the pieces and finishing gives what \<open>Split\<close> gives for the whole response, also when a
  channel marker straddles pieces. When the client drains after every piece, the deltas it has
  sent are, in order, a prefix of that result: nothing is sent twice, and no byte that turns
  out to be part of a marker is ever sent.
\<close>
theorem harmony_chunking_irrelevant:
  assumes "harmony_stream pieces HarmonySplitter_init = (h, ds)"
  shows "snd (harmony_Finish h) = harmony_Split (concat pieces) \<and>
         prefix (concat (map parts_reasoning ds)) (parts_reasoning (harmony_Split (concat pieces))) \<and>
         prefix (concat (map parts_content ds)) (parts_content (harmony_Split (concat pieces)))"
proof -
  have init: "drained_all HarmonySplitter_init" "h_reasoning HarmonySplitter_init = []" "h_content HarmonySplitter_init = []"
    by (simp_all add: drained_all_def HarmonySplitter_init_def)
  have "harmony_Feed [] HarmonySplitter_init = HarmonySplitter_init"
    by (simp add: harmony_Feed_def harmony_loop.simps HarmonySplitter_init_def)
  then have fold: "fold harmony_Feed pieces HarmonySplitter_init = harmony_Feed (concat pieces) HarmonySplitter_init"
    by (cases "pieces = []") (simp_all add: fold_Feed)
  from stream_deltas [OF init(1) assms] obtain i j where
    d: "h_reasoning h = concat (map parts_reasoning ds)" "h_content h = concat (map parts_content ds)"
    and h: "h = set_drained i j (harmony_Feed (concat pieces) HarmonySplitter_init)"
    using fold init by auto
  have "snd (harmony_Finish h) = harmony_Split (concat pieces)"
    unfolding h Finish_set_drained harmony_Split_def ..
  moreover have "grows h (append_sink (hs_sink (h_state h)) (h_pending h) h)" by (rule append_sink_grows)
  then have "prefix (h_reasoning h) (parts_reasoning (snd (harmony_Finish h)))"
    "prefix (h_content h) (parts_content (snd (harmony_Finish h)))"
    by (simp_all add: grows_def harmony_Finish_def Let_def)
  ultimately show ?thesis using d by simp
qed

definition harmony_example :: "string list" where
  "harmony_example = [''<|chan'', ''nel|>analysis<|message|>why<|e'', ''nd|><|start|>assistant<|channel|>fin'', ''al<|message|>yes<|return|>'']"

theorem harmony_chunking_irrelevant_witness:
  "harmony_Split (concat harmony_example) = \<lparr>parts_reasoning = ''why'', parts_content = ''yes''\<rparr> \<and>
   snd (harmony_Finish (fst (harmony_stream harmony_example HarmonySplitter_init))) = harmony_Split (concat harmony_example)"
proof -
  let ?s = "harmony_stream harmony_example HarmonySplitter_init"
  have "harmony_Split (concat harmony_example) = \<lparr>parts_reasoning = ''why'', parts_content = ''yes''\<rparr>" by code_simp
  then show ?thesis using harmony_chunking_irrelevant [of harmony_example "fst ?s" "snd ?s"] by simp
qed

subsection \<open>The wrapper that selects a splitter\<close>

datatype ChatTemplateFamily = kChatML | kLlama | kMistral | kGemma | kHarmony

datatype ResponseSplitter = RImpl ReasoningSplitter | HImpl HarmonySplitter

definition ResponseSplitter_init :: "ChatTemplateFamily \<Rightarrow> ResponseSplitter" where
  "ResponseSplitter_init family =
     (if family = kHarmony then HImpl HarmonySplitter_init else RImpl ReasoningSplitter_init)"

fun response_Feed :: "string \<Rightarrow> ResponseSplitter \<Rightarrow> ResponseSplitter" where
  "response_Feed piece (RImpl r) = RImpl (think_Feed piece r)"
| "response_Feed piece (HImpl h) = HImpl (harmony_Feed piece h)"

fun response_Finish :: "ResponseSplitter \<Rightarrow> ResponseSplitter \<times> Parts" where
  "response_Finish (RImpl r) = map_prod RImpl id (think_Finish r)"
| "response_Finish (HImpl h) = map_prod HImpl id (harmony_Finish h)"

fun response_Drain :: "ResponseSplitter \<Rightarrow> ResponseSplitter \<times> Parts" where
  "response_Drain (RImpl r) = map_prod RImpl id (think_Drain r)"
| "response_Drain (HImpl h) = map_prod HImpl id (harmony_Drain h)"

fun response_in_reasoning :: "ResponseSplitter \<Rightarrow> bool" where
  "response_in_reasoning (RImpl r) = in_reasoning r"
| "response_in_reasoning (HImpl h) = harmony_in_reasoning h"

definition response_Split :: "ChatTemplateFamily \<Rightarrow> string \<Rightarrow> Parts" where
  "response_Split family output = (if family = kHarmony then harmony_Split output else think_Split output)"

lemma response_Split_once:
  "response_Split family output = snd (response_Finish (response_Feed output (ResponseSplitter_init family)))"
  by (simp add: response_Split_def ResponseSplitter_init_def harmony_Split_def think_Split_def)

end
