(* ===== verification/String_Utils.thy ===== *)
theory String_Utils
  imports Prelude "HOL-Library.Sublist"
begin

section \<open>Strings and environment variables\<close>

text \<open>
  \<open>runtime/string_utils.h\<close>, and the functions of \<open><cctype>\<close> and \<open><cstdlib>\<close> it calls, in the C
  locale. The environment is a function from names to optional values.
\<close>

definition is_upper :: "char \<Rightarrow> bool" where
  "is_upper c \<longleftrightarrow> 65 \<le> (of_char c :: nat) \<and> (of_char c :: nat) \<le> 90"

definition is_lower :: "char \<Rightarrow> bool" where
  "is_lower c \<longleftrightarrow> 97 \<le> (of_char c :: nat) \<and> (of_char c :: nat) \<le> 122"

definition is_digit :: "char \<Rightarrow> bool" where
  "is_digit c \<longleftrightarrow> 48 \<le> (of_char c :: nat) \<and> (of_char c :: nat) \<le> 57"

definition is_alnum :: "char \<Rightarrow> bool" where
  "is_alnum c \<longleftrightarrow> is_upper c \<or> is_lower c \<or> is_digit c"

definition is_space :: "char \<Rightarrow> bool" where
  "is_space c \<longleftrightarrow> (of_char c :: nat) = 32 \<or> (9 \<le> (of_char c :: nat) \<and> (of_char c :: nat) \<le> 13)"

definition to_lower :: "char \<Rightarrow> char" where
  "to_lower c = (if is_upper c then char_of ((of_char c :: nat) + 32) else c)"

definition ToLower :: "string \<Rightarrow> string" where
  "ToLower s = map to_lower s"

definition trim_char :: "char \<Rightarrow> bool" where
  "trim_char c \<longleftrightarrow> (of_char c :: nat) \<in> {32, 9, 13, 10}"

definition Trim :: "string \<Rightarrow> string" where
  "Trim s = rev (dropWhile trim_char (rev (dropWhile trim_char s)))"

definition IsTruthyCStr :: "string option \<Rightarrow> bool" where
  "IsTruthyCStr v =
     (case v of None \<Rightarrow> False
      | Some s \<Rightarrow> list_ex (\<lambda>yes. map to_lower s = yes) [''true'', ''1'', ''yes'', ''on''])"

definition ParseBool :: "string \<Rightarrow> bool" where
  "ParseBool v = (let lower = ToLower v in lower = ''true'' \<or> lower = ''1'' \<or> lower = ''yes'' \<or> lower = ''on'')"

definition ParseBoolEnv :: "(string \<Rightarrow> string option) \<Rightarrow> string \<Rightarrow> bool \<Rightarrow> bool" where
  "ParseBoolEnv env name fallback =
     (case env name of
        None \<Rightarrow> fallback
      | Some v \<Rightarrow>
          if v = [] then fallback
          else if IsTruthyCStr (Some v) then True
          else
            let lower = ToLower v in
            if lower = ''0'' \<or> lower = ''false'' \<or> lower = ''no'' \<or> lower = ''off'' then False else fallback)"

text \<open>
  \<open>strtol\<close> in base 10: the parsed value, saturated to 64 bits, and the unparsed rest; \<open>None\<close> when
  no digits are found, where \<open>strtol\<close> sets \<open>end\<close> to the start of the string.
\<close>

definition digits_value :: "string \<Rightarrow> int" where
  "digits_value ds = foldl (\<lambda>n c. 10 * n + (int (of_char c) - 48)) 0 ds"

definition saturate_long :: "int \<Rightarrow> int" where
  "saturate_long n = clamp n (- (2 ^ 63)) (2 ^ 63 - 1)"

definition strtol10 :: "string \<Rightarrow> (int \<times> string) option" where
  "strtol10 s =
     (let s1 = dropWhile is_space s;
          (neg, s2) = (case s1 of
               [] \<Rightarrow> (False, [])
             | c # cs \<Rightarrow> if c = CHR ''-'' then (True, cs) else if c = CHR ''+'' then (False, cs) else (False, s1));
          ds = takeWhile is_digit s2
      in if ds = [] then None
         else Some (saturate_long (if neg then - digits_value ds else digits_value ds), dropWhile is_digit s2))"

definition int_max :: int where "int_max = 2 ^ 31 - 1"

definition ParseIntEnv :: "(string \<Rightarrow> string option) \<Rightarrow> string \<Rightarrow> int \<Rightarrow> int \<Rightarrow> int \<Rightarrow> int" where
  "ParseIntEnv env name default_value min_value max_value =
     (case env name of
        None \<Rightarrow> default_value
      | Some raw \<Rightarrow>
          if raw = [] then default_value
          else case strtol10 raw of
              None \<Rightarrow> default_value
            | Some (parsed, rest) \<Rightarrow>
                if rest \<noteq> [] then default_value
                else if parsed < min_value \<or> parsed > max_value then default_value
                else parsed)"

subsection \<open>Facts the clients use\<close>

lemma of_char_bound: "(of_char c :: nat) < 256"
  by simp

lemma to_lower_idem [simp]: "to_lower (to_lower c) = to_lower c"
proof -
  have "\<not> is_upper (char_of (n + 32))" if "65 \<le> n" "n \<le> 90" for n :: nat
    using that by (simp add: is_upper_def)
  then show ?thesis by (auto simp: to_lower_def is_upper_def)
qed

lemma ToLower_idem [simp]: "ToLower (ToLower s) = ToLower s"
  by (simp add: ToLower_def)

lemma ToLower_append [simp]: "ToLower (a @ b) = ToLower a @ ToLower b"
  by (simp add: ToLower_def)

lemma IsTruthyCStr_ParseBool: "IsTruthyCStr (Some s) = ParseBool s"
  by (simp add: IsTruthyCStr_def ParseBool_def ToLower_def Let_def eq_commute)

lemma ParseIntEnv_bounds:
  "min_value \<le> default_value \<Longrightarrow> default_value \<le> max_value \<Longrightarrow>
   min_value \<le> ParseIntEnv env name default_value min_value max_value \<and>
   ParseIntEnv env name default_value min_value max_value \<le> max_value"
  by (auto simp: ParseIntEnv_def split: option.split)


end
