(* ===== verification/Model_Selection.thy ===== *)
theory Model_Selection
  imports String_Utils "HOL-Library.Char_ord" "HOL-Library.List_Lexorder" "HOL-Library.Product_Lexorder"
begin

section \<open>Selecting a model for a request\<close>

text \<open>
  \<open>scheduler/model_selection.{h,cpp}\<close> and \<open>runtime/backends/backend_capabilities.{h,cpp}\<close>. The
  router is the virtual interface of \<open>scheduler/model_router.h\<close>: its methods are functions of
  the record below. \<open>ModelInfo\<close> has the fields the selection reads; a backend is whether it
  is ready. Keys are compared as \<open>std::tuple\<close> and \<open>std::string\<close> compare them.
\<close>

record BackendCapabilities =
  supports_generation :: bool
  supports_streaming :: bool
  supports_logprobs :: bool
  supports_structured_output :: bool
  supports_embeddings :: bool
  supports_vision :: bool
  supports_speculative_decoding :: bool
  supports_fairness_preemption :: bool
  supports_kv_prefix_transfer :: bool

record BackendFeatureRequirements =
  needs_generation :: bool
  needs_streaming :: bool
  needs_logprobs :: bool
  needs_structured_output :: bool
  needs_embeddings :: bool
  needs_vision :: bool
  needs_speculative_decoding :: bool
  needs_fairness_preemption :: bool

record CapabilityCheckResult =
  cc_supported :: bool
  cc_missing_feature :: string
  cc_reason :: string

definition Missing :: "string \<Rightarrow> string \<Rightarrow> CapabilityCheckResult" where
  "Missing feature reason = \<lparr>cc_supported = False, cc_missing_feature = feature, cc_reason = reason\<rparr>"

definition no_requirements :: BackendFeatureRequirements where
  "no_requirements = \<lparr>needs_generation = False, needs_streaming = False, needs_logprobs = False,
     needs_structured_output = False, needs_embeddings = False, needs_vision = False,
     needs_speculative_decoding = False, needs_fairness_preemption = False\<rparr>"

definition BuildGenerationFeatureRequirements ::
  "bool \<Rightarrow> bool \<Rightarrow> bool \<Rightarrow> bool \<Rightarrow> bool \<Rightarrow> bool \<Rightarrow> BackendFeatureRequirements" where
  "BuildGenerationFeatureRequirements streaming logprobs structured vision speculative preemption =
     no_requirements\<lparr>needs_generation := True, needs_streaming := streaming, needs_logprobs := logprobs,
       needs_structured_output := structured, needs_vision := vision,
       needs_speculative_decoding := speculative, needs_fairness_preemption := preemption\<rparr>"

definition BuildEmbeddingFeatureRequirements :: BackendFeatureRequirements where
  "BuildEmbeddingFeatureRequirements = no_requirements\<lparr>needs_embeddings := True\<rparr>"

definition CheckBackendCapabilities ::
  "BackendCapabilities \<Rightarrow> BackendFeatureRequirements \<Rightarrow> CapabilityCheckResult" where
  "CheckBackendCapabilities c r =
     (if needs_generation r \<and> \<not> supports_generation c
      then Missing ''generation'' ''Selected model does not support text generation''
      else if needs_structured_output r \<and> \<not> supports_structured_output c
      then Missing ''structured_output'' ''Selected model/backend does not support response_format constraints''
      else if needs_logprobs r \<and> \<not> supports_logprobs c
      then Missing ''logprobs'' ''Selected model/backend does not support logprobs''
      else if needs_streaming r \<and> \<not> supports_streaming c
      then Missing ''streaming'' ''Selected model/backend does not support streaming''
      else if needs_embeddings r \<and> \<not> supports_embeddings c
      then Missing ''embeddings'' ''Selected model/backend does not support embeddings''
      else if needs_vision r \<and> \<not> supports_vision c
      then Missing ''vision'' ''Selected model/backend does not support image inputs''
      else if needs_speculative_decoding r \<and> \<not> supports_speculative_decoding c
      then Missing ''speculative_decoding'' ''Selected model/backend does not support speculative decoding''
      else if needs_fairness_preemption r \<and> \<not> supports_fairness_preemption c
      then Missing ''fairness_preemption'' ''Selected model/backend does not support fairness preemption''
      else \<lparr>cc_supported = True, cc_missing_feature = [], cc_reason = []\<rparr>)"

record ModelInfo =
  mi_id :: string
  mi_path :: string
  mi_backend :: string
  mi_backend_fallback :: bool
  mi_capabilities :: BackendCapabilities
  mi_supports_structured_output :: bool

datatype ModelSelectionStatus = kSelected | kNotFound | kUnsupported | kBackendUnavailable

datatype CapabilityFallbackScope = kAnyCompatible | kSamePathOnly

record ModelSelectionOptions =
  allow_capability_fallback_for_default :: bool
  require_ready_backend :: bool
  capability_fallback_scope :: CapabilityFallbackScope

record ModelSelectionResult =
  ms_status :: ModelSelectionStatus
  ms_info :: "ModelInfo option"
  ms_backend :: "bool option"
  ms_used_fallback :: bool
  ms_fallback_from_backend :: string
  ms_fallback_feature :: string
  ms_missing_feature :: string
  ms_reason :: string

record ModelRouter =
  ListModels :: "ModelInfo list"
  router_Resolve :: "string \<Rightarrow> ModelInfo option"
  router_ResolveExact :: "string \<Rightarrow> ModelInfo option"
  router_GetBackend :: "string \<Rightarrow> bool option"

definition empty_selection :: ModelSelectionResult where
  "empty_selection = \<lparr>ms_status = kNotFound, ms_info = None, ms_backend = None, ms_used_fallback = False,
     ms_fallback_from_backend = [], ms_fallback_feature = [], ms_missing_feature = [], ms_reason = []\<rparr>"

definition IsDefaultModelAlias :: "string \<Rightarrow> bool" where
  "IsDefaultModelAlias v \<longleftrightarrow> ToLower v = ''default''"

definition EffectiveCapabilities :: "ModelInfo \<Rightarrow> BackendCapabilities" where
  "EffectiveCapabilities info =
     (if \<not> mi_supports_structured_output info
      then (mi_capabilities info)\<lparr>supports_structured_output := False\<rparr> else mi_capabilities info)"

definition BackendPreferenceRank :: "string \<Rightarrow> int" where
  "BackendPreferenceRank backend_label =
     (let lowered = ToLower backend_label in
      if lowered = ''cuda'' then 0 else if lowered = ''rocm'' then 1 else if lowered = ''mps'' then 2
      else if lowered = ''mlx'' then 3 else if lowered = ''vulkan'' then 4 else if lowered = ''cpu'' then 5 else 6)"

definition candidate_key :: "ModelInfo \<Rightarrow> int \<times> int \<times> string" where
  "candidate_key c = (BackendPreferenceRank (mi_backend c), if mi_backend_fallback c then 1 else 0, mi_id c)"

definition backend_ready :: "bool option \<Rightarrow> bool" where
  "backend_ready b \<longleftrightarrow> b = Some True"

text \<open>The tests of the loop of \<open>PickFallbackCandidate\<close> that skip a candidate.\<close>

definition eligible ::
  "ModelRouter \<Rightarrow> ModelInfo \<Rightarrow> BackendFeatureRequirements \<Rightarrow> CapabilityFallbackScope \<Rightarrow> bool \<Rightarrow> ModelInfo \<Rightarrow> bool" where
  "eligible router primary requirements scope require_ready c \<longleftrightarrow>
     \<not> (mi_id c = [] \<or> mi_id c = mi_id primary) \<and>
     \<not> (scope = kSamePathOnly \<and> mi_path primary \<noteq> [] \<and> mi_path c \<noteq> mi_path primary) \<and>
     cc_supported (CheckBackendCapabilities (EffectiveCapabilities c) requirements) \<and>
     \<not> (require_ready \<and> \<not> backend_ready (router_GetBackend router (mi_id c)))"

definition PickFallbackCandidate ::
  "ModelRouter \<Rightarrow> ModelInfo \<Rightarrow> BackendFeatureRequirements \<Rightarrow> CapabilityFallbackScope \<Rightarrow> bool \<Rightarrow> string \<Rightarrow>
   ModelSelectionResult option" where
  "PickFallbackCandidate router primary requirements scope require_ready feature =
     map_option
       (\<lambda>c. empty_selection\<lparr>ms_status := kSelected, ms_info := Some c, ms_backend := router_GetBackend router (mi_id c),
              ms_used_fallback := True, ms_fallback_from_backend := mi_backend primary,
              ms_fallback_feature := feature\<rparr>)
       (fold (\<lambda>c best.
                if \<not> eligible router primary requirements scope require_ready c then best
                else case best of
                    None \<Rightarrow> Some c
                  | Some b \<Rightarrow> if \<not> candidate_key c < candidate_key b then best else Some c)
         (ListModels router) None)"

fun CapabilityFallbackScopeToString :: "CapabilityFallbackScope \<Rightarrow> string" where
  "CapabilityFallbackScopeToString kSamePathOnly = ''same_path_only''"
| "CapabilityFallbackScopeToString kAnyCompatible = ''any_compatible''"

definition IsCapabilityFallbackScopeValue :: "string \<Rightarrow> bool" where
  "IsCapabilityFallbackScopeValue v =
     (let normalized = ToLower v
      in normalized = ''same_path'' \<or> normalized = ''same_path_only'' \<or> normalized = ''any'' \<or> normalized = ''any_compatible'')"

definition ParseCapabilityFallbackScope :: "string \<Rightarrow> CapabilityFallbackScope \<Rightarrow> CapabilityFallbackScope" where
  "ParseCapabilityFallbackScope v default_scope =
     (let normalized = ToLower v in
      if normalized = ''same_path'' \<or> normalized = ''same_path_only'' then kSamePathOnly
      else if normalized = ''any'' \<or> normalized = ''any_compatible'' then kAnyCompatible
      else default_scope)"

definition explicit_model_requested :: "string \<Rightarrow> bool" where
  "explicit_model_requested requested \<longleftrightarrow> requested \<noteq> [] \<and> \<not> IsDefaultModelAlias requested"

definition resolved_primary :: "ModelRouter \<Rightarrow> string \<Rightarrow> ModelInfo option" where
  "resolved_primary router requested =
     (if explicit_model_requested requested then router_ResolveExact router requested
      else router_Resolve router [])"

definition SelectModelForRequest ::
  "ModelRouter option \<Rightarrow> string \<Rightarrow> BackendFeatureRequirements \<Rightarrow> ModelSelectionOptions \<Rightarrow> ModelSelectionResult" where
  "SelectModelForRequest router_ptr requested requirements options =
     (case router_ptr of
        None \<Rightarrow> empty_selection\<lparr>ms_reason := ''router unavailable''\<rparr>
      | Some router \<Rightarrow>
          let allow_default_fallback =
                (allow_capability_fallback_for_default options \<and> \<not> explicit_model_requested requested);
              fallback = (\<lambda>primary feature.
                PickFallbackCandidate router primary requirements (capability_fallback_scope options)
                  (require_ready_backend options) feature)
          in case resolved_primary router requested of
              None \<Rightarrow> empty_selection\<lparr>ms_reason := ''model not found''\<rparr>
            | Some primary \<Rightarrow>
                let result = empty_selection\<lparr>ms_info := Some primary\<rparr>;
                    check = CheckBackendCapabilities (EffectiveCapabilities primary) requirements
                in if \<not> cc_supported check then
                     let feature = (if cc_missing_feature check = [] then ''unsupported_feature'' else cc_missing_feature check);
                         unsupported = result\<lparr>ms_status := kUnsupported, ms_missing_feature := cc_missing_feature check,
                           ms_reason := (if cc_reason check = [] then ''Selected model does not support requested features''
                                         else cc_reason check)\<rparr>
                     in (if allow_default_fallback
                         then (case fallback primary feature of Some r \<Rightarrow> r | None \<Rightarrow> unsupported)
                         else unsupported)
                   else
                     let backend = router_GetBackend router (mi_id primary) in
                     if require_ready_backend options \<and> \<not> backend_ready backend then
                       let unavailable = result\<lparr>ms_status := kBackendUnavailable,
                             ms_reason := ''Selected model backend is not ready''\<rparr>
                       in (if allow_default_fallback
                           then (case fallback primary ''backend_unavailable'' of Some r \<Rightarrow> r | None \<Rightarrow> unavailable)
                           else unavailable)
                     else result\<lparr>ms_status := kSelected, ms_backend := backend\<rparr>)"

subsection \<open>The best eligible candidate\<close>

definition better_candidate :: "(ModelInfo \<Rightarrow> bool) \<Rightarrow> ModelInfo \<Rightarrow> ModelInfo option \<Rightarrow> ModelInfo option" where
  "better_candidate E c best =
     (if \<not> E c then best
      else case best of None \<Rightarrow> Some c | Some b \<Rightarrow> if \<not> candidate_key c < candidate_key b then best else Some c)"

lemma better_candidate_fold:
  "case fold (better_candidate E) cs None of
     None \<Rightarrow> \<forall>c \<in> set cs. \<not> E c
   | Some b \<Rightarrow> b \<in> set cs \<and> E b \<and> (\<forall>c \<in> set cs. E c \<longrightarrow> candidate_key b \<le> candidate_key c)"
proof (induction cs rule: rev_induct)
  case (snoc c cs)
  show ?case
  proof (cases "fold (better_candidate E) cs None")
    case None
    then have step: "fold (better_candidate E) (cs @ [c]) None = better_candidate E c None" by simp
    show ?thesis using snoc None unfolding step by (auto simp: better_candidate_def [of E c None])
  next
    case (Some b)
    then have step: "fold (better_candidate E) (cs @ [c]) None = better_candidate E c (Some b)" by simp
    show ?thesis using snoc Some unfolding step
      by (auto simp: better_candidate_def [of E c "Some b"] not_less intro: order.trans less_imp_le)
  qed
qed simp

lemma PickFallbackCandidate_fold:
  "PickFallbackCandidate router primary req scope ready feature =
     map_option
       (\<lambda>c. empty_selection\<lparr>ms_status := kSelected, ms_info := Some c, ms_backend := router_GetBackend router (mi_id c),
              ms_used_fallback := True, ms_fallback_from_backend := mi_backend primary,
              ms_fallback_feature := feature\<rparr>)
       (fold (better_candidate (eligible router primary req scope ready)) (ListModels router) None)"
  unfolding PickFallbackCandidate_def better_candidate_def [abs_def] ..

lemma PickFallbackCandidate_Some:
  assumes "PickFallbackCandidate router primary req scope ready feature = Some r"
  shows "\<exists>c \<in> set (ListModels router).
           eligible router primary req scope ready c \<and>
           (\<forall>c' \<in> set (ListModels router). eligible router primary req scope ready c' \<longrightarrow> candidate_key c \<le> candidate_key c') \<and>
           ms_status r = kSelected \<and> ms_info r = Some c \<and> ms_backend r = router_GetBackend router (mi_id c) \<and> ms_used_fallback r"
proof -
  let ?E = "eligible router primary req scope ready"
  obtain c where c: "fold (better_candidate ?E) (ListModels router) None = Some c"
    using assms by (auto simp: PickFallbackCandidate_fold)
  then show ?thesis
    using assms better_candidate_fold [of "ListModels router" ?E]
    by (intro bexI [of _ c]) (auto simp: PickFallbackCandidate_fold)
qed

lemma PickFallbackCandidate_None:
  "PickFallbackCandidate router primary req scope ready feature = None \<longleftrightarrow>
     (\<forall>c \<in> set (ListModels router). \<not> eligible router primary req scope ready c)"
  using better_candidate_fold [of "ListModels router" "eligible router primary req scope ready"]
  by (cases "fold (better_candidate (eligible router primary req scope ready)) (ListModels router) None")
     (auto simp: PickFallbackCandidate_fold)


definition example_model :: "string \<Rightarrow> string \<Rightarrow> bool \<Rightarrow> ModelInfo" where
  "example_model i b vision =
     \<lparr>mi_id = i, mi_path = ''/m'', mi_backend = b, mi_backend_fallback = False,
      mi_capabilities = \<lparr>supports_generation = True, supports_streaming = True, supports_logprobs = True,
        supports_structured_output = True, supports_embeddings = True, supports_vision = vision,
        supports_speculative_decoding = True, supports_fairness_preemption = True, supports_kv_prefix_transfer = True\<rparr>,
      mi_supports_structured_output = True\<rparr>"

definition example_router :: ModelRouter where
  "example_router =
     \<lparr>ListModels = [example_model ''main'' ''cpu'' False, example_model ''v1'' ''vulkan'' True, example_model ''v2'' ''cuda'' True],
      router_Resolve = (\<lambda>_. Some (example_model ''main'' ''cpu'' False)),
      router_ResolveExact = (\<lambda>_. None), router_GetBackend = (\<lambda>_. Some True)\<rparr>"


subsection \<open>The preference rank and the labels of loaded models\<close>

text \<open>\<open>BackendFactory::CanonicalBackendId\<close>, which names the backend of every model the router loads.\<close>

datatype BackendProvider = kLlamaCpp | kNative
datatype LlamaBackendTarget = kCpu | kCuda | kMps | kRocm | kVulkan | kOpenCL

fun CanonicalBackendId :: "BackendProvider \<Rightarrow> LlamaBackendTarget \<Rightarrow> string" where
  "CanonicalBackendId kNative kCuda = ''inferflux_cuda''"
| "CanonicalBackendId kNative kMps = ''inferflux_mps''"
| "CanonicalBackendId kNative kRocm = ''inferflux_rocm''"
| "CanonicalBackendId kNative kVulkan = ''inferflux_vulkan''"
| "CanonicalBackendId kNative kOpenCL = ''inferflux_opencl''"
| "CanonicalBackendId kNative kCpu = ''inferflux_cpu''"
| "CanonicalBackendId kLlamaCpp kCuda = ''llama_cpp_cuda''"
| "CanonicalBackendId kLlamaCpp kMps = ''llama_cpp_mps''"
| "CanonicalBackendId kLlamaCpp kRocm = ''llama_cpp_rocm''"
| "CanonicalBackendId kLlamaCpp kVulkan = ''llama_cpp_vulkan''"
| "CanonicalBackendId kLlamaCpp kOpenCL = ''llama_cpp_opencl''"
| "CanonicalBackendId kLlamaCpp kCpu = ''llama_cpp_cpu''"

text \<open>
  The preference for accelerated backends does not reach the models the backend factory
  labels: every canonical backend name, of CPU and GPU backends alike, has the last rank, so the
  choice between such fallback candidates is left to the fallback flag and the name.
\<close>
theorem canonical_labels_unranked: "BackendPreferenceRank (CanonicalBackendId provider target) = 6"
  by (induction provider; induction target; code_simp)

end
