(* ===== verification/Simple_Tokenizer.thy ===== *)
theory Simple_Tokenizer
  imports String_Utils "HOL-Library.AList"
begin

section \<open>The simple tokenizer\<close>

text \<open>
  \<open>model/tokenizer/simple_tokenizer.{h,cpp}\<close>: lower-cased words and single punctuation
  characters, numbered in order of first use. \<open>vocab_\<close> is an association list and \<open>reverse_\<close>
  the list of words by number.
\<close>

record SimpleTokenizer =
  vocab :: "(string \<times> int) list"
  reverse :: "string list"

definition SimpleTokenizer_init :: SimpleTokenizer where
  "SimpleTokenizer_init =
     \<lparr>vocab = [(''<bos>'', 1), (''<eos>'', 2)], reverse = [[], ''<bos>'', ''<eos>'']\<rparr>"

definition AddToken :: "string \<Rightarrow> SimpleTokenizer \<Rightarrow> SimpleTokenizer \<times> int" where
  "AddToken token t =
     (case map_of (vocab t) token of
        Some i \<Rightarrow> (t, i)
      | None \<Rightarrow>
          let i = int (length (reverse t))
          in (t\<lparr>vocab := AList.update token i (vocab t), reverse := reverse t @ [token]\<rparr>, i))"

text \<open>The loop of \<open>Tokenize\<close>: the words so far and the current word.\<close>

fun tokenize_loop :: "string \<Rightarrow> string list \<Rightarrow> string \<Rightarrow> string list" where
  "tokenize_loop [] words current = (if current \<noteq> [] then words @ [current] else words)"
| "tokenize_loop (c # cs) words current =
     (if is_alnum c then tokenize_loop cs words (current @ [to_lower c])
      else
        let words1 = (if current \<noteq> [] then words @ [current] else words);
            words2 = (if \<not> is_space c then words1 @ [[c]] else words1)
        in tokenize_loop cs words2 [])"

definition Tokenize :: "string \<Rightarrow> string list" where
  "Tokenize str = tokenize_loop str [] []"

fun add_tokens :: "string list \<Rightarrow> SimpleTokenizer \<Rightarrow> SimpleTokenizer \<times> int list" where
  "add_tokens [] t = (t, [])"
| "add_tokens (w # ws) t =
     (let (t1, i) = AddToken w t; (t2, is) = add_tokens ws t1 in (t2, i # is))"

definition tok_Encode :: "string \<Rightarrow> SimpleTokenizer \<Rightarrow> SimpleTokenizer \<times> int list" where
  "tok_Encode str t =
     (let words = Tokenize str in
      if words = [] then (t, [])
      else let (t1, is) = add_tokens words t in (t1, 1 # is))"

fun decode_loop :: "SimpleTokenizer \<Rightarrow> int list \<Rightarrow> bool \<Rightarrow> string" where
  "decode_loop t [] first_word = []"
| "decode_loop t (token # tokens) first_word =
     (if token \<le> 1 \<or> token \<ge> int (length (reverse t)) then decode_loop t tokens first_word
      else
        let word = reverse t ! nat token in
        (if \<not> first_word \<and> word \<noteq> ''.'' \<and> word \<noteq> '','' \<and> word \<noteq> ''!'' \<and> word \<noteq> ''?'' then '' '' else [])
        @ word @ decode_loop t tokens False)"

definition tok_Decode :: "int list \<Rightarrow> SimpleTokenizer \<Rightarrow> string" where
  "tok_Decode tokens t = decode_loop t tokens True"

subsection \<open>The vocabulary stays a bijection\<close>

definition tokenizer_ok :: "SimpleTokenizer \<Rightarrow> bool" where
  "tokenizer_ok t \<longleftrightarrow>
     3 \<le> length (reverse t) \<and> distinct (drop 1 (reverse t)) \<and>
     (\<forall>w i. map_of (vocab t) w = Some i \<longleftrightarrow> 1 \<le> i \<and> i < int (length (reverse t)) \<and> reverse t ! nat i = w)"

lemma tokenizer_init_ok: "tokenizer_ok SimpleTokenizer_init"
proof -
  have "map_of (vocab SimpleTokenizer_init) w = Some i \<longleftrightarrow>
        1 \<le> i \<and> i < int (length (reverse SimpleTokenizer_init)) \<and> reverse SimpleTokenizer_init ! nat i = w" for w i
  proof -
    have "i = 1 \<or> i = 2" if "1 \<le> i" "i < 3" using that by linarith
    then show ?thesis by (auto simp: SimpleTokenizer_init_def)
  qed
  then show ?thesis by (simp add: tokenizer_ok_def SimpleTokenizer_init_def)
qed

lemma AddToken_ok [invariants]: "tokenizer_ok t \<Longrightarrow> tokenizer_ok (fst (AddToken w t))"
proof (cases "map_of (vocab t) w")
  case (Some i)
  then show "tokenizer_ok t \<Longrightarrow> ?thesis" by (simp add: AddToken_def)
next
  case None
  assume ok: "tokenizer_ok t"
  let ?n = "length (reverse t)"
  have new: "w \<noteq> reverse t ! nat i" if "1 \<le> i" "i < int ?n" for i
    using ok None that unfolding tokenizer_ok_def by (metis option.distinct(1))
  have "w \<notin> set (drop 1 (reverse t))"
  proof
    assume "w \<in> set (drop 1 (reverse t))"
    then obtain k where "k < ?n - 1" "reverse t ! (1 + k) = w" by (auto simp: in_set_conv_nth)
    moreover from this have "Suc k < ?n" by linarith
    ultimately show False using new [of "int (Suc k)"] by (simp del: of_nat_Suc)
  qed
  then have dist: "distinct (drop 1 (reverse t @ [w]))" using ok by (simp add: tokenizer_ok_def)
  have "map_of (AList.update w (int ?n) (vocab t)) v = Some i \<longleftrightarrow>
        1 \<le> i \<and> i < int (Suc ?n) \<and> (reverse t @ [w]) ! nat i = v" for v i
  proof (cases "i = int ?n")
    case True
    then show ?thesis using ok None by (auto simp: update_conv' tokenizer_ok_def nth_append)
  next
    case False
    have "(1 \<le> i \<and> i < int (Suc ?n) \<and> (reverse t @ [w]) ! nat i = v) \<longleftrightarrow>
          (1 \<le> i \<and> i < int ?n \<and> reverse t ! nat i = v)"
      using False by (auto simp: nth_append nat_less_iff)
    also have "\<dots> \<longleftrightarrow> map_of (vocab t) v = Some i" using ok by (simp add: tokenizer_ok_def)
    also have "\<dots> \<longleftrightarrow> map_of (AList.update w (int ?n) (vocab t)) v = Some i"
      using False None by (auto simp: update_conv')
    finally show ?thesis ..
  qed
  then show ?thesis using ok None dist by (simp add: AddToken_def tokenizer_ok_def Let_def)
qed

text \<open>A token keeps its number: encoding only adds words.\<close>

lemma AddToken_stable:
  "tokenizer_ok t \<Longrightarrow> map_of (vocab t) v = Some i \<Longrightarrow> map_of (vocab (fst (AddToken w t))) v = Some i"
  by (auto simp: AddToken_def update_conv' Let_def split: option.split)

lemma AddToken_inverse:
  assumes "tokenizer_ok t"
  shows "reverse (fst (AddToken w t)) ! nat (snd (AddToken w t)) = w"
proof (cases "map_of (vocab t) w")
  case (Some i)
  then have "reverse t ! nat i = w" using assms unfolding tokenizer_ok_def by blast
  then show ?thesis using Some by (simp add: AddToken_def)
qed (simp add: AddToken_def Let_def)

end
