(* ===== verification/Request_Batch.thy ===== *)
theory Request_Batch
  imports Utf8_Assembler String_Utils
begin

section \<open>Requests of the scheduler\<close>

text \<open>
  The data of \<open>scheduler/request_batch.h\<close> and the unified decode-step state machine of
  \<open>scheduler/scheduler.cpp\<close>: how a request is primed for decoding, how generated pieces are
  appended, streamed and cut at stop strings (\<open>runtime/backends/backend_utils.h\<close>), and how its
  result is finalised. Completion text is bytes, as in \<open>std::string\<close>; a \<open>float\<close> that is only
  passed on is a real. The callback \<open>on_token\<close> is a flag together with the list of calls
  made to it; the shared cancellation flag is its value when it is present. Images,
  structured-output details and the embedding vectors are left out of the request record.
\<close>

record SamplingParams =
  temperature :: real
  top_p :: real
  top_k :: int
  min_p :: real
  frequency_penalty :: real
  presence_penalty :: real
  repetition_penalty :: real
  penalty_last_n :: int
  seed :: nat
  logit_bias :: "(int \<times> real) list"

record TokenLogprob =
  lp_token :: string
  lp_logprob :: real
  lp_bytes :: "int list"
  lp_top_logprobs :: "(string \<times> real) list"

record InferenceResult =
  ir_model_id :: string
  ir_completion :: "byte list"
  ir_completion_tokens :: int
  ir_prompt_tokens :: int
  ir_no_backend :: bool
  ir_finish_reason_length :: bool
  ir_logprobs :: "TokenLogprob list"
  ir_cached_prompt_tokens :: int
  ir_duration_ms :: real
  ir_time_to_first_token_ms :: real

definition empty_result :: InferenceResult where
  "empty_result = \<lparr>ir_model_id = [], ir_completion = [], ir_completion_tokens = 0, ir_prompt_tokens = 0,
     ir_no_backend = False, ir_finish_reason_length = False, ir_logprobs = [], ir_cached_prompt_tokens = 0,
     ir_duration_ms = -1, ir_time_to_first_token_ms = -1\<rparr>"

datatype RequestPhase = kPending | kPrefill | kDecode | kFinished | kAborted

record ExecutionState =
  ex_initialized :: bool
  ex_active :: bool
  ex_tokens_generated :: int
  ex_non_emitting_steps :: int
  ex_max_non_emitting_steps :: int
  ex_decode_limit :: int
  ex_current_token :: int
  ex_slice_active :: bool
  ex_in_prefill :: bool
  ex_result :: InferenceResult

record FairnessState =
  fs_priority_level :: int
  fs_service_tokens :: int
  fs_timeslice_tokens :: int
  fs_remaining_decode_tokens :: int
  fs_reported_prompt_tokens :: int
  fs_total_completion_tokens :: int
  fs_last_timeslice_tokens :: int
  fs_yielded :: bool

record InferenceRequest =
  inf_embedding_request :: bool
  inf_id :: nat
  inf_model :: string
  inf_resolved_model :: string
  inf_session_id :: string
  inf_session_lease_acquired :: bool
  inf_prompt :: string
  inf_max_tokens :: int
  inf_priority :: int
  inf_n_past :: int
  inf_sequence_id :: int
  inf_sequence_generation :: nat
  inf_prompt_bpe_tokens :: int
  inf_prefill_offset :: int
  inf_bpe_prompt_tokens :: "int list"
  inf_first_token :: int
  inf_first_piece :: "byte list"
  inf_has_images :: bool
  inf_stream :: bool
  inf_phase :: RequestPhase
  inf_prompt_tokens :: "int list"
  inf_output_tokens :: "int list"
  inf_enqueue_time :: time_point
  inf_first_token_time :: time_point
  inf_accept_time :: time_point
  inf_cache_matched_tokens :: int
  inf_cache_reused_tokens :: int
  inf_cache_session_handles_enabled :: bool
  inf_on_token :: bool
  inf_streamed :: "(byte list \<times> TokenLogprob option) list"
  inf_accumulated_output :: "byte list"
  inf_accumulated_logprobs :: "TokenLogprob list"
  inf_first_logprob :: TokenLogprob
  inf_has_first_logprob :: bool
  inf_output_utf8 :: "byte list"
  inf_cancellation_flag :: "bool option"
  inf_block_table :: "int list"
  inf_is_swapped :: bool
  inf_swapped_host_handles :: "int list"
  inf_collect_logprobs :: bool
  inf_logprob_top_n :: int
  inf_sampling :: SamplingParams
  inf_stop :: "byte list list"
  inf_has_format :: bool
  inf_execution :: ExecutionState
  inf_fairness :: FairnessState

text \<open>A default-initialised request. The clock values are 0, the value of a time point never set.\<close>

definition default_sampling :: SamplingParams where
  "default_sampling = \<lparr>temperature = 1, top_p = 1, top_k = 0, min_p = 0, frequency_penalty = 0, presence_penalty = 0,
     repetition_penalty = 1, penalty_last_n = 64, seed = 2 ^ 32 - 1, logit_bias = []\<rparr>"

definition default_execution :: ExecutionState where
  "default_execution =
     \<lparr>ex_initialized = False, ex_active = True, ex_tokens_generated = 0, ex_non_emitting_steps = 0,
      ex_max_non_emitting_steps = 32, ex_decode_limit = 0, ex_current_token = -1, ex_slice_active = False,
      ex_in_prefill = False, ex_result = empty_result\<rparr>"

definition default_fairness :: FairnessState where
  "default_fairness = \<lparr>fs_priority_level = 0, fs_service_tokens = 0, fs_timeslice_tokens = 0,
     fs_remaining_decode_tokens = -1, fs_reported_prompt_tokens = -1, fs_total_completion_tokens = 0,
     fs_last_timeslice_tokens = 0, fs_yielded = False\<rparr>"

definition default_request :: InferenceRequest where
  "default_request = \<lparr>inf_embedding_request = False, inf_id = 0, inf_model = [], inf_resolved_model = [],
     inf_session_id = [], inf_session_lease_acquired = False, inf_prompt = [], inf_max_tokens = 256,
     inf_priority = 0, inf_n_past = -1, inf_sequence_id = -1, inf_sequence_generation = 0,
     inf_prompt_bpe_tokens = -1, inf_prefill_offset = 0, inf_bpe_prompt_tokens = [], inf_first_token = -1,
     inf_first_piece = [], inf_has_images = False, inf_stream = False, inf_phase = kPending,
     inf_prompt_tokens = [], inf_output_tokens = [], inf_enqueue_time = 0, inf_first_token_time = 0,
     inf_accept_time = 0, inf_cache_matched_tokens = 0, inf_cache_reused_tokens = 0,
     inf_cache_session_handles_enabled = False, inf_on_token = False, inf_streamed = [],
     inf_accumulated_output = [], inf_accumulated_logprobs = [],
     inf_first_logprob = \<lparr>lp_token = [], lp_logprob = 0, lp_bytes = [], lp_top_logprobs = []\<rparr>,
     inf_has_first_logprob = False, inf_output_utf8 = [], inf_cancellation_flag = None, inf_block_table = [],
     inf_is_swapped = False, inf_swapped_host_handles = [], inf_collect_logprobs = False, inf_logprob_top_n = 0,
     inf_sampling = default_sampling, inf_stop = [], inf_has_format = False,
     inf_execution = default_execution, inf_fairness = default_fairness\<rparr>"

abbreviation upd_execution :: "(ExecutionState \<Rightarrow> ExecutionState) \<Rightarrow> InferenceRequest \<Rightarrow> InferenceRequest" where
  "upd_execution f r \<equiv> r\<lparr>inf_execution := f (inf_execution r)\<rparr>"

abbreviation upd_fairness :: "(FairnessState \<Rightarrow> FairnessState) \<Rightarrow> InferenceRequest \<Rightarrow> InferenceRequest" where
  "upd_fairness f r \<equiv> r\<lparr>inf_fairness := f (inf_fairness r)\<rparr>"

abbreviation completion :: "InferenceRequest \<Rightarrow> byte list" where
  "completion r \<equiv> ir_completion (ex_result (inf_execution r))"

definition set_completion :: "byte list \<Rightarrow> InferenceRequest \<Rightarrow> InferenceRequest" where
  "set_completion c = upd_execution (\<lambda>e. e\<lparr>ex_result := (ex_result e)\<lparr>ir_completion := c\<rparr>\<rparr>)"

text \<open>The bytes of a string literal of the source.\<close>

definition bytes_of :: "string \<Rightarrow> byte list" where
  "bytes_of s = map of_char s"

definition kBackendEmptyResponseText :: "byte list" where
  "kBackendEmptyResponseText = bytes_of ''[backend returned empty response]''"

definition IsBackendEmptyResponse :: "InferenceResult \<Rightarrow> bool" where
  "IsBackendEmptyResponse r \<longleftrightarrow>
     \<not> ir_no_backend r \<and> ir_completion_tokens r = 0 \<and> ir_completion r = kBackendEmptyResponseText"

subsection \<open>Requeueing\<close>

definition PrepareDecodeRequeue :: "time_point \<Rightarrow> InferenceRequest \<Rightarrow> InferenceRequest" where
  "PrepareDecodeRequeue t r = r\<lparr>inf_enqueue_time := t, inf_phase := kDecode\<rparr>"

definition PrepareFairnessDecodeRequeue :: "time_point \<Rightarrow> InferenceRequest \<Rightarrow> InferenceRequest" where
  "PrepareFairnessDecodeRequeue t r = PrepareDecodeRequeue t r"

subsection \<open>Stop strings\<close>

definition ends_with :: "'a list \<Rightarrow> 'a list \<Rightarrow> bool" where
  "ends_with s output \<longleftrightarrow> length s \<le> length output \<and> drop (length output - length s) output = s"

text \<open>The trimmed output, the part of the piece to emit, and whether a stop string matched.\<close>

fun ApplyStop :: "byte list \<Rightarrow> byte list \<Rightarrow> byte list list \<Rightarrow> byte list \<times> byte list \<times> bool" where
  "ApplyStop piece output [] = (output, piece, False)"
| "ApplyStop piece output (s # stops) =
     (if s \<noteq> [] \<and> ends_with s output then
        let pre_piece_len = length output - length piece;
            stop_start = length output - length s
        in (take stop_start output,
            if stop_start > pre_piece_len then take (stop_start - pre_piece_len) piece else [],
            True)
      else ApplyStop piece output stops)"

subsection \<open>The unified decode step\<close>

definition HasValidUnifiedStepState :: "InferenceRequest \<Rightarrow> bool" where
  "HasValidUnifiedStepState r \<longleftrightarrow>
     \<not> (inf_n_past r < 0 \<or> inf_sequence_id r < 0) \<and>
     (inf_first_token r \<ge> 0 \<or> ex_initialized (inf_execution r) \<or>
      (inf_n_past r = 0 \<and> inf_bpe_prompt_tokens r \<noteq> []) \<or>
      (inf_n_past r > 0 \<and> inf_bpe_prompt_tokens r \<noteq> [] \<and> inf_prefill_offset r > 0 \<and>
       inf_prefill_offset r < int (length (inf_bpe_prompt_tokens r))))"

definition HasBoundDecodeBackend :: "InferenceRequest \<Rightarrow> nat option \<Rightarrow> bool" where
  "HasBoundDecodeBackend r resolved_backend \<longleftrightarrow>
     resolved_backend \<noteq> None \<and> inf_phase r = kDecode \<and> HasValidUnifiedStepState r"

definition ResolveResultModelId :: "InferenceRequest \<Rightarrow> string" where
  "ResolveResultModelId r = (if inf_resolved_model r = [] then inf_model r else inf_resolved_model r)"

definition AppendGeneratedPiece ::
  "byte list \<Rightarrow> TokenLogprob option \<Rightarrow> InferenceRequest \<Rightarrow> InferenceRequest \<times> bool" where
  "AppendGeneratedPiece raw_piece lp r =
     (let (assembled, pending) = utf8_Append (inf_output_utf8 r) raw_piece;
          r1 = r\<lparr>inf_output_utf8 := pending\<rparr>
      in if out_text assembled = [] then (r1, False)
         else
           let (output, emit_piece, stop_hit) =
                 ApplyStop (out_text assembled) (completion r1 @ out_text assembled) (inf_stop r1);
               r2 = set_completion output r1
           in (if inf_on_token r2 \<and> emit_piece \<noteq> []
               then r2\<lparr>inf_streamed := inf_streamed r2 @ [(emit_piece, lp)]\<rparr> else r2,
               stop_hit))"

definition FinishGeneratedText :: "InferenceRequest \<Rightarrow> InferenceRequest" where
  "FinishGeneratedText r =
     (let (assembled, pending) = utf8_Finish (inf_output_utf8 r);
          r1 = r\<lparr>inf_output_utf8 := pending\<rparr>
      in if out_text assembled = [] then r1
         else
           let r2 = set_completion (completion r1 @ out_text assembled) r1
           in if inf_on_token r2
              then r2\<lparr>inf_streamed := inf_streamed r2 @ [(out_text assembled, None)]\<rparr> else r2)"

definition ResetUnifiedStepState :: "InferenceRequest \<Rightarrow> InferenceRequest" where
  "ResetUnifiedStepState r = r\<lparr>inf_execution := default_execution\<rparr>"

definition reported_prompt :: "InferenceRequest \<Rightarrow> int" where
  "reported_prompt r = (if fs_reported_prompt_tokens (inf_fairness r) \<ge> 0
     then fs_reported_prompt_tokens (inf_fairness r) else int (length (inf_prompt_tokens r)))"

text \<open>The three last assignments of \<open>PrimeUnifiedDecodeStepState\<close> and of \<open>SyncUnifiedDecodeStepProgress\<close>.\<close>

definition sync_accounting :: "InferenceRequest \<Rightarrow> InferenceRequest" where
  "sync_accounting r =
     (let e = inf_execution r
      in upd_fairness (\<lambda>f. f\<lparr>fs_total_completion_tokens := ex_tokens_generated e,
             fs_remaining_decode_tokens := max 0 (ex_decode_limit e - ex_tokens_generated e)\<rparr>)
           (r\<lparr>inf_accumulated_output := completion r\<rparr>))"

text \<open>The assignments before the first branch of \<open>PrimeUnifiedDecodeStepState\<close>.\<close>

definition prime_counters :: "InferenceRequest \<Rightarrow> InferenceRequest" where
  "prime_counters r =
     (let prior = max 0 (fs_total_completion_tokens (inf_fairness r));
          remaining = (if fs_remaining_decode_tokens (inf_fairness r) < 0 then max 0 (inf_max_tokens r - prior)
                       else fs_remaining_decode_tokens (inf_fairness r))
      in upd_execution (\<lambda>e. e\<lparr>ex_initialized := True,
           ex_result := (ex_result e)\<lparr>ir_model_id := ResolveResultModelId r, ir_prompt_tokens := reported_prompt r,
                                      ir_completion := inf_accumulated_output r\<rparr>,
           ex_tokens_generated := prior, ex_decode_limit := prior + remaining,
           ex_max_non_emitting_steps := max (inf_max_tokens r * 8) 32, ex_slice_active := True\<rparr>)
         (ResetUnifiedStepState r))"

text \<open>The branch that consumes the first token sampled by the prefill.\<close>

definition prime_first_token :: "InferenceRequest \<Rightarrow> InferenceRequest" where
  "prime_first_token r =
     (let piece = inf_first_piece r;
          r1 = upd_execution (\<lambda>e. e\<lparr>ex_current_token := inf_first_token r\<rparr>) (r\<lparr>inf_first_piece := []\<rparr>);
          (r2, first_lp) =
            (if inf_collect_logprobs r1 \<and> inf_has_first_logprob r1
             then (r1\<lparr>inf_accumulated_logprobs := inf_accumulated_logprobs r1 @ [inf_first_logprob r1],
                      inf_has_first_logprob := False\<rparr>, Some (inf_first_logprob r1))
             else (r1, None));
          (r3, stop_hit) =
            (if piece \<noteq> []
             then AppendGeneratedPiece piece first_lp
                    (upd_execution (\<lambda>e. e\<lparr>ex_tokens_generated := ex_tokens_generated e + 1\<rparr>) r2)
             else (upd_execution (\<lambda>e. e\<lparr>ex_non_emitting_steps := ex_non_emitting_steps e + 1\<rparr>) r2, False));
          e3 = inf_execution r3
      in if stop_hit \<or> inf_cancellation_flag r3 = Some True \<or>
            ex_non_emitting_steps e3 \<ge> ex_max_non_emitting_steps e3 \<or>
            ex_tokens_generated e3 \<ge> ex_decode_limit e3
         then upd_execution (\<lambda>e. e\<lparr>ex_active := False\<rparr>) r3 else r3)"

definition PrimeUnifiedDecodeStepState :: "InferenceRequest \<Rightarrow> InferenceRequest" where
  "PrimeUnifiedDecodeStepState r =
     (if ex_initialized (inf_execution r) then r
      else
        let r1 = prime_counters r;
            n = int (length (inf_bpe_prompt_tokens r1));
            r2 = (if inf_n_past r1 \<ge> 0 \<and> inf_first_token r1 \<ge> 0 then prime_first_token r1
                  else if inf_n_past r1 = 0 \<and> inf_bpe_prompt_tokens r1 \<noteq> [] then
                    upd_execution (\<lambda>e. e\<lparr>ex_in_prefill := True\<rparr>) r1
                  else if inf_n_past r1 > 0 \<and> inf_bpe_prompt_tokens r1 \<noteq> [] \<and> inf_prefill_offset r1 > 0 \<and>
                          inf_prefill_offset r1 < n then
                    upd_execution (\<lambda>e. e\<lparr>ex_in_prefill := True\<rparr>) (r1\<lparr>inf_n_past := inf_prefill_offset r1\<rparr>)
                  else
                    set_completion (bytes_of ''[batch state error]'') (upd_execution (\<lambda>e. e\<lparr>ex_active := False\<rparr>) r1))
        in sync_accounting r2)"

definition ShouldContinueUnifiedDecodeStep :: "InferenceRequest \<Rightarrow> bool" where
  "ShouldContinueUnifiedDecodeStep r \<longleftrightarrow>
     (let e = inf_execution r
      in ex_initialized e \<and> ex_active e \<and> (ex_in_prefill e \<or> ex_tokens_generated e < ex_decode_limit e))"

definition SyncUnifiedDecodeStepProgress :: "InferenceRequest \<Rightarrow> InferenceRequest" where
  "SyncUnifiedDecodeStepProgress r =
     (if \<not> ex_initialized (inf_execution r) then r
      else
        let r1 = sync_accounting r
        in if ShouldContinueUnifiedDecodeStep r1
           then r1\<lparr>inf_first_token := ex_current_token (inf_execution r1), inf_first_piece := []\<rparr> else r1)"

text \<open>
  \<open>accept_time\<close> and \<open>first_token_time\<close> are 0 when they were never set. Recording of metrics and
  logging are left out.
\<close>

definition ms_between :: "time_point \<Rightarrow> time_point \<Rightarrow> real" where
  "ms_between now t = of_int (now - t) / 1000000"

definition FillResultUsageTelemetry :: "time_point \<Rightarrow> InferenceRequest \<Rightarrow> InferenceResult \<Rightarrow> InferenceResult" where
  "FillResultUsageTelemetry now r result =
     (let result1 = result\<lparr>ir_cached_prompt_tokens := clamp (inf_cache_reused_tokens r) 0 (ir_prompt_tokens result)\<rparr>
      in if inf_accept_time r = 0 then result1
         else
           let result2 = result1\<lparr>ir_duration_ms := ms_between now (inf_accept_time r)\<rparr>
           in if inf_stream r \<and> inf_first_token_time r \<noteq> 0
              then result2\<lparr>ir_time_to_first_token_ms := ms_between (inf_first_token_time r) (inf_accept_time r)\<rparr>
              else result2)"

definition FinalizeUnifiedDecodeStepResult ::
  "InferenceRequest \<Rightarrow> InferenceResult \<Rightarrow> InferenceRequest \<times> InferenceResult" where
  "FinalizeUnifiedDecodeStepResult r result =
     (let r1 = SyncUnifiedDecodeStepProgress (FinishGeneratedText r);
          result1 = result\<lparr>ir_model_id := ResolveResultModelId r1, ir_completion := inf_accumulated_output r1,
            ir_completion_tokens := fs_total_completion_tokens (inf_fairness r1),
            ir_logprobs := (if inf_collect_logprobs r1 then inf_accumulated_logprobs r1 else ir_logprobs result),
            ir_prompt_tokens := reported_prompt r1\<rparr>;
          result2 = (if ir_completion result1 = [] \<and> \<not> ir_no_backend result1
                     then result1\<lparr>ir_completion := kBackendEmptyResponseText\<rparr> else result1);
          r2 = (if inf_collect_logprobs r1 then r1\<lparr>inf_accumulated_logprobs := []\<rparr> else r1);
          r3 = upd_fairness (\<lambda>f. f\<lparr>fs_service_tokens := fs_total_completion_tokens f, fs_yielded := False,
                 fs_timeslice_tokens := 0, fs_last_timeslice_tokens := 0\<rparr>) (r2\<lparr>inf_phase := kFinished\<rparr>)
      in (ResetUnifiedStepState r3, result2))"

subsection \<open>What a stop string does\<close>

lemma ends_with_iff: "ends_with s output \<longleftrightarrow> (\<exists>pre. output = pre @ s)"
proof
  assume "ends_with s output"
  then have "output = take (length output - length s) output @ s"
    unfolding ends_with_def by (metis append_take_drop_id)
  then show "\<exists>pre. output = pre @ s" ..
qed (auto simp: ends_with_def)

lemma ApplyStop_no_stop:
  assumes "\<And>s. s \<in> set stops \<Longrightarrow> s \<noteq> [] \<Longrightarrow> \<not> ends_with s output"
  shows "ApplyStop piece output stops = (output, piece, False)"
  using assms by (induction stops) auto

lemma ApplyStop_stop:
  assumes "s \<in> set stops" "s \<noteq> []" "ends_with s output"
  obtains t where "t \<in> set stops" "t \<noteq> []" "ends_with t output"
    "ApplyStop piece output stops =
       (take (length output - length t) output,
        if length output - length t > length output - length piece
        then take (length output - length t - (length output - length piece)) piece else [], True)"
proof -
  have "\<exists>t. t \<in> set stops \<and> t \<noteq> [] \<and> ends_with t output \<and>
     ApplyStop piece output stops =
       (take (length output - length t) output,
        if length output - length t > length output - length piece
        then take (length output - length t - (length output - length piece)) piece else [], True)"
    using assms
  proof (induction stops)
    case (Cons a stops)
    show ?case
    proof (cases "a \<noteq> [] \<and> ends_with a output")
      case True
      then show ?thesis by (intro exI [of _ a]) (simp add: Let_def)
    next
      case False
      then have "s \<in> set stops" using Cons.prems by auto
      then obtain t where "t \<in> set stops" "t \<noteq> []" "ends_with t output" "ApplyStop piece output stops =
         (take (length output - length t) output,
          if length output - length t > length output - length piece
          then take (length output - length t - (length output - length piece)) piece else [], True)"
        using Cons.IH assms(2,3) by blast
      moreover have "ApplyStop piece output (a # stops) = ApplyStop piece output stops"
        by (simp only: ApplyStop.simps False if_False)
      ultimately show ?thesis by (intro exI [of _ t]) simp
    qed
  qed simp
  then show ?thesis using that by blast
qed

text \<open>The three cases, on the text before the piece, the piece and the stop string.\<close>

lemma ApplyStop_cases:
  obtains (no_stop) "\<And>s. s \<in> set stops \<Longrightarrow> s \<noteq> [] \<Longrightarrow> \<not> ends_with s (pre @ piece)"
      "ApplyStop piece (pre @ piece) stops = (pre @ piece, piece, False)"
    | (within) s body where "s \<in> set stops" "s \<noteq> []" "piece = body @ s"
      "ApplyStop piece (pre @ piece) stops = (pre @ body, body, True)"
    | (straddle) s t keep where "s \<in> set stops" "s \<noteq> []" "t \<noteq> []" "s = t @ piece" "pre = keep @ t"
      "ApplyStop piece (pre @ piece) stops = (keep, [], True)"
proof (cases "\<exists>s \<in> set stops. s \<noteq> [] \<and> ends_with s (pre @ piece)")
  case False
  then have none: "\<And>s. s \<in> set stops \<Longrightarrow> s \<noteq> [] \<Longrightarrow> \<not> ends_with s (pre @ piece)" by blast
  show ?thesis by (rule no_stop [OF none ApplyStop_no_stop [OF none]])
next
  case True
  then obtain s where s: "s \<in> set stops" "s \<noteq> []" "ends_with s (pre @ piece)" by blast
  obtain t where t: "t \<in> set stops" "t \<noteq> []" "ends_with t (pre @ piece)" and
    ap: "ApplyStop piece (pre @ piece) stops =
       (take (length (pre @ piece) - length t) (pre @ piece),
        if length (pre @ piece) - length t > length (pre @ piece) - length piece
        then take (length (pre @ piece) - length t - (length (pre @ piece) - length piece)) piece else [], True)"
    by (rule ApplyStop_stop [OF s, of piece])
  obtain k where k: "pre @ piece = k @ t" using t(3) ends_with_iff by blast
  from k consider (short) body where "pre @ body = k" "piece = body @ t"
    | (long) u where "pre = k @ u" "u @ piece = t"
    unfolding append_eq_append_conv2 by metis
  then show ?thesis
  proof cases
    case short
    have "ApplyStop piece (pre @ piece) stops = (pre @ body, body, True)"
      unfolding ap using short by auto
    then show ?thesis by (rule within [OF t(1,2) short(2)])
  next
    case long
    then show ?thesis
    proof (cases "u = []")
      case True
      then have "ApplyStop piece (pre @ piece) stops = (pre @ [], [], True)" unfolding ap using long by auto
      then show ?thesis by (rule within [OF t(1,2), of "[]", rotated]) (use long True in simp)
    next
      case False
      have "ApplyStop piece (pre @ piece) stops = (k, [], True)" unfolding ap using long by auto
      then show ?thesis by (rule straddle [OF t(1,2) False long(2) [symmetric] long(1)])
    qed
  qed
qed

definition streamed_text :: "InferenceRequest \<Rightarrow> byte list" where
  "streamed_text r = concat (map fst (inf_streamed r))"

lemma completion_set_completion [simp]:
  "completion (set_completion c r) = c" "inf_streamed (set_completion c r) = inf_streamed r"
  "inf_on_token (set_completion c r) = inf_on_token r"
  by (simp_all add: set_completion_def)

lemma AppendGeneratedPiece_texts:
  assumes "inf_on_token r"
    "ApplyStop (out_text (fst (utf8_Append (inf_output_utf8 r) raw)))
       (completion r @ out_text (fst (utf8_Append (inf_output_utf8 r) raw))) (inf_stop r) = (output, shown, hit)"
    "out_text (fst (utf8_Append (inf_output_utf8 r) raw)) \<noteq> []"
  shows "completion (fst (AppendGeneratedPiece raw lp r)) = output \<and>
         streamed_text (fst (AppendGeneratedPiece raw lp r)) = streamed_text r @ shown \<and>
         snd (AppendGeneratedPiece raw lp r) = hit"
  using assms unfolding AppendGeneratedPiece_def streamed_text_def
  by (auto simp: Let_def case_prod_beta)

text \<open>
  C27: What a client of the stream sees. As long as the streamed text equals the completion,
  appending a piece without a stop keeps them equal, and then the completion ends with no stop
  string. When a stop string ends the text, the completion loses exactly that string. If the
  stop string lies inside the new piece, the client still sees exactly the completion; if it
  began in an earlier piece, the client has already received its beginning, \<open>leaked\<close>.
\<close>
theorem stop_string_streaming:
  assumes sync: "inf_on_token r" "streamed_text r = completion r"
    and step: "AppendGeneratedPiece raw lp r = (r', hit)"
  shows "if \<not> hit then
           streamed_text r' = completion r' \<and>
           completion r' = completion r @ out_text (fst (utf8_Append (inf_output_utf8 r) raw)) \<and>
           (completion r' \<noteq> completion r \<longrightarrow> (\<forall>s \<in> set (inf_stop r). s \<noteq> [] \<longrightarrow> \<not> ends_with s (completion r')))
         else \<exists>s \<in> set (inf_stop r). \<exists>leaked.
           s \<noteq> [] \<and> completion r' @ s = completion r @ out_text (fst (utf8_Append (inf_output_utf8 r) raw)) \<and>
           streamed_text r' = completion r' @ leaked \<and>
           leaked = take (length s - length (out_text (fst (utf8_Append (inf_output_utf8 r) raw)))) s"
proof (cases "out_text (fst (utf8_Append (inf_output_utf8 r) raw)) = []")
  case True
  then have "r' = r\<lparr>inf_output_utf8 := snd (utf8_Append (inf_output_utf8 r) raw)\<rparr>" "\<not> hit"
    using step by (auto simp: AppendGeneratedPiece_def Let_def case_prod_beta)
  then show ?thesis using sync True by (simp add: streamed_text_def)
next
  case False
  let ?piece = "out_text (fst (utf8_Append (inf_output_utf8 r) raw))"
  note texts = AppendGeneratedPiece_texts [OF sync(1) _ False, of _ _ _ lp, unfolded step fst_conv snd_conv]
  show ?thesis
  proof (cases rule: ApplyStop_cases [of "inf_stop r" "completion r" ?piece])
    case no_stop
    have "\<not> hit" "completion r' = completion r @ ?piece" "streamed_text r' = completion r @ ?piece"
      using texts [OF no_stop(2)] sync(2) by simp_all
    moreover have "\<forall>s \<in> set (inf_stop r). s \<noteq> [] \<longrightarrow> \<not> ends_with s (completion r @ ?piece)" using no_stop(1) by blast
    ultimately show ?thesis by simp
  next
    case (within s body)
    have "hit" "completion r' = completion r @ body" "streamed_text r' = completion r @ body"
      using texts [OF within(4)] sync(2) by simp_all
    moreover have "completion r @ ?piece = (completion r @ body) @ s" "length s - length ?piece = 0"
      by (simp_all add: within(3))
    ultimately show ?thesis using within(1,2) by (auto intro!: bexI [of _ s])
  next
    case (straddle s t keep)
    have "hit" "completion r' = keep" "streamed_text r' = keep @ t"
      using texts [OF straddle(6)] sync(2) straddle(5) by simp_all
    moreover have "completion r @ ?piece = keep @ s" "t = take (length s - length ?piece) s"
      by (simp_all add: straddle(4,5))
    ultimately show ?thesis using straddle(1,2) by (auto intro!: bexI [of _ s])
  qed
qed

text \<open>A stop string END whose first letter was streamed with the piece before.\<close>

definition straddling_request :: InferenceRequest where
  "straddling_request = set_completion [120, 69]
     (default_request\<lparr>inf_on_token := True, inf_streamed := [([120, 69], None)], inf_stop := [[69, 78, 68]]\<rparr>)"

theorem stop_string_streaming_witness:
  "let r' = fst (AppendGeneratedPiece [78, 68] None straddling_request)
   in snd (AppendGeneratedPiece [78, 68] None straddling_request) \<and>
      completion r' = [120] \<and> streamed_text r' = [120, 69]"
proof -
  let ?a = "AppendGeneratedPiece [78, 68] None straddling_request"
  let ?text = "out_text (fst (utf8_Append (inf_output_utf8 straddling_request) [78, 68]))"
  have sync: "inf_on_token straddling_request" "streamed_text straddling_request = completion straddling_request"
    by (simp_all add: straddling_request_def default_request_def streamed_text_def set_completion_def)
  have consume: "utf8_Append [] [78, 68] = (\<lparr>out_text = [78, 68], replacements = 0\<rparr>, [])" by code_simp
  have fields: "inf_output_utf8 straddling_request = []" "inf_stop straddling_request = [[69, 78, 68]]"
    "completion straddling_request = [120, 69]"
    by (simp_all add: straddling_request_def default_request_def set_completion_def)
  have piece: "?text = [78, 68]" by (simp add: fields consume)
  have hit: "snd ?a"
    by (simp add: AppendGeneratedPiece_def fields consume Let_def ends_with_def set_completion_def)
  from stop_string_streaming [OF sync prod.collapse [of ?a, symmetric]] hit
  obtain s leaked where s: "s \<in> set (inf_stop straddling_request)" "streamed_text (fst ?a) = completion (fst ?a) @ leaked"
    "completion (fst ?a) @ s = completion straddling_request @ ?text" "leaked = take (length s - length ?text) s"
    by auto
  have "s = [69, 78, 68]" using s(1) by (simp add: fields)
  then have "completion (fst ?a) @ [69, 78, 68] = [120] @ [69, 78, 68]" "leaked = [69]"
    using s(3,4) by (simp_all add: fields consume)
  then have "completion (fst ?a) = [120]" "leaked = [69]" by (simp_all only: append_same_eq)
  then show ?thesis using hit s(2) by (simp add: Let_def)
qed

subsection \<open>The decode budget of a request across slices\<close>

text \<open>Tokens generated so far, and tokens that may still be generated.\<close>

definition budget :: "InferenceRequest \<Rightarrow> int" where
  "budget r = fs_total_completion_tokens (inf_fairness r) + fs_remaining_decode_tokens (inf_fairness r)"

lemma AppendGeneratedPiece_frame:
  "ex_tokens_generated (inf_execution (fst (AppendGeneratedPiece raw lp r))) = ex_tokens_generated (inf_execution r)"
  "ex_decode_limit (inf_execution (fst (AppendGeneratedPiece raw lp r))) = ex_decode_limit (inf_execution r)"
  by (simp_all add: AppendGeneratedPiece_def set_completion_def Let_def case_prod_beta)

lemma prime_first_token_counters:
  "ex_tokens_generated (inf_execution (prime_first_token r)) =
     ex_tokens_generated (inf_execution r) + (if inf_first_piece r = [] then 0 else 1)"
  "ex_decode_limit (inf_execution (prime_first_token r)) = ex_decode_limit (inf_execution r)"
  by (simp_all add: prime_first_token_def Let_def case_prod_beta AppendGeneratedPiece_frame)

lemma sync_accounting_counters:
  "fs_total_completion_tokens (inf_fairness (sync_accounting r)) = ex_tokens_generated (inf_execution r)"
  "fs_remaining_decode_tokens (inf_fairness (sync_accounting r)) =
     max 0 (ex_decode_limit (inf_execution r) - ex_tokens_generated (inf_execution r))"
  by (simp_all add: sync_accounting_def Let_def)

lemma prime_counters_counters:
  assumes "0 \<le> fs_total_completion_tokens (inf_fairness r)" "0 \<le> fs_remaining_decode_tokens (inf_fairness r)"
  shows "ex_tokens_generated (inf_execution (prime_counters r)) = fs_total_completion_tokens (inf_fairness r)"
    "ex_decode_limit (inf_execution (prime_counters r)) = budget r"
  using assms by (simp_all add: prime_counters_def budget_def Let_def ResetUnifiedStepState_def)

text \<open>
  Priming a request for a slice, fresh or resumed after a yield, never changes its decode
  budget: the token it consumes moves from the remaining to the generated ones.
\<close>

lemma PrimeUnifiedDecodeStepState_budget:
  assumes "\<not> ex_initialized (inf_execution r)" "0 \<le> fs_total_completion_tokens (inf_fairness r)"
    "0 < fs_remaining_decode_tokens (inf_fairness r)"
  shows "budget (PrimeUnifiedDecodeStepState r) = budget r"
    "0 \<le> fs_remaining_decode_tokens (inf_fairness (PrimeUnifiedDecodeStepState r))"
proof -
  note counters = prime_counters_counters [OF assms(2) less_imp_le [OF assms(3)]]
  let ?p = "PrimeUnifiedDecodeStepState r"
  obtain r2 where r2: "?p = sync_accounting r2"
    "ex_tokens_generated (inf_execution r2) \<in> {fs_total_completion_tokens (inf_fairness r),
       fs_total_completion_tokens (inf_fairness r) + 1}"
    "ex_decode_limit (inf_execution r2) = budget r"
  proof (cases "inf_n_past (prime_counters r) \<ge> 0 \<and> inf_first_token (prime_counters r) \<ge> 0")
    case True
    then show ?thesis using assms(1)
      by (intro that [of "prime_first_token (prime_counters r)"])
        (simp_all add: PrimeUnifiedDecodeStepState_def Let_def prime_first_token_counters counters)
  next
    case False
    then show ?thesis using assms(1) counters
      by (intro that [of "if inf_n_past (prime_counters r) = 0 \<and> inf_bpe_prompt_tokens (prime_counters r) \<noteq> [] then
              upd_execution (\<lambda>e. e\<lparr>ex_in_prefill := True\<rparr>) (prime_counters r)
            else if inf_n_past (prime_counters r) > 0 \<and> inf_bpe_prompt_tokens (prime_counters r) \<noteq> [] \<and>
                inf_prefill_offset (prime_counters r) > 0 \<and>
                inf_prefill_offset (prime_counters r) < int (length (inf_bpe_prompt_tokens (prime_counters r))) then
              upd_execution (\<lambda>e. e\<lparr>ex_in_prefill := True\<rparr>)
                (prime_counters r\<lparr>inf_n_past := inf_prefill_offset (prime_counters r)\<rparr>)
            else set_completion (bytes_of ''[batch state error]'')
                   (upd_execution (\<lambda>e. e\<lparr>ex_active := False\<rparr>) (prime_counters r))"])
        (auto simp: PrimeUnifiedDecodeStepState_def Let_def set_completion_def)
  qed
  then show "budget ?p = budget r" "0 \<le> fs_remaining_decode_tokens (inf_fairness ?p)"
    using assms(3) by (auto simp: sync_accounting_counters budget_def)
qed

end
