(* ===== verification/Fairness.thy ===== *)
theory Fairness
  imports Request_Batch
begin

section \<open>The fairness controller\<close>

text \<open>
  \<open>scheduler/fairness_controller.{h,cpp}\<close>. Requests are shared objects: an entry holds the
  address of its request (none for a null pointer), and \<open>ApplyTimeslice\<close> updates the requests
  in a store.
\<close>

record FairnessConfig =
  high_priority_threshold :: int
  max_timeslice_tokens :: int
  enable_preemption :: bool

record FairnessEntry =
  fe_request :: "nat option"
  fe_priority_level :: int
  fe_queue_index :: nat

record FairnessDecision =
  fd_swap :: bool
  fd_batch_index :: nat
  fd_queue_index :: nat

definition no_swap :: FairnessDecision where
  "no_swap = \<lparr>fd_swap = False, fd_batch_index = 0, fd_queue_index = 0\<rparr>"

definition Evaluate :: "FairnessConfig \<Rightarrow> FairnessEntry list \<Rightarrow> FairnessEntry list \<Rightarrow> FairnessDecision" where
  "Evaluate config batch queue =
     (if \<not> enable_preemption config \<or> batch = [] \<or> queue = [] then no_swap
      else case max_element fe_priority_level queue of
          None \<Rightarrow> no_swap
        | Some high \<Rightarrow>
            if fe_priority_level (queue ! high) < high_priority_threshold config then no_swap
            else case min_element fe_priority_level batch of
                None \<Rightarrow> no_swap
              | Some low \<Rightarrow>
                  if fe_priority_level (batch ! low) \<ge> fe_priority_level (queue ! high) then no_swap
                  else \<lparr>fd_swap = True, fd_batch_index = low, fd_queue_index = high\<rparr>)"

definition timeslice_limit :: "FairnessConfig \<Rightarrow> InferenceRequest \<Rightarrow> int" where
  "timeslice_limit config r =
     (if fs_remaining_decode_tokens (inf_fairness r) > 0
      then min (max_timeslice_tokens config) (fs_remaining_decode_tokens (inf_fairness r))
      else max_timeslice_tokens config)"

definition timeslice_entry :: "FairnessConfig \<Rightarrow> (nat \<Rightarrow> InferenceRequest) \<Rightarrow> FairnessEntry \<Rightarrow> nat \<Rightarrow> InferenceRequest" where
  "timeslice_entry config store e =
     (case fe_request e of
        None \<Rightarrow> store
      | Some a \<Rightarrow>
          if fe_priority_level e \<ge> high_priority_threshold config then store
          else store(a := upd_fairness (\<lambda>f. f\<lparr>fs_timeslice_tokens := timeslice_limit config (store a)\<rparr>) (store a)))"

definition ApplyTimeslice ::
  "FairnessConfig \<Rightarrow> FairnessEntry list \<Rightarrow> (nat \<Rightarrow> InferenceRequest) \<Rightarrow> nat \<Rightarrow> InferenceRequest" where
  "ApplyTimeslice config batch store =
     (if max_timeslice_tokens config \<le> 0 then store else foldl (timeslice_entry config) store batch)"

subsection \<open>The decision\<close>

lemma Evaluate_swap:
  assumes "fd_swap (Evaluate config batch queue)"
  shows "let d = Evaluate config batch queue; low = fd_batch_index d; high = fd_queue_index d in
    enable_preemption config \<and> low < length batch \<and> high < length queue \<and>
    high_priority_threshold config \<le> fe_priority_level (queue ! high) \<and>
    fe_priority_level (batch ! low) < fe_priority_level (queue ! high) \<and>
    (\<forall>e \<in> set batch. fe_priority_level (batch ! low) \<le> fe_priority_level e) \<and>
    (\<forall>e \<in> set queue. fe_priority_level e \<le> fe_priority_level (queue ! high))"
  using assms
  by (auto simp: Evaluate_def no_swap_def Let_def in_set_conv_nth split: if_splits option.splits
      dest!: max_element_SomeD min_element_SomeD)

lemma Evaluate_no_swap:
  assumes "\<not> fd_swap (Evaluate config batch queue)" "enable_preemption config"
    "b \<in> set batch" "q \<in> set queue" "high_priority_threshold config \<le> fe_priority_level q"
  shows "fe_priority_level q \<le> fe_priority_level b"
proof -
  obtain high where high: "max_element fe_priority_level queue = Some high"
    using assms(4) by (cases "max_element fe_priority_level queue") auto
  obtain low where low: "min_element fe_priority_level batch = Some low"
    using assms(3) by (cases "min_element fe_priority_level batch") auto
  have "fe_priority_level q \<le> fe_priority_level (queue ! high)" "fe_priority_level (batch ! low) \<le> fe_priority_level b"
    using max_element_SomeD [OF high] min_element_SomeD [OF low] assms(3,4) by (auto simp: in_set_conv_nth)
  moreover have "batch \<noteq> []" "queue \<noteq> []" using assms(3,4) by auto
  ultimately show ?thesis
    using assms(1,2,5) high low by (auto simp: Evaluate_def no_swap_def split: if_splits)
qed

subsection \<open>Time slices\<close>

lemma timeslice_entry_frame:
  "(timeslice_entry config store e a)\<lparr>inf_fairness := f\<rparr> = (store a)\<lparr>inf_fairness := f\<rparr>"
  "fs_remaining_decode_tokens (inf_fairness (timeslice_entry config store e a)) = fs_remaining_decode_tokens (inf_fairness (store a))"
  by (auto simp: timeslice_entry_def split: option.split)

lemma timeslice_limit_cong:
  "fs_remaining_decode_tokens (inf_fairness r) = fs_remaining_decode_tokens (inf_fairness r') \<Longrightarrow>
   timeslice_limit config r = timeslice_limit config r'"
  by (simp add: timeslice_limit_def)

text \<open>An entry below the threshold gets its slice; a request with no such entry keeps what it had.\<close>

lemma timeslice_fold:
  "fs_timeslice_tokens (inf_fairness (foldl (timeslice_entry config) store batch a)) =
     (if \<exists>e \<in> set batch. fe_request e = Some a \<and> fe_priority_level e < high_priority_threshold config
      then timeslice_limit config (store a) else fs_timeslice_tokens (inf_fairness (store a)))"
proof (induction batch arbitrary: store)
  case (Cons e batch)
  have "timeslice_limit config (timeslice_entry config store e a) = timeslice_limit config (store a)"
    by (rule timeslice_limit_cong) (rule timeslice_entry_frame)
  moreover have "fs_timeslice_tokens (inf_fairness (timeslice_entry config store e a)) =
      (if fe_request e = Some a \<and> fe_priority_level e < high_priority_threshold config
       then timeslice_limit config (store a) else fs_timeslice_tokens (inf_fairness (store a)))"
    by (auto simp: timeslice_entry_def split: option.split)
  ultimately show ?case by (auto simp: Cons.IH)
qed simp

lemma ApplyTimeslice_slice:
  "0 < max_timeslice_tokens config \<Longrightarrow>
   fs_timeslice_tokens (inf_fairness (ApplyTimeslice config batch store a)) =
     (if \<exists>e \<in> set batch. fe_request e = Some a \<and> fe_priority_level e < high_priority_threshold config
      then timeslice_limit config (store a) else fs_timeslice_tokens (inf_fairness (store a)))"
  by (simp add: ApplyTimeslice_def timeslice_fold)

lemma ApplyTimeslice_frame:
  "(ApplyTimeslice config batch store a)\<lparr>inf_fairness := f\<rparr> = (store a)\<lparr>inf_fairness := f\<rparr>"
proof -
  have "(foldl (timeslice_entry config) store batch a)\<lparr>inf_fairness := f\<rparr> = (store a)\<lparr>inf_fairness := f\<rparr>"
    by (induction batch arbitrary: store) (simp_all add: timeslice_entry_frame)
  then show ?thesis by (simp add: ApplyTimeslice_def)
qed

lemma timeslice_limit_bounds:
  "0 < max_timeslice_tokens config \<Longrightarrow>
   0 < timeslice_limit config r \<and> timeslice_limit config r \<le> max_timeslice_tokens config"
  by (auto simp: timeslice_limit_def)

end
