(* ===== verification/Batch_Policy.thy ===== *)
theory Batch_Policy
  imports String_Utils Request_Batch
begin

section \<open>Batch selection policies\<close>

text \<open>
  \<open>scheduler/batch_selection_policy.{h,cpp}\<close> and the policy names of \<open>scheduler/scheduler.cpp\<close>.
  The locale \<open>aging_policy\<close> is what the scheduler relies on: scores age at one rate, priorities
  count one each, and the affinity bonus is bounded. Scores are exact reals.
\<close>

datatype SchedulerBatchPolicy = kPriorityAge | kLpmPriority | kThroughputBalanced

fun SchedulerBatchPolicyToString :: "SchedulerBatchPolicy \<Rightarrow> string" where
  "SchedulerBatchPolicyToString kLpmPriority = ''lpm_priority''"
| "SchedulerBatchPolicyToString kThroughputBalanced = ''throughput_balanced''"
| "SchedulerBatchPolicyToString kPriorityAge = ''priority_age''"

definition IsSchedulerBatchPolicyValue :: "string \<Rightarrow> bool" where
  "IsSchedulerBatchPolicyValue value =
     (let normalized = ToLower value
      in normalized = ''priority_age'' \<or> normalized = ''lpm_priority'' \<or> normalized = ''throughput_balanced'')"

definition ParseSchedulerBatchPolicy :: "string \<Rightarrow> SchedulerBatchPolicy \<Rightarrow> SchedulerBatchPolicy" where
  "ParseSchedulerBatchPolicy value default_policy =
     (let normalized = ToLower value
      in if normalized = ''priority_age'' then kPriorityAge
         else if normalized = ''lpm_priority'' then kLpmPriority
         else if normalized = ''throughput_balanced'' then kThroughputBalanced
         else default_policy)"

record ScoringItem =
  age_ms :: real
  si_priority :: int
  si_sequence :: nat
  si_prefix_affinity_tokens :: real

definition kFairnessAgingDivisorMs :: real where
  "kFairnessAgingDivisorMs = 2000"

definition PriorityAge_Score :: "ScoringItem \<Rightarrow> real" where
  "PriorityAge_Score item = of_int (si_priority item) + age_ms item / kFairnessAgingDivisorMs"

definition LpmPriority_Score :: "ScoringItem \<Rightarrow> real" where
  "LpmPriority_Score item =
     of_int (si_priority item) + age_ms item / kFairnessAgingDivisorMs + si_prefix_affinity_tokens item / 32"

definition ThroughputBalanced_Score :: "ScoringItem \<Rightarrow> real" where
  "ThroughputBalanced_Score item =
     of_int (si_priority item) + age_ms item / kFairnessAgingDivisorMs + si_prefix_affinity_tokens item / 64"

text \<open>The virtual calls through the object \<open>CreateBatchSelectionPolicy\<close> returns.\<close>

fun Score :: "SchedulerBatchPolicy \<Rightarrow> ScoringItem \<Rightarrow> real" where
  "Score kLpmPriority = LpmPriority_Score"
| "Score kThroughputBalanced = ThroughputBalanced_Score"
| "Score kPriorityAge = PriorityAge_Score"

fun UsesPrefixAffinity :: "SchedulerBatchPolicy \<Rightarrow> bool" where
  "UsesPrefixAffinity kLpmPriority = True"
| "UsesPrefixAffinity kThroughputBalanced = True"
| "UsesPrefixAffinity kPriorityAge = False"

subsection \<open>Names\<close>

lemma ParseSchedulerBatchPolicy_ToString [simp]:
  "ParseSchedulerBatchPolicy (SchedulerBatchPolicyToString p) d = p"
  by (induction p) code_simp+

lemma IsSchedulerBatchPolicyValue_parse:
  "IsSchedulerBatchPolicyValue v \<longleftrightarrow> (\<exists>p. \<forall>d. ParseSchedulerBatchPolicy v d = p)"
proof
  assume "\<exists>p. \<forall>d. ParseSchedulerBatchPolicy v d = p"
  then have "ParseSchedulerBatchPolicy v kPriorityAge = ParseSchedulerBatchPolicy v kLpmPriority" by metis
  then show "IsSchedulerBatchPolicyValue v"
    by (auto simp: ParseSchedulerBatchPolicy_def IsSchedulerBatchPolicyValue_def Let_def split: if_splits)
qed (auto simp: ParseSchedulerBatchPolicy_def IsSchedulerBatchPolicyValue_def Let_def)

subsection \<open>The contract of a policy\<close>

locale aging_policy =
  fixes score :: "ScoringItem \<Rightarrow> real"
  assumes ages: "score (i\<lparr>age_ms := age_ms i + d\<rparr>) = score i + d / 2000"
    and priority: "score (i\<lparr>si_priority := p\<rparr>) = score i + of_int (p - si_priority i)"
    and affinity: "0 \<le> si_prefix_affinity_tokens i \<Longrightarrow>
      score (i\<lparr>si_prefix_affinity_tokens := 0\<rparr>) \<le> score i \<and>
      score i \<le> score (i\<lparr>si_prefix_affinity_tokens := 0\<rparr>) + si_prefix_affinity_tokens i / 32"
    and sequence: "score (i\<lparr>si_sequence := n\<rparr>) = score i"
begin

lemma score_from_zero:
  "score i = score \<lparr>age_ms = 0, si_priority = 0, si_sequence = 0,
       si_prefix_affinity_tokens = si_prefix_affinity_tokens i\<rparr> + of_int (si_priority i) + age_ms i / 2000"
  using ages [where i = "i\<lparr>age_ms := 0, si_priority := 0, si_sequence := 0\<rparr>" and d = "age_ms i"]
    priority [where i = "i\<lparr>si_priority := 0, si_sequence := 0\<rparr>" and p = "si_priority i"]
    sequence [where i = i and n = 0]
  by (cases i) simp

text \<open>The order of two waiting requests does not depend on when it is looked at.\<close>

lemma gap_constant:
  "score (a\<lparr>age_ms := age_ms a + d\<rparr>) - score (b\<lparr>age_ms := age_ms b + d\<rparr>) = score a - score b"
  by (simp add: ages)

text \<open>Waiting beats priority and affinity.\<close>

lemma waiting_wins:
  assumes "2000 * (of_int (si_priority b - si_priority a) + si_prefix_affinity_tokens b / 32) < age_ms a - age_ms b"
    "0 \<le> si_prefix_affinity_tokens a" "0 \<le> si_prefix_affinity_tokens b"
  shows "score b < score a"
proof -
  let ?z = "\<lambda>i. \<lparr>age_ms = 0, si_priority = 0, si_sequence = 0, si_prefix_affinity_tokens = si_prefix_affinity_tokens i\<rparr>"
  have "score (?z a) \<ge> score \<lparr>age_ms = 0, si_priority = 0, si_sequence = 0, si_prefix_affinity_tokens = 0\<rparr>"
    "score (?z b) \<le> score \<lparr>age_ms = 0, si_priority = 0, si_sequence = 0, si_prefix_affinity_tokens = 0\<rparr>
       + si_prefix_affinity_tokens b / 32"
    using affinity [where i = "?z a"] affinity [where i = "?z b"] assms(2,3) by simp_all
  then show ?thesis using assms(1) score_from_zero [of a] score_from_zero [of b] by simp
qed

end

interpretation priority_age_policy: aging_policy PriorityAge_Score
  by unfold_locales (auto simp: PriorityAge_Score_def kFairnessAgingDivisorMs_def add_divide_distrib)

interpretation lpm_policy: aging_policy LpmPriority_Score
  by unfold_locales (auto simp: LpmPriority_Score_def kFairnessAgingDivisorMs_def add_divide_distrib)

interpretation balanced_policy: aging_policy ThroughputBalanced_Score
  by unfold_locales (auto simp: ThroughputBalanced_Score_def kFairnessAgingDivisorMs_def add_divide_distrib)

lemmas policy_laws = priority_age_policy.aging_policy_axioms lpm_policy.aging_policy_axioms balanced_policy.aging_policy_axioms

lemma Score_aging_policy: "aging_policy (Score p)"
  by (cases p) (simp_all add: policy_laws)

end
