(* ===== verification/Scheduler_Batch.thy ===== *)
theory Scheduler_Batch
  imports Radix_Prefix_Cache Model_Selection Simple_Tokenizer Fairness Batch_Policy
    "HOL-Library.Sublist"
begin

section \<open>Queues and batches of the scheduler\<close>

text \<open>
  The queues of \<open>scheduler/scheduler.cpp\<close>: admission (\<open>Generate\<close>), batch building
  (\<open>BuildBatchLocked\<close>), the fairness pass over a batch (\<open>ApplyFairness\<close>), swapping of a
  request's KV blocks, and the normalisation of the configuration. A pending request is a shared
  object; its address is its sequence number, which \<open>Generate\<close> draws from a counter, and the
  queues hold addresses into a store. The prefix cache and the KV cache are the models of
  their components. What the scheduler asks of its environment (environment variables, which
  backends are alive, their names and capabilities, the router) is the record \<open>sched_env\<close>.
  Metrics, logging and tracing are left out.
\<close>

definition size_t_of :: "int \<Rightarrow> nat" where
  "size_t_of i = nat (i mod 2 ^ 64)"

subsection \<open>Configuration\<close>

text \<open>The ratio is \<^const>\<open>None\<close> when the double is not finite.\<close>

record SchedulerConfig =
  max_batch_size :: int
  max_batch_tokens :: int
  min_batch_size :: int
  batch_accumulation_ms :: int
  batch_policy :: SchedulerBatchPolicy
  decode_burst_tokens :: int
  chunked_prefill_tokens :: int
  mixed_prefill_budget_ratio :: "real option"
  session_handles_enabled :: bool
  session_ttl_ms :: int
  session_max_sessions :: int

definition NormalizeSchedulerConfig :: "SchedulerConfig \<Rightarrow> SchedulerConfig" where
  "NormalizeSchedulerConfig raw =
     (let size1 = (if max_batch_size raw \<le> 0 then 1 else max_batch_size raw);
          size2 = (if size1 > 64 then 64 else size1);
          tokens1 = (if max_batch_tokens raw \<le> 0 then 1 else max_batch_tokens raw);
          tokens2 = (if tokens1 > 131072 then 131072 else tokens1)
      in raw\<lparr>max_batch_size := size2, max_batch_tokens := tokens2,
             decode_burst_tokens := max 0 (decode_burst_tokens raw),
             chunked_prefill_tokens := max 1 (chunked_prefill_tokens raw),
             mixed_prefill_budget_ratio :=
               Some (clamp (case mixed_prefill_budget_ratio raw of None \<Rightarrow> 1 | Some x \<Rightarrow> x) 0 1),
             session_ttl_ms := max 1 (session_ttl_ms raw),
             session_max_sessions := max 1 (session_max_sessions raw)\<rparr>)"

subsection \<open>State\<close>

record PendingRequest =
  pr_inference :: InferenceRequest
  pr_enqueue_time :: time_point
  pr_priority :: int
  pr_priority_level :: int
  pr_sequence :: nat
  pr_resolved_backend :: "nat option"

record BatchSelection =
  bs_batch_requests :: "nat list"
  bs_pending :: "nat list"
  bs_total_tokens :: nat

record Scheduler =
  sch_store :: "nat \<Rightarrow> PendingRequest"
  pending_prefill :: "nat list"
  pending_decode :: "nat list"
  next_sequence :: nat
  sch_config :: SchedulerConfig
  fairness_config :: FairnessConfig
  fairness_controller :: FairnessConfig
  use_decode_workers :: bool
  sch_cache :: "PagedKVCache option"
  sch_prefix_cache :: "RadixPrefixCache option"
  sch_tokenizer :: SimpleTokenizer

record sched_env =
  se_getenv :: "string \<Rightarrow> string option"
  se_alive :: "nat \<Rightarrow> bool"
  se_backend_name :: "nat \<Rightarrow> string"
  se_supports_logprob_capture :: "nat \<Rightarrow> bool"
  se_router :: "ModelRouter option"
  se_get_backend :: "string \<Rightarrow> nat option"

definition empty_batch :: BatchSelection where
  "empty_batch = \<lparr>bs_batch_requests = [], bs_pending = [], bs_total_tokens = 0\<rparr>"

subsection \<open>Admission\<close>

definition Generate :: "time_point \<Rightarrow> InferenceRequest \<Rightarrow> Scheduler \<Rightarrow> Scheduler" where
  "Generate now request s =
     (let q = next_sequence s;
          max_tok = (if inf_max_tokens request \<le> 0 then 1 else inf_max_tokens request);
          r1 = ResetUnifiedStepState (upd_fairness (\<lambda>f. f\<lparr>fs_remaining_decode_tokens := max_tok\<rparr>)
                 (request\<lparr>inf_id := q, inf_phase := kPending, inf_session_lease_acquired := False,
                    inf_cache_session_handles_enabled := session_handles_enabled (sch_config s),
                    inf_enqueue_time := now, inf_accept_time := now, inf_max_tokens := max_tok,
                    inf_accumulated_output := []\<rparr>));
          (tok, tokens) = (if inf_prompt_tokens r1 = [] then tok_Encode (inf_prompt r1) (sch_tokenizer s)
                           else (sch_tokenizer s, inf_prompt_tokens r1));
          r2 = upd_fairness (\<lambda>f. f\<lparr>fs_reported_prompt_tokens := int (length tokens)\<rparr>)
                 (r1\<lparr>inf_prompt_tokens := tokens, inf_output_tokens := [], inf_first_token_time := 0, inf_phase := kPending\<rparr>)
      in s\<lparr>sch_tokenizer := tok, next_sequence := q + 1,
           sch_store := (sch_store s)(q := \<lparr>pr_inference = r2, pr_enqueue_time = now, pr_priority = inf_priority request, pr_priority_level = 0,
                                           pr_sequence = q, pr_resolved_backend = None\<rparr>),
           pending_prefill := pending_prefill s @ [q]\<rparr>)"

definition UpdateFairnessConfig :: "FairnessConfig \<Rightarrow> Scheduler \<Rightarrow> Scheduler" where
  "UpdateFairnessConfig config s = s\<lparr>fairness_config := config, fairness_controller := config\<rparr>"

subsection \<open>Swapping\<close>

definition TrySwapIn ::
  "PagedKVCache option \<Rightarrow> InferenceRequest \<Rightarrow> PagedKVCache option \<times> InferenceRequest \<times> bool" where
  "TrySwapIn cache r =
     (case cache of
        None \<Rightarrow> (cache, r, False)
      | Some c \<Rightarrow>
          if \<not> inf_is_swapped r then (cache, r, False)
          else if NumFreeBlocks c < length (inf_swapped_host_handles r) then (cache, r, False)
          else case ReserveBlocks (length (inf_swapped_host_handles r)) c of
              (c1, Inl _) \<Rightarrow> (Some c1, r, False)
            | (c1, Inr target_blocks) \<Rightarrow>
                (case SwapIn (inf_swapped_host_handles r) target_blocks c1 of
                   (c2, Inl _) \<Rightarrow> (Some c2, r, False)
                 | (c2, Inr _) \<Rightarrow>
                     (Some c2, r\<lparr>inf_block_table := target_blocks, inf_swapped_host_handles := [],
                                 inf_is_swapped := False\<rparr>, True)))"

definition TrySwapOut ::
  "PagedKVCache option \<Rightarrow> InferenceRequest \<Rightarrow> PagedKVCache option \<times> InferenceRequest \<times> bool" where
  "TrySwapOut cache r =
     (case cache of
        None \<Rightarrow> (cache, r, False)
      | Some c \<Rightarrow>
          if inf_is_swapped r \<or> inf_block_table r = [] then (cache, r, False)
          else case SwapOut (inf_block_table r) c of
              (c1, Inl _) \<Rightarrow> (Some c1, r, False)
            | (c1, Inr handles) \<Rightarrow>
                (Some c1, r\<lparr>inf_swapped_host_handles := handles, inf_block_table := [], inf_is_swapped := True\<rparr>, True))"

subsection \<open>The token cost of a queued request\<close>

definition PhasedLogprobsDisabled :: "(string \<Rightarrow> string option) \<Rightarrow> bool" where
  "PhasedLogprobsDisabled getenv =
     (case getenv ''INFERFLUX_DISABLE_PHASED_LOGPROBS'' of
        None \<Rightarrow> False
      | Some env \<Rightarrow>
          let value = map to_lower env
          in value \<noteq> [] \<and> value \<noteq> ''0'' \<and> value \<noteq> ''false'' \<and> value \<noteq> ''off'')"

definition BackendKeepsLegacyLogprobPath :: "string \<Rightarrow> bool" where
  "BackendKeepsLegacyLogprobPath backend_name \<longleftrightarrow> prefix ''inferflux_'' backend_name"

definition EstimateQueueTokenCost ::
  "(string \<Rightarrow> string option) \<Rightarrow> InferenceRequest \<Rightarrow> bool \<Rightarrow> FairnessConfig \<Rightarrow> bool \<Rightarrow> nat" where
  "EstimateQueueTokenCost getenv r from_decode fc backend_keeps_legacy_logprobs =
     (let stateless = inf_has_images r \<or> inf_has_format r \<or>
            (inf_collect_logprobs r \<and> (PhasedLogprobsDisabled getenv \<or> backend_keeps_legacy_logprobs));
          remaining = fs_remaining_decode_tokens (inf_fairness r)
      in if \<not> from_decode then
           if stateless then max 1 (length (inf_prompt_tokens r) + nat (max 1 (inf_max_tokens r)))
           else max 1 (length (inf_prompt_tokens r))
         else
           let limit1 = (if inf_max_tokens r \<le> 0 then 1 else inf_max_tokens r);
               limit2 = (if remaining \<ge> 0 then min limit1 remaining else limit1);
               slice1 = fs_timeslice_tokens (inf_fairness r);
               slice2 = (if slice1 \<le> 0 \<and> max_timeslice_tokens fc > 0 \<and> inf_priority r < high_priority_threshold fc
                         then if remaining > 0 then min (max_timeslice_tokens fc) remaining else max_timeslice_tokens fc
                         else slice1);
               limit3 = (if slice2 > 0 then min limit2 slice2 else limit2)
           in nat (max 1 limit3))"

subsection \<open>Building a batch\<close>

record QueueItem =
  qi_pending :: nat
  qi_from_decode :: bool
  qi_index :: nat
  qi_affinity :: real

text \<open>The loop over one queue: the items, the indices of duplicates, and the addresses seen.\<close>

fun scan_queue :: "bool \<Rightarrow> nat \<Rightarrow> nat list \<Rightarrow> nat list \<Rightarrow> QueueItem list \<times> nat list \<times> nat list" where
  "scan_queue from_decode i [] seen = ([], [], seen)"
| "scan_queue from_decode i (a # as) seen =
     (if a \<in> set seen then
        let (items, dups, seen') = scan_queue from_decode (Suc i) as seen in (items, i # dups, seen')
      else
        let (items, dups, seen') = scan_queue from_decode (Suc i) as (a # seen)
        in (\<lparr>qi_pending = a, qi_from_decode = from_decode, qi_index = i, qi_affinity = 0\<rparr> # items, dups, seen'))"

definition backend_hint :: "sched_env \<Rightarrow> PendingRequest \<Rightarrow> nat option" where
  "backend_hint env p =
     (case pr_resolved_backend p of
        Some b \<Rightarrow> Some b
      | None \<Rightarrow>
          (case se_router env of
             None \<Rightarrow> None
           | Some router \<Rightarrow>
               let r = pr_inference p;
                   m1 = (if inf_resolved_model r \<noteq> [] then router_ResolveExact router (inf_resolved_model r) else None);
                   m2 = (if m1 = None \<and> inf_model r \<noteq> [] then router_ResolveExact router (inf_model r) else m1);
                   m3 = (if m2 = None then router_Resolve router (inf_model r) else m2)
               in case m3 of
                    None \<Rightarrow> None
                  | Some mi \<Rightarrow> if mi_id mi \<noteq> [] then se_get_backend env (mi_id mi) else None))"

definition probe_tokens :: "InferenceRequest \<Rightarrow> int list" where
  "probe_tokens r = (if inf_bpe_prompt_tokens r \<noteq> [] then inf_bpe_prompt_tokens r else inf_prompt_tokens r)"

fun probe_affinity ::
  "sched_env \<Rightarrow> (nat \<Rightarrow> PendingRequest) \<Rightarrow> QueueItem list \<Rightarrow> RadixPrefixCache \<Rightarrow> QueueItem list \<times> RadixPrefixCache" where
  "probe_affinity env store [] pc = ([], pc)"
| "probe_affinity env store (it # its) pc =
     (let p = store (qi_pending it);
          tokens = probe_tokens (pr_inference p);
          (it', pc') =
            (if qi_from_decode it \<or> inf_embedding_request (pr_inference p) \<or> tokens = [] then (it, pc)
             else
               let (pc1, hit, res) = radix_Lookup (se_alive env) tokens (backend_hint env p) pc
               in (if hit \<and> res_matched_tokens res > 0
                   then it\<lparr>qi_affinity := of_nat (res_matched_tokens res)\<rparr> else it, pc1));
          (its', pc'') = probe_affinity env store its pc'
      in (it' # its', pc''))"

definition scoring_item :: "time_point \<Rightarrow> (nat \<Rightarrow> PendingRequest) \<Rightarrow> QueueItem \<Rightarrow> ScoringItem" where
  "scoring_item now store it =
     (let p = store (qi_pending it)
      in \<lparr>age_ms = ms_between now (pr_enqueue_time p), si_priority = pr_priority p, si_sequence = pr_sequence p,
          si_prefix_affinity_tokens = qi_affinity it\<rparr>)"

text \<open>The order of \<open>std::stable_sort\<close>: descending score, then ascending sequence number.\<close>

definition sort_position :: "SchedulerBatchPolicy \<Rightarrow> time_point \<Rightarrow> (nat \<Rightarrow> PendingRequest) \<Rightarrow> QueueItem \<Rightarrow> real \<times> nat" where
  "sort_position policy now store it =
     (- Score policy (scoring_item now store it), pr_sequence (store (qi_pending it)))"

definition item_cost :: "sched_env \<Rightarrow> FairnessConfig \<Rightarrow> (nat \<Rightarrow> PendingRequest) \<Rightarrow> QueueItem \<Rightarrow> nat" where
  "item_cost env fc store it =
     (let p = store (qi_pending it)
      in EstimateQueueTokenCost (se_getenv env) (pr_inference p) (qi_from_decode it) fc
           (case pr_resolved_backend p of
              None \<Rightarrow> False
            | Some b \<Rightarrow> BackendKeepsLegacyLogprobPath (se_backend_name env b) \<or> \<not> se_supports_logprob_capture env b))"

record select_state =
  ss_store :: "nat \<Rightarrow> PendingRequest"
  ss_cache :: "PagedKVCache option"
  ss_selection :: BatchSelection
  ss_token_budget :: nat
  ss_remove_prefill :: "nat list"
  ss_remove_decode :: "nat list"

definition swap_in_item :: "PagedKVCache option \<Rightarrow> InferenceRequest \<Rightarrow> PagedKVCache option \<times> InferenceRequest \<times> bool" where
  "swap_in_item cache r = (if inf_is_swapped r then TrySwapIn cache r else (cache, r, True))"

definition select_item :: "nat \<Rightarrow> QueueItem \<Rightarrow> PagedKVCache option \<Rightarrow> InferenceRequest \<Rightarrow> select_state \<Rightarrow> select_state" where
  "select_item tokens it cache r st =
     (let a = qi_pending it; sel = ss_selection st
      in st\<lparr>ss_cache := cache,
            ss_store := (ss_store st)(a := (ss_store st a)\<lparr>pr_inference :=
              r\<lparr>inf_phase := if qi_from_decode it then kDecode else kPrefill\<rparr>\<rparr>),
            ss_selection := \<lparr>bs_batch_requests = bs_batch_requests sel @ [a], bs_pending = bs_pending sel @ [a],
                             bs_total_tokens = bs_total_tokens sel + tokens\<rparr>,
            ss_token_budget := ss_token_budget st + tokens,
            ss_remove_prefill := ss_remove_prefill st @ (if qi_from_decode it then [] else [qi_index it]),
            ss_remove_decode := ss_remove_decode st @ (if qi_from_decode it then [qi_index it] else [])\<rparr>)"

fun select_loop :: "sched_env \<Rightarrow> SchedulerConfig \<Rightarrow> FairnessConfig \<Rightarrow> QueueItem list \<Rightarrow> select_state \<Rightarrow> select_state" where
  "select_loop env config fc [] st = st"
| "select_loop env config fc (it # its) st =
     (let tokens = item_cost env fc (ss_store st) it
      in if bs_pending (ss_selection st) \<noteq> [] \<and> ss_token_budget st + tokens > size_t_of (max_batch_tokens config)
         then select_loop env config fc its st
         else
           let (cache, r, ok) = swap_in_item (ss_cache st) (pr_inference (ss_store st (qi_pending it)))
           in if \<not> ok then select_loop env config fc its (st\<lparr>ss_cache := cache\<rparr>)
              else
                let st' = select_item tokens it cache r st
                in if length (bs_pending (ss_selection st')) \<ge> size_t_of (max_batch_size config) then st'
                   else select_loop env config fc its st')"

definition erase_at :: "nat \<Rightarrow> 'a list \<Rightarrow> 'a list" where
  "erase_at i q = take i q @ drop (Suc i) q"

text \<open>Sorted, without repetitions, erased from the last index to the first.\<close>

definition erase_indices :: "'a list \<Rightarrow> nat list \<Rightarrow> 'a list" where
  "erase_indices q indices = foldr erase_at (remdups (sort indices)) q"

text \<open>The queue items with their affinity, and the prefix cache after the probes.\<close>

definition probed_items ::
  "sched_env \<Rightarrow> Scheduler \<Rightarrow> QueueItem list \<Rightarrow> QueueItem list \<times> RadixPrefixCache option" where
  "probed_items env s items =
     (case sch_prefix_cache s of
        Some pc \<Rightarrow>
          if UsesPrefixAffinity (batch_policy (sch_config s)) then
            let (items', pc') = probe_affinity env (sch_store s) items pc in (items', Some pc')
          else (items, Some pc)
      | None \<Rightarrow> (items, None))"

definition BuildBatchLocked :: "sched_env \<Rightarrow> time_point \<Rightarrow> Scheduler \<Rightarrow> Scheduler \<times> BatchSelection" where
  "BuildBatchLocked env now s =
     (if pending_prefill s = [] \<and> pending_decode s = [] then (s, empty_batch)
      else
        let (items1, dup_prefill, seen) = scan_queue False 0 (pending_prefill s) [];
            (items2, dup_decode, _) =
              (if use_decode_workers s then ([], [], seen) else scan_queue True 0 (pending_decode s) seen);
            (items, pc) = probed_items env s (items1 @ items2);
            ordered = sort_key (sort_position (batch_policy (sch_config s)) now (sch_store s)) items;
            st = select_loop env (sch_config s) (fairness_config s) ordered
                   \<lparr>ss_store = sch_store s, ss_cache = sch_cache s, ss_selection = empty_batch, ss_token_budget = 0,
                    ss_remove_prefill = [], ss_remove_decode = []\<rparr>
        in (s\<lparr>sch_store := ss_store st, sch_cache := ss_cache st, sch_prefix_cache := pc,
              pending_prefill := erase_indices (pending_prefill s) (ss_remove_prefill st @ dup_prefill),
              pending_decode := erase_indices (pending_decode s) (ss_remove_decode st @ dup_decode)\<rparr>,
            ss_selection st))"

subsection \<open>The fairness pass\<close>

definition refresh_priority :: "(nat \<Rightarrow> PendingRequest) \<Rightarrow> nat \<Rightarrow> nat \<Rightarrow> PendingRequest" where
  "refresh_priority store a =
     store(a := (store a)\<lparr>pr_inference := upd_fairness (\<lambda>f. f\<lparr>fs_priority_level := inf_priority (pr_inference (store a))\<rparr>)
                                            (pr_inference (store a))\<rparr>)"

definition level :: "(nat \<Rightarrow> PendingRequest) \<Rightarrow> nat \<Rightarrow> int" where
  "level store a = fs_priority_level (inf_fairness (pr_inference (store a)))"

definition fairness_entry :: "(nat \<Rightarrow> PendingRequest) \<Rightarrow> nat \<times> nat \<Rightarrow> FairnessEntry" where
  "fairness_entry store ia = \<lparr>fe_request = Some (snd ia), fe_priority_level = level store (snd ia), fe_queue_index = fst ia\<rparr>"

definition fairness_entries :: "(nat \<Rightarrow> PendingRequest) \<Rightarrow> nat list \<Rightarrow> FairnessEntry list" where
  "fairness_entries store as = map (fairness_entry store) (enumerate 0 as)"

text \<open>The queue and the index a position of \<open>queue_refs\<close> refers to.\<close>

definition remove_queued :: "nat \<Rightarrow> Scheduler \<Rightarrow> Scheduler" where
  "remove_queued k s =
     (if k < length (pending_prefill s) then s\<lparr>pending_prefill := erase_at k (pending_prefill s)\<rparr>
      else s\<lparr>pending_decode := erase_at (k - length (pending_prefill s)) (pending_decode s)\<rparr>)"

definition set_phase :: "RequestPhase \<Rightarrow> nat \<Rightarrow> Scheduler \<Rightarrow> Scheduler" where
  "set_phase ph a s = s\<lparr>sch_store := (sch_store s)(a :=
     (sch_store s a)\<lparr>pr_inference := (pr_inference (sch_store s a))\<lparr>inf_phase := ph\<rparr>\<rparr>)\<rparr>"

definition requeue_displaced :: "nat \<Rightarrow> Scheduler \<Rightarrow> Scheduler" where
  "requeue_displaced d s =
     (if inf_phase (pr_inference (sch_store s d)) = kDecode
      then (set_phase kDecode d s)\<lparr>pending_decode := pending_decode s @ [d]\<rparr>
      else (set_phase kPrefill d s)\<lparr>pending_prefill := pending_prefill s @ [d]\<rparr>)"

definition apply_timeslice :: "FairnessEntry list \<Rightarrow> Scheduler \<Rightarrow> Scheduler" where
  "apply_timeslice entries s =
     s\<lparr>sch_store := (\<lambda>a. (sch_store s a)\<lparr>pr_inference :=
         ApplyTimeslice (fairness_controller s) entries (\<lambda>b. pr_inference (sch_store s b)) a\<rparr>)\<rparr>"

definition ApplyFairness :: "BatchSelection \<Rightarrow> Scheduler \<Rightarrow> Scheduler \<times> BatchSelection" where
  "ApplyFairness sel s =
     (if bs_pending sel = [] then (s, sel)
      else
        let store1 = foldl refresh_priority (sch_store s) (bs_pending sel);
            batch_entries = fairness_entries store1 (bs_pending sel);
            queue_refs = pending_prefill s @ pending_decode s;
            s2 = s\<lparr>sch_store := foldl refresh_priority store1 queue_refs\<rparr>;
            queue_entries = fairness_entries (sch_store s2) queue_refs;
            d = Evaluate (fairness_controller s) batch_entries queue_entries
        in if fd_swap d \<and> fd_batch_index d < length (bs_pending sel) \<and> fd_queue_index d < length queue_refs then
             let queued = queue_refs ! fd_queue_index d;
                 displaced = bs_pending sel ! fd_batch_index d;
                 sel' = sel\<lparr>bs_pending := (bs_pending sel)[fd_batch_index d := queued]\<rparr>;
                 s3 = requeue_displaced displaced (remove_queued (fd_queue_index d) s2);
                 entries = upd_at (fd_batch_index d) (\<lambda>e. e\<lparr>fe_request := Some queued\<rparr>) batch_entries
             in (apply_timeslice entries s3, sel')
           else (apply_timeslice batch_entries s2, sel))"

section \<open>Correctness of the queues\<close>

subsection \<open>Configuration\<close>

lemma NormalizeSchedulerConfig_bounds:
  "let c = NormalizeSchedulerConfig raw in
     1 \<le> max_batch_size c \<and> max_batch_size c \<le> 64 \<and> 1 \<le> max_batch_tokens c \<and> max_batch_tokens c \<le> 131072 \<and>
     0 \<le> decode_burst_tokens c \<and> 1 \<le> chunked_prefill_tokens c \<and>
     (\<exists>x. mixed_prefill_budget_ratio c = Some x \<and> 0 \<le> x \<and> x \<le> 1) \<and>
     1 \<le> session_ttl_ms c \<and> 1 \<le> session_max_sessions c"
  using clamp_bounds [of "0 :: real" 1] by (simp add: NormalizeSchedulerConfig_def Let_def)

definition config_ok :: "SchedulerConfig \<Rightarrow> bool" where
  "config_ok c \<longleftrightarrow> 1 \<le> max_batch_size c \<and> max_batch_size c \<le> 64 \<and> 1 \<le> max_batch_tokens c \<and> max_batch_tokens c \<le> 131072"

lemma NormalizeSchedulerConfig_ok: "config_ok (NormalizeSchedulerConfig raw)"
  using NormalizeSchedulerConfig_bounds [of raw] by (simp add: config_ok_def Let_def)

lemma size_t_of_small [simp]: "0 \<le> i \<Longrightarrow> i < 2 ^ 64 \<Longrightarrow> size_t_of i = nat i"
  by (simp add: size_t_of_def)

subsection \<open>Erasing indices\<close>

lemma nths_all_less: "(\<And>i. i < length q \<Longrightarrow> i \<in> A) \<Longrightarrow> nths q A = q"
proof -
  assume "\<And>i. i < length q \<Longrightarrow> i \<in> A"
  then have "filter (\<lambda>p. snd p \<in> A) (zip q [0..<length q]) = zip q [0..<length q]"
    by (auto simp: set_zip intro!: filter_True)
  then show ?thesis by (simp add: nths_def)
qed

lemma erase_at_nths:
  assumes "\<And>x. x \<in> X \<Longrightarrow> i < x"
  shows "erase_at i (nths q (- X)) = nths q (- insert i X)"
proof (cases "i < length q")
  case True
  have q: "q = take i q @ q ! i # drop (Suc i) q" by (rule id_take_nth_drop [OF True])
  have less: "nths (take i q) (- X) = take i q" "nths (take i q) (- insert i X) = take i q"
    by (rule nths_all_less, use assms in force)+
  have l: "min (length q) i = i" using True by simp
  have "i \<notin> X" using assms by blast
  then have "nths q (- X) = take i q @ q ! i # nths (drop (Suc i) q) {j. Suc (j + i) \<in> - X}"
    by (subst q) (simp add: nths_append less l nths_Cons)
  moreover have "nths q (- insert i X) = take i q @ nths (drop (Suc i) q) {j. Suc (j + i) \<in> - X}"
    by (subst q) (simp add: nths_append less l nths_Cons)
  ultimately show ?thesis using True by (simp add: erase_at_def)
next
  case False
  have "nths q (- X) = q" "nths q (- insert i X) = q"
    by (rule nths_all_less, use assms False in force)+
  then show ?thesis using False by (simp add: erase_at_def)
qed

lemma erase_sorted: "sorted_wrt (<) idx \<Longrightarrow> foldr erase_at idx q = nths q (- set idx)"
proof (induction idx)
  case (Cons i idx)
  then show ?case using erase_at_nths [of "set idx" i q] by simp
qed (simp add: nths_all_less)

lemma erase_indices_nths: "erase_indices q idx = nths q (- set idx)"
  using erase_sorted [of "remdups (sort idx)" q]
  by (simp add: erase_indices_def strict_sorted_iff)

subsection \<open>Scanning a queue\<close>

text \<open>The first occurrence of every address that was not seen before.\<close>

fun dedup :: "nat list \<Rightarrow> nat list \<Rightarrow> nat list" where
  "dedup seen [] = []"
| "dedup seen (a # as) = (if a \<in> set seen then dedup seen as else a # dedup (a # seen) as)"

lemma set_dedup: "set (dedup seen q) = set q - set seen"
  by (induction seen q rule: dedup.induct) auto

lemma distinct_dedup: "distinct (dedup seen q)"
  by (induction seen q rule: dedup.induct) (auto simp: set_dedup)

lemma scan_queue_items:
  assumes "scan_queue d i q seen = (items, dups, seen')"
  shows "map qi_pending items = dedup seen q \<and> set seen' = set seen \<union> set q \<and>
    (\<forall>it \<in> set items. qi_from_decode it = d \<and> qi_affinity it = 0 \<and> i \<le> qi_index it \<and> qi_index it \<notin> set dups) \<and>
    distinct (map qi_index items) \<and> (\<forall>j \<in> set dups. i \<le> j)"
  using assms
proof (induction d i q seen arbitrary: items dups seen' rule: scan_queue.induct)
  case (2 d i a as seen)
  show ?case
  proof (cases "a \<in> set seen")
    case True
    obtain its ds sn where r: "scan_queue d (Suc i) as seen = (its, ds, sn)" by (metis prod_cases3)
    then have out: "items = its" "dups = i # ds" "seen' = sn" using 2(3) True by simp_all
    note ih = 2(1) [OF True r]
    show ?thesis unfolding out using ih True by (auto simp: Suc_le_eq)
  next
    case False
    obtain its ds sn where r: "scan_queue d (Suc i) as (a # seen) = (its, ds, sn)" by (metis prod_cases3)
    then have out: "items = \<lparr>qi_pending = a, qi_from_decode = d, qi_index = i, qi_affinity = 0\<rparr> # its" "dups = ds" "seen' = sn"
      using 2(3) False by simp_all
    note ih = 2(2) [OF False r]
    show ?thesis unfolding out using ih False by (auto simp: Suc_le_eq)
  qed
qed simp

text \<open>What is left of a queue once the indices of duplicates and of selected items are erased.\<close>

lemma scan_queue_rest:
  assumes "scan_queue d i q seen = (items, dups, seen')" "set dups \<subseteq> R"
    "\<And>it. it \<in> set items \<Longrightarrow> qi_index it \<in> R \<longleftrightarrow> qi_pending it \<in> S"
  shows "nths q {j. j + i \<notin> R} = filter (\<lambda>a. a \<notin> S) (dedup seen q)"
  using assms
proof (induction d i q seen arbitrary: items dups seen' rule: scan_queue.induct)
  case (2 d i a as seen)
  have shift: "nths (a # as) {j. j + i \<notin> R} = (if i \<notin> R then [a] else []) @ nths as {j. j + Suc i \<notin> R}"
    by (simp add: nths_Cons)
  show ?case
  proof (cases "a \<in> set seen")
    case True
    obtain its ds sn where r: "scan_queue d (Suc i) as seen = (its, ds, sn)" by (metis prod_cases3)
    then have out: "items = its" "dups = i # ds" using 2(3) True by simp_all
    then have "nths as {j. j + Suc i \<notin> R} = filter (\<lambda>a. a \<notin> S) (dedup seen as)"
      using 2(1) [OF True r] 2(4,5) by auto
    moreover have "i \<in> R" using out 2(4) by simp
    ultimately show ?thesis using True shift by simp
  next
    case False
    obtain its ds sn where r: "scan_queue d (Suc i) as (a # seen) = (its, ds, sn)" by (metis prod_cases3)
    then have out: "items = \<lparr>qi_pending = a, qi_from_decode = d, qi_index = i, qi_affinity = 0\<rparr> # its" "dups = ds"
      using 2(3) False by simp_all
    then have "nths as {j. j + Suc i \<notin> R} = filter (\<lambda>a. a \<notin> S) (dedup (a # seen) as)"
      using 2(2) [OF False r] 2(4,5) by auto
    moreover have "i \<in> R \<longleftrightarrow> a \<in> S"
      using out 2(5) [of "\<lparr>qi_pending = a, qi_from_decode = d, qi_index = i, qi_affinity = 0\<rparr>"] by simp
    ultimately show ?thesis using False shift by simp
  qed
qed simp

lemma scan_queue_erase:
  assumes "scan_queue d 0 q seen = (items, dups, seen')"
    "\<And>it. it \<in> set items \<Longrightarrow> qi_index it \<in> set idx \<longleftrightarrow> qi_pending it \<in> S"
  shows "erase_indices q (idx @ dups) = filter (\<lambda>a. a \<notin> S) (dedup seen q)"
proof -
  have "\<And>it. it \<in> set items \<Longrightarrow> qi_index it \<in> set (idx @ dups) \<longleftrightarrow> qi_pending it \<in> S"
    using assms(2) scan_queue_items [OF assms(1)] by auto
  then have "nths q {j. j + 0 \<notin> set (idx @ dups)} = filter (\<lambda>a. a \<notin> S) (dedup seen q)"
    by (intro scan_queue_rest [OF assms(1)]) auto
  moreover have "{j. j + 0 \<notin> set (idx @ dups)} = - set (idx @ dups)" by auto
  ultimately show ?thesis by (simp add: erase_indices_nths)
qed

subsection \<open>The selection loop\<close>

lemma TrySwapIn_ok: "TrySwapIn cache r = (cache', r', True) \<Longrightarrow> \<not> inf_is_swapped r'"
  by (auto simp: TrySwapIn_def split: option.splits if_splits prod.splits sum.splits)

lemma swap_in_item_ok: "swap_in_item cache r = (cache', r', True) \<Longrightarrow> \<not> inf_is_swapped r'"
  by (auto simp: swap_in_item_def TrySwapIn_ok split: if_splits)

lemma swap_in_item_resident: "\<not> inf_is_swapped r \<Longrightarrow> swap_in_item cache r = (cache, r, True)"
  by (simp add: swap_in_item_def)

lemma select_loop_cases:
  obtains (skip) "select_loop env config fc (it # its) st = select_loop env config fc its st"
      "bs_pending (ss_selection st) \<noteq> []"
    | (swapped) cache where "select_loop env config fc (it # its) st = select_loop env config fc its (st\<lparr>ss_cache := cache\<rparr>)"
      "inf_is_swapped (pr_inference (ss_store st (qi_pending it)))"
    | (select) cache r where
      "swap_in_item (ss_cache st) (pr_inference (ss_store st (qi_pending it))) = (cache, r, True)"
      "bs_pending (ss_selection st) = [] \<or>
       ss_token_budget st + item_cost env fc (ss_store st) it \<le> size_t_of (max_batch_tokens config)"
      "select_loop env config fc (it # its) st =
         (let st' = select_item (item_cost env fc (ss_store st) it) it cache r st
          in if length (bs_pending (ss_selection st')) \<ge> size_t_of (max_batch_size config) then st'
             else select_loop env config fc its st')"
proof -
  let ?full = "bs_pending (ss_selection st) \<noteq> [] \<and>
    ss_token_budget st + item_cost env fc (ss_store st) it > size_t_of (max_batch_tokens config)"
  obtain cache r ok where sw: "swap_in_item (ss_cache st) (pr_inference (ss_store st (qi_pending it))) = (cache, r, ok)"
    by (metis prod_cases3)
  consider "?full" | "\<not> ?full" "\<not> ok" | "\<not> ?full" "ok" by blast
  then show ?thesis
  proof cases
    case 1
    then show ?thesis by (intro skip) (simp_all add: Let_def)
  next
    case 2
    have "inf_is_swapped (pr_inference (ss_store st (qi_pending it)))"
      using sw 2 swap_in_item_resident by (metis prod.inject)
    moreover have "select_loop env config fc (it # its) st = select_loop env config fc its (st\<lparr>ss_cache := cache\<rparr>)"
      using 2 sw by (auto simp: Let_def)
    ultimately show ?thesis by (intro swapped)
  next
    case 3
    then show ?thesis using sw by (intro select [of cache r]) (auto simp: Let_def)
  qed
qed

lemma item_cost_cong: "store' (qi_pending it) = store (qi_pending it) \<Longrightarrow> item_cost env fc store' it = item_cost env fc store it"
  by (simp add: item_cost_def)

text \<open>What the loop selects, as a subsequence of the items it goes through.\<close>

definition selects :: "sched_env \<Rightarrow> FairnessConfig \<Rightarrow> QueueItem list \<Rightarrow> select_state \<Rightarrow> select_state \<Rightarrow> bool" where
  "selects env fc sub st st' \<longleftrightarrow>
     bs_pending (ss_selection st') = bs_pending (ss_selection st) @ map qi_pending sub \<and>
     bs_batch_requests (ss_selection st') = bs_batch_requests (ss_selection st) @ map qi_pending sub \<and>
     ss_remove_prefill st' = ss_remove_prefill st @ map qi_index (filter (\<lambda>it. \<not> qi_from_decode it) sub) \<and>
     ss_remove_decode st' = ss_remove_decode st @ map qi_index (filter qi_from_decode sub) \<and>
     bs_total_tokens (ss_selection st') = bs_total_tokens (ss_selection st) + sum_list (map (item_cost env fc (ss_store st)) sub) \<and>
     (\<forall>a. a \<notin> qi_pending ` set sub \<longrightarrow> ss_store st' a = ss_store st a) \<and>
     (\<forall>it \<in> set sub. \<not> inf_is_swapped (pr_inference (ss_store st' (qi_pending it))) \<and>
        inf_phase (pr_inference (ss_store st' (qi_pending it))) = (if qi_from_decode it then kDecode else kPrefill)) \<and>
     (\<forall>a x. (ss_store st' a)\<lparr>pr_inference := x\<rparr> = (ss_store st a)\<lparr>pr_inference := x\<rparr>)"

lemma select_item_fields:
  "bs_pending (ss_selection (select_item n it cache r st)) = bs_pending (ss_selection st) @ [qi_pending it]"
  "bs_batch_requests (ss_selection (select_item n it cache r st)) = bs_batch_requests (ss_selection st) @ [qi_pending it]"
  "bs_total_tokens (ss_selection (select_item n it cache r st)) = bs_total_tokens (ss_selection st) + n"
  "ss_token_budget (select_item n it cache r st) = ss_token_budget st + n"
  "ss_remove_prefill (select_item n it cache r st) = ss_remove_prefill st @ (if qi_from_decode it then [] else [qi_index it])"
  "ss_remove_decode (select_item n it cache r st) = ss_remove_decode st @ (if qi_from_decode it then [qi_index it] else [])"
  by (simp_all add: select_item_def Let_def)

lemma selects_Nil: "selects env fc [] st st"
  by (simp add: selects_def)

lemma selects_cache: "selects env fc sub (st\<lparr>ss_cache := c\<rparr>) st' = selects env fc sub st st'"
  by (simp add: selects_def)

lemma selects_Cons:
  assumes "swap_in_item cache0 r0 = (cache, r, True)"
    "selects env fc sub (select_item (item_cost env fc (ss_store st) it) it cache r st) st'"
    "qi_pending it \<notin> qi_pending ` set sub"
  shows "selects env fc (it # sub) st st'"
proof -
  let ?st1 = "select_item (item_cost env fc (ss_store st) it) it cache r st"
  have same: "\<And>a. a \<noteq> qi_pending it \<Longrightarrow> ss_store ?st1 a = ss_store st a" by (simp add: select_item_def Let_def)
  have cost: "map (item_cost env fc (ss_store ?st1)) sub = map (item_cost env fc (ss_store st)) sub"
    using assms(3) by (intro map_cong refl item_cost_cong same) (metis imageI)
  have rest: "\<And>a x. (ss_store ?st1 a)\<lparr>pr_inference := x\<rparr> = (ss_store st a)\<lparr>pr_inference := x\<rparr>"
    by (simp add: select_item_def Let_def)
  have it: "ss_store st' (qi_pending it) = ss_store ?st1 (qi_pending it)"
    using assms(2,3) by (simp add: selects_def)
  have r: "inf_phase (pr_inference (ss_store ?st1 (qi_pending it))) = (if qi_from_decode it then kDecode else kPrefill)"
    "\<not> inf_is_swapped (pr_inference (ss_store ?st1 (qi_pending it)))"
    using swap_in_item_ok [OF assms(1)] by (simp_all add: select_item_def Let_def)
  show ?thesis
    using assms(2) unfolding selects_def by (simp add: select_item_fields cost rest it r same)
qed

lemma select_loop_selects:
  assumes "distinct (map qi_pending its)"
  obtains sub where "subseq sub its" "selects env fc sub st (select_loop env config fc its st)"
proof -
  have "\<exists>sub. subseq sub its \<and> selects env fc sub st (select_loop env config fc its st)"
    using assms
  proof (induction its arbitrary: st)
    case Nil
    then show ?case using selects_Nil by fastforce
  next
    case (Cons it its)
    then have d: "distinct (map qi_pending its)" "qi_pending it \<notin> qi_pending ` set its" by auto
    show ?case
    proof (cases rule: select_loop_cases [of env config fc it its st])
      case skip
      then show ?thesis using Cons.IH [OF d(1), of st] by (metis list_emb_Cons)
    next
      case (swapped cache)
      then show ?thesis using Cons.IH [OF d(1), of "st\<lparr>ss_cache := cache\<rparr>"] by (metis list_emb_Cons selects_cache)
    next
      case (select cache r)
      let ?st1 = "select_item (item_cost env fc (ss_store st) it) it cache r st"
      obtain sub where sub: "subseq sub its" "selects env fc sub ?st1 (select_loop env config fc (it # its) st)"
      proof (cases "length (bs_pending (ss_selection ?st1)) \<ge> size_t_of (max_batch_size config)")
        case True
        then show ?thesis using that [of "[]"] select(3) selects_Nil by (simp add: Let_def)
      next
        case False
        then show ?thesis using that Cons.IH [OF d(1), of ?st1] select(3) by (auto simp: Let_def)
      qed
      have "qi_pending it \<notin> qi_pending ` set sub" using d(2) sub(1) by (auto dest: list_emb_set)
      then have "selects env fc (it # sub) st (select_loop env config fc (it # its) st)"
        by (rule selects_Cons [OF select(1) sub(2)])
      then show ?thesis using sub(1) by blast
    qed
  qed
  then show ?thesis using that by blast
qed

text \<open>The two limits.\<close>

lemma select_loop_size:
  assumes "length (bs_pending (ss_selection st)) < size_t_of (max_batch_size config)"
  shows "length (bs_pending (ss_selection (select_loop env config fc its st))) \<le> size_t_of (max_batch_size config)"
  using assms
proof (induction its arbitrary: st)
  case (Cons it its)
  then show ?case
    by (cases rule: select_loop_cases [of env config fc it its st])
      (auto simp: Let_def select_item_fields simp del: select_loop.simps)
qed simp

definition within_tokens :: "SchedulerConfig \<Rightarrow> select_state \<Rightarrow> bool" where
  "within_tokens config st \<longleftrightarrow>
     bs_total_tokens (ss_selection st) = ss_token_budget st \<and>
     (length (bs_pending (ss_selection st)) \<le> 1 \<or> ss_token_budget st \<le> size_t_of (max_batch_tokens config))"

lemma select_loop_tokens: "within_tokens config st \<Longrightarrow> within_tokens config (select_loop env config fc its st)"
proof (induction its arbitrary: st)
  case (Cons it its)
  show ?case
  proof (cases rule: select_loop_cases [of env config fc it its st])
    case skip
    then show ?thesis using Cons by simp
  next
    case (swapped cache)
    have "within_tokens config (st\<lparr>ss_cache := cache\<rparr>)" using Cons.prems by (simp add: within_tokens_def)
    then show ?thesis using Cons.IH swapped by simp
  next
    case (select cache r)
    then have "within_tokens config (select_item (item_cost env fc (ss_store st) it) it cache r st)"
      using Cons.prems by (auto simp: within_tokens_def select_item_fields)
    then show ?thesis using Cons.IH select(3) by (simp add: Let_def)
  qed
qed simp

text \<open>The first item that is not swapped out is always selected.\<close>

lemma select_loop_grows:
  "set (bs_pending (ss_selection st)) \<subseteq> set (bs_pending (ss_selection (select_loop env config fc its st)))"
proof (induction its arbitrary: st)
  case (Cons it its)
  show ?case
  proof (cases rule: select_loop_cases [of env config fc it its st])
    case (swapped cache)
    then show ?thesis using Cons.IH [of "st\<lparr>ss_cache := cache\<rparr>"] by simp
  next
    case (select cache r)
    let ?st1 = "select_item (item_cost env fc (ss_store st) it) it cache r st"
    show ?thesis using Cons.IH [of ?st1] select(3) by (auto simp: Let_def select_item_fields)
  qed (use Cons.IH in simp)
qed simp

lemma select_loop_first:
  assumes "bs_pending (ss_selection st) = []" "\<not> inf_is_swapped (pr_inference (ss_store st (qi_pending it)))"
  shows "qi_pending it \<in> set (bs_pending (ss_selection (select_loop env config fc (it # its) st)))"
proof (cases rule: select_loop_cases [of env config fc it its st])
  case (select cache r)
  let ?st1 = "select_item (item_cost env fc (ss_store st) it) it cache r st"
  have "qi_pending it \<in> set (bs_pending (ss_selection ?st1))" by (simp add: select_item_fields)
  then show ?thesis using select_loop_grows [of ?st1 env config fc its] select(3) by (auto simp: Let_def)
qed (use assms in simp_all)

subsection \<open>A built batch\<close>

definition core :: "QueueItem \<Rightarrow> nat \<times> bool \<times> nat" where
  "core it = (qi_pending it, qi_from_decode it, qi_index it)"

lemma probe_affinity_core: "map core (fst (probe_affinity env store its pc)) = map core its"
  by (induction its arbitrary: pc) (simp_all add: Let_def case_prod_beta core_def)

lemma probed_items_core: "map core (fst (probed_items env s its)) = map core its"
  by (simp add: probed_items_def probe_affinity_core case_prod_beta Let_def split: option.split)

lemma probed_items_no_affinity:
  "\<not> UsesPrefixAffinity (batch_policy (sch_config s)) \<or> sch_prefix_cache s = None \<Longrightarrow> fst (probed_items env s its) = its"
  by (auto simp: probed_items_def split: option.split)

lemma dedup_cong: "set seen = set seen' \<Longrightarrow> dedup seen q = dedup seen' q"
proof (induction seen q arbitrary: seen' rule: dedup.induct)
  case (2 seen a as)
  show ?case
  proof (cases "a \<in> set seen")
    case True
    then show ?thesis using 2(1) [OF True 2(3)] 2(3) by simp
  next
    case False
    then show ?thesis using 2(2) [OF False, of "a # seen'"] 2(3) by simp
  qed
qed simp

text \<open>The items in the order in which they are considered.\<close>

definition collected :: "Scheduler \<Rightarrow> QueueItem list" where
  "collected s =
     (let (items1, _, seen) = scan_queue False 0 (pending_prefill s) []
      in items1 @ (if use_decode_workers s then [] else fst (scan_queue True 0 (pending_decode s) seen)))"

definition ordered :: "sched_env \<Rightarrow> time_point \<Rightarrow> Scheduler \<Rightarrow> QueueItem list" where
  "ordered env now s =
     sort_key (sort_position (batch_policy (sch_config s)) now (sch_store s)) (fst (probed_items env s (collected s)))"

definition start_state :: "Scheduler \<Rightarrow> select_state" where
  "start_state s = \<lparr>ss_store = sch_store s, ss_cache = sch_cache s, ss_selection = empty_batch, ss_token_budget = 0,
     ss_remove_prefill = [], ss_remove_decode = []\<rparr>"

definition final_state :: "sched_env \<Rightarrow> time_point \<Rightarrow> Scheduler \<Rightarrow> select_state" where
  "final_state env now s = select_loop env (sch_config s) (fairness_config s) (ordered env now s) (start_state s)"

lemma BuildBatchLocked_state:
  "let b = BuildBatchLocked env now s; st = final_state env now s; (items1, dups1, seen) = scan_queue False 0 (pending_prefill s) [] in
     snd b = ss_selection st \<and> sch_store (fst b) = ss_store st \<and>
     pending_prefill (fst b) = erase_indices (pending_prefill s) (ss_remove_prefill st @ dups1) \<and>
     pending_decode (fst b) = erase_indices (pending_decode s) (ss_remove_decode st @
       (if use_decode_workers s then [] else fst (snd (scan_queue True 0 (pending_decode s) seen)))) \<and>
     sch_config (fst b) = sch_config s \<and> fairness_config (fst b) = fairness_config s \<and>
     use_decode_workers (fst b) = use_decode_workers s \<and> next_sequence (fst b) = next_sequence s \<and>
     (sch_prefix_cache s = None \<longrightarrow> sch_prefix_cache (fst b) = None)"
proof (cases "pending_prefill s = [] \<and> pending_decode s = []")
  case True
  then have "collected s = []" by (simp add: collected_def)
  then have "ordered env now s = []"
    using probed_items_core [of env s "[]"] by (simp add: ordered_def)
  then show ?thesis
    using True by (simp add: BuildBatchLocked_def final_state_def start_state_def empty_batch_def erase_indices_def)
next
  case False
  obtain items1 dups1 seen where sc: "scan_queue False 0 (pending_prefill s) [] = (items1, dups1, seen)"
    by (metis prod_cases3)
  have pc: "sch_prefix_cache s = None \<Longrightarrow> snd (probed_items env s its) = None" for its
    by (simp add: probed_items_def)
  show ?thesis
    unfolding BuildBatchLocked_def if_not_P [OF False] final_state_def start_state_def ordered_def collected_def sc
    using pc by (simp add: Let_def case_prod_beta del: select_loop.simps)
qed

lemma collected_facts:
  shows "distinct (map qi_pending (collected s))"
    "map qi_pending (collected s) = dedup [] (pending_prefill s) @
       (if use_decode_workers s then [] else dedup (pending_prefill s) (pending_decode s))"
    "\<forall>it \<in> set (collected s). qi_affinity it = 0"
proof -
  obtain items1 dups1 seen where sc: "scan_queue False 0 (pending_prefill s) [] = (items1, dups1, seen)"
    by (metis prod_cases3)
  obtain items2 dups2 seen2 where sc2: "scan_queue True 0 (pending_decode s) seen = (items2, dups2, seen2)"
    by (metis prod_cases3)
  note f1 = scan_queue_items [OF sc] and f2 = scan_queue_items [OF sc2]
  have coll: "collected s = items1 @ (if use_decode_workers s then [] else items2)"
    by (simp add: collected_def sc sc2)
  have dd: "dedup seen (pending_decode s) = dedup (pending_prefill s) (pending_decode s)"
    using f1 by (intro dedup_cong) simp
  show eq: "map qi_pending (collected s) = dedup [] (pending_prefill s) @
       (if use_decode_workers s then [] else dedup (pending_prefill s) (pending_decode s))"
    using f1 f2 dd by (simp add: coll)
  show "distinct (map qi_pending (collected s))"
    unfolding eq by (auto simp: distinct_dedup set_dedup)
  show "\<forall>it \<in> set (collected s). qi_affinity it = 0" using f1 f2 by (auto simp: coll)
qed

lemma ordered_core: "mset (map core (ordered env now s)) = mset (map core (collected s))"
  unfolding ordered_def by (metis mset_map mset_sort probed_items_core)

lemma ordered_pending: "mset (map qi_pending (ordered env now s)) = mset (map qi_pending (collected s))"
proof -
  have "map qi_pending its = map fst (map core its)" for its by (simp add: core_def)
  then show ?thesis using ordered_core [of env now s] by (metis mset_map)
qed

lemma ordered_distinct: "distinct (map qi_pending (ordered env now s))"
  using collected_facts(1) ordered_pending mset_eq_imp_distinct_iff by blast

lemma selected_items:
  obtains sub where "subseq sub (ordered env now s)"
    "selects env (fairness_config s) sub (start_state s) (final_state env now s)"
  unfolding final_state_def by (rule select_loop_selects [OF ordered_distinct])

lemma batch_subset:
  assumes "selects env fc sub (start_state s) st"
  shows "bs_pending (ss_selection st) = map qi_pending sub" "bs_batch_requests (ss_selection st) = map qi_pending sub"
    "ss_remove_prefill st = map qi_index (filter (\<lambda>it. \<not> qi_from_decode it) sub)"
    "ss_remove_decode st = map qi_index (filter qi_from_decode sub)"
  using assms by (simp_all add: selects_def start_state_def empty_batch_def)

text \<open>The indices that are erased are those of the selected requests.\<close>

lemma erased_indices:
  assumes "set (map core sub) \<subseteq> set (map core all)" "distinct (map qi_pending all)" "set items \<subseteq> set all"
    "\<forall>it \<in> set items. qi_from_decode it = d" "\<forall>it \<in> set all. qi_from_decode it = d \<longrightarrow> it \<in> set items"
    "distinct (map qi_index items)" "it \<in> set items"
  shows "qi_index it \<in> set (map qi_index (filter (\<lambda>x. qi_from_decode x = d) sub)) \<longleftrightarrow> qi_pending it \<in> set (map qi_pending sub)"
proof
  assume "qi_index it \<in> set (map qi_index (filter (\<lambda>x. qi_from_decode x = d) sub))"
  then obtain x where x: "x \<in> set sub" "qi_from_decode x = d" "qi_index x = qi_index it" by auto
  then obtain y where y: "y \<in> set all" "core y = core x" using assms(1) by auto
  then have "y \<in> set items" "qi_index y = qi_index it" using assms(5) x by (auto simp: core_def)
  then have "y = it" using assms(6,7) by (auto simp: distinct_map dest: inj_onD)
  then show "qi_pending it \<in> set (map qi_pending sub)" using x y by (auto simp: core_def)
next
  assume "qi_pending it \<in> set (map qi_pending sub)"
  then obtain x where x: "x \<in> set sub" "qi_pending x = qi_pending it" by auto
  then obtain y where y: "y \<in> set all" "core y = core x" using assms(1) by auto
  then have "y = it" using assms(2,3,7) x by (auto simp: distinct_map core_def dest: inj_onD)
  then show "qi_index it \<in> set (map qi_index (filter (\<lambda>x. qi_from_decode x = d) sub))"
    using x y assms(4,7) by (auto simp: core_def)
qed

lemma BuildBatchLocked_queues:
  assumes "BuildBatchLocked env now s = (s', sel)"
  shows "pending_prefill s' = filter (\<lambda>a. a \<notin> set (bs_pending sel)) (dedup [] (pending_prefill s))"
    "pending_decode s' = (if use_decode_workers s then pending_decode s
       else filter (\<lambda>a. a \<notin> set (bs_pending sel)) (dedup (pending_prefill s) (pending_decode s)))"
proof -
  obtain items1 dups1 seen where sc: "scan_queue False 0 (pending_prefill s) [] = (items1, dups1, seen)"
    by (metis prod_cases3)
  obtain items2 dups2 seen2 where sc2: "scan_queue True 0 (pending_decode s) seen = (items2, dups2, seen2)"
    by (metis prod_cases3)
  note f1 = scan_queue_items [OF sc] and f2 = scan_queue_items [OF sc2]
  obtain sub where sub: "subseq sub (ordered env now s)"
    "selects env (fairness_config s) sub (start_state s) (final_state env now s)" by (rule selected_items)
  note b = batch_subset [OF sub(2)]
  note st = BuildBatchLocked_state [of env now s, unfolded assms sc Let_def, simplified]
  have sel: "set (bs_pending sel) = set (map qi_pending sub)" using st b by simp
  have coll: "collected s = items1 @ (if use_decode_workers s then [] else items2)"
    by (simp add: collected_def sc sc2)
  have cores: "set (map core sub) \<subseteq> set (map core (collected s))"
  proof -
    have "set (map core sub) \<subseteq> set (map core (ordered env now s))" using sub(1) by (auto dest: list_emb_set)
    also have "\<dots> = set (map core (collected s))" using ordered_core by (metis set_mset_mset)
    finally show ?thesis .
  qed
  note erased = erased_indices [OF cores collected_facts(1)]
  have d1: "\<forall>it \<in> set items1. qi_from_decode it = False" and d2: "\<forall>it \<in> set items2. qi_from_decode it = True"
    and i1: "distinct (map qi_index items1)" and i2: "distinct (map qi_index items2)" using f1 f2 by blast+
  have e1: "qi_index it \<in> set (ss_remove_prefill (final_state env now s)) \<longleftrightarrow> qi_pending it \<in> set (bs_pending sel)"
    if "it \<in> set items1" for it
  proof -
    have "set items1 \<subseteq> set (collected s)" "\<forall>x \<in> set (collected s). qi_from_decode x = False \<longrightarrow> x \<in> set items1"
      using d2 by (auto simp: coll split: if_splits)
    from erased [OF this(1) d1 this(2) i1 that] show ?thesis unfolding b(3) sel by simp
  qed
  have "erase_indices (pending_prefill s) (ss_remove_prefill (final_state env now s) @ dups1) =
      filter (\<lambda>a. a \<notin> set (bs_pending sel)) (dedup [] (pending_prefill s))"
    by (rule scan_queue_erase [OF sc e1])
  then show "pending_prefill s' = filter (\<lambda>a. a \<notin> set (bs_pending sel)) (dedup [] (pending_prefill s))"
    using st by simp
  show "pending_decode s' = (if use_decode_workers s then pending_decode s
       else filter (\<lambda>a. a \<notin> set (bs_pending sel)) (dedup (pending_prefill s) (pending_decode s)))"
  proof (cases "use_decode_workers s")
    case True
    then have "\<forall>it \<in> set (collected s). \<not> qi_from_decode it" using f1 by (simp add: coll)
    then have "\<forall>it \<in> set sub. \<not> qi_from_decode it" using cores by (fastforce simp: core_def)
    then have "ss_remove_decode (final_state env now s) = []" unfolding b(4) by simp
    then show ?thesis using st True by (simp add: erase_indices_def)
  next
    case False
    have e2: "qi_index it \<in> set (ss_remove_decode (final_state env now s)) \<longleftrightarrow> qi_pending it \<in> set (bs_pending sel)"
      if "it \<in> set items2" for it
    proof -
      have "set items2 \<subseteq> set (collected s)" "\<forall>x \<in> set (collected s). qi_from_decode x = True \<longrightarrow> x \<in> set items2"
        using d1 False by (auto simp: coll)
      from erased [OF this(1) d2 this(2) i2 that] show ?thesis unfolding b(4) sel by simp
    qed
    have "erase_indices (pending_decode s) (ss_remove_decode (final_state env now s) @ dups2) =
        filter (\<lambda>a. a \<notin> set (bs_pending sel)) (dedup seen (pending_decode s))"
      by (rule scan_queue_erase [OF sc2 e2])
    moreover have "dedup seen (pending_decode s) = dedup (pending_prefill s) (pending_decode s)"
      using f1 by (intro dedup_cong) simp
    ultimately show ?thesis using st False by (simp add: sc2)
  qed
qed

definition queued :: "Scheduler \<Rightarrow> nat set" where
  "queued s = set (pending_prefill s) \<union> (if use_decode_workers s then {} else set (pending_decode s))"

lemma collected_queued: "set (map qi_pending (collected s)) = queued s"
  unfolding collected_facts(2) by (auto simp: set_dedup queued_def)

lemma ordered_queued: "set (map qi_pending (ordered env now s)) = queued s"
  using ordered_pending [of env now s] collected_queued [of s] by (metis set_mset_mset)

lemma distinct_subseq: "subseq xs ys \<Longrightarrow> distinct ys \<Longrightarrow> distinct xs"
  by (auto simp: subseq_conv_nths distinct_nthsI)

lemma selected_subset:
  assumes "BuildBatchLocked env now s = (s', sel)"
  shows "set (bs_pending sel) \<subseteq> queued s" "distinct (bs_pending sel)"
proof -
  obtain sub where sub: "subseq sub (ordered env now s)"
    "selects env (fairness_config s) sub (start_state s) (final_state env now s)" by (rule selected_items)
  have sel: "bs_pending sel = map qi_pending sub"
    using BuildBatchLocked_state [of env now s] batch_subset(1) [OF sub(2)] assms by (simp add: Let_def case_prod_beta)
  have "subseq (map qi_pending sub) (map qi_pending (ordered env now s))" using sub(1) by (rule subseq_map)
  then show "distinct (bs_pending sel)" unfolding sel using ordered_distinct by (rule distinct_subseq)
  show "set (bs_pending sel) \<subseteq> queued s"
    unfolding sel ordered_queued [of env now s, symmetric] using sub(1) by (auto dest: list_emb_set)
qed

lemma BuildBatchLocked_partition:
  assumes "BuildBatchLocked env now s = (s', sel)"
  shows "queued s' = queued s - set (bs_pending sel)"
    "mset (bs_pending sel) + mset (pending_prefill s') + (if use_decode_workers s then {#} else mset (pending_decode s'))
       = mset_set (queued s)"
proof -
  let ?P = "\<lambda>a. a \<notin> set (bs_pending sel)"
  let ?d = "dedup [] (pending_prefill s) @ (if use_decode_workers s then [] else dedup (pending_prefill s) (pending_decode s))"
  note q = BuildBatchLocked_queues [OF assms] and sub = selected_subset [OF assms]
  have w: "use_decode_workers s' = use_decode_workers s"
    using BuildBatchLocked_state [of env now s] assms by (simp add: Let_def case_prod_beta)
  show "queued s' = queued s - set (bs_pending sel)" by (auto simp: queued_def w q set_dedup)
  have "mset ?d = mset_set (queued s)"
    using collected_facts(1,2) [of s] collected_queued [of s] by (metis mset_set_set)
  moreover have "mset (bs_pending sel) = mset_set (set (bs_pending sel))" using sub(2) by (simp add: mset_set_set)
  moreover have "mset (filter ?P ?d) = mset_set (queued s - set (bs_pending sel))"
    by (simp add: mset_filter calculation(1) filter_mset_mset_set set_diff_eq queued_def del: filter_append mset_append)
  moreover have "mset (pending_prefill s') + (if use_decode_workers s then {#} else mset (pending_decode s')) = mset (filter ?P ?d)"
    by (simp add: q)
  moreover have "mset_set (set (bs_pending sel)) + mset_set (queued s - set (bs_pending sel)) = mset_set (queued s)"
    using sub(1) by (subst mset_set_Union [symmetric]) (auto simp: queued_def intro: arg_cong [of _ _ mset_set])
  ultimately show "mset (bs_pending sel) + mset (pending_prefill s') +
      (if use_decode_workers s then {#} else mset (pending_decode s')) = mset_set (queued s)"
    by (metis add.assoc)
qed

text \<open>The cost the scheduler charges for a queued request.\<close>

definition queue_cost :: "sched_env \<Rightarrow> Scheduler \<Rightarrow> nat \<Rightarrow> nat" where
  "queue_cost env s a = item_cost env (fairness_config s) (sch_store s)
     \<lparr>qi_pending = a, qi_from_decode = (a \<notin> set (pending_prefill s)), qi_index = 0, qi_affinity = 0\<rparr>"

lemma collected_from_decode:
  assumes "it \<in> set (collected s)"
  shows "qi_from_decode it \<longleftrightarrow> qi_pending it \<notin> set (pending_prefill s)"
proof -
  obtain items1 dups1 seen where sc: "scan_queue False 0 (pending_prefill s) [] = (items1, dups1, seen)"
    by (metis prod_cases3)
  obtain items2 dups2 seen2 where sc2: "scan_queue True 0 (pending_decode s) seen = (items2, dups2, seen2)"
    by (metis prod_cases3)
  note f1 = scan_queue_items [OF sc] and f2 = scan_queue_items [OF sc2]
  have "it \<in> set items1 \<Longrightarrow> qi_pending it \<in> set (dedup [] (pending_prefill s))" using f1 by (metis image_eqI set_map)
  moreover have "it \<in> set items2 \<Longrightarrow> qi_pending it \<in> set (dedup seen (pending_decode s))" using f2 by (metis image_eqI set_map)
  moreover have "it \<in> set items1 \<or> it \<in> set items2" using assms by (auto simp: collected_def sc sc2 split: if_splits)
  ultimately show ?thesis using f1 f2 by (auto simp: set_dedup)
qed

lemma ordered_from_decode:
  assumes "it \<in> set (ordered env now s)"
  shows "qi_from_decode it \<longleftrightarrow> qi_pending it \<notin> set (pending_prefill s)"
proof -
  have "core it \<in> set (map core (collected s))" using assms ordered_core by (metis image_eqI set_map set_mset_mset)
  then show ?thesis using collected_from_decode by (auto simp: core_def)
qed

text \<open>
  C2: Every batch the scheduler builds respects both limits and loses no request. The batch has
  at most \<open>max_batch_size\<close> requests; its charged tokens are the sum of the requests' costs and
  stay within \<open>max_batch_tokens\<close> unless the batch is a single request. Every queued request is
  afterwards exactly once in the batch or in a queue, also when a queue held duplicates; with
  decode workers the decode queue is not touched. Selected requests are resident and in the phase of
  the queue they came from; all other requests are unchanged.
\<close>
theorem build_batch_limits_and_conserves:
  assumes "config_ok (sch_config s)" "BuildBatchLocked env now s = (s', sel)"
  shows "int (length (bs_pending sel)) \<le> max_batch_size (sch_config s) \<and>
    bs_total_tokens sel = sum_list (map (queue_cost env s) (bs_pending sel)) \<and>
    (length (bs_pending sel) \<le> 1 \<or> int (bs_total_tokens sel) \<le> max_batch_tokens (sch_config s)) \<and>
    mset (bs_pending sel) + mset (pending_prefill s') + (if use_decode_workers s then {#} else mset (pending_decode s'))
      = mset_set (queued s) \<and>
    (use_decode_workers s \<longrightarrow> pending_decode s' = pending_decode s) \<and>
    (\<forall>a \<in> set (bs_pending sel). \<not> inf_is_swapped (pr_inference (sch_store s' a)) \<and>
       inf_phase (pr_inference (sch_store s' a)) = (if a \<in> set (pending_prefill s) then kPrefill else kDecode)) \<and>
    (\<forall>a. a \<notin> set (bs_pending sel) \<longrightarrow> sch_store s' a = sch_store s a)"
proof -
  let ?st = "final_state env now s"
  obtain sub where sub: "subseq sub (ordered env now s)" "selects env (fairness_config s) sub (start_state s) ?st"
    by (rule selected_items)
  have st: "sel = ss_selection ?st" "sch_store s' = ss_store ?st"
    using BuildBatchLocked_state [of env now s] assms(2) by (simp_all add: Let_def case_prod_beta)
  have sel: "bs_pending sel = map qi_pending sub" using batch_subset(1) [OF sub(2)] st by simp
  have dec: "qi_from_decode it \<longleftrightarrow> qi_pending it \<notin> set (pending_prefill s)" if "it \<in> set sub" for it
    using ordered_from_decode sub(1) that by (auto dest: list_emb_set)
  have cfg: "size_t_of (max_batch_size (sch_config s)) = nat (max_batch_size (sch_config s))"
    "size_t_of (max_batch_tokens (sch_config s)) = nat (max_batch_tokens (sch_config s))"
    using assms(1) by (simp_all add: config_ok_def)
  have size: "int (length (bs_pending sel)) \<le> max_batch_size (sch_config s)"
    using select_loop_size [of "start_state s" "sch_config s"] assms(1) cfg unfolding st(1) final_state_def
    by (auto simp: start_state_def empty_batch_def config_ok_def le_nat_iff)
  have "within_tokens (sch_config s) ?st"
    unfolding final_state_def by (rule select_loop_tokens) (simp add: within_tokens_def start_state_def empty_batch_def)
  then have tokens: "length (bs_pending sel) \<le> 1 \<or> int (bs_total_tokens sel) \<le> max_batch_tokens (sch_config s)"
    using assms(1) cfg(2) st(1) by (auto simp: within_tokens_def config_ok_def le_nat_iff)
  have "map (item_cost env (fairness_config s) (sch_store s)) sub = map (queue_cost env s) (bs_pending sel)"
    unfolding sel map_map using dec by (intro map_cong refl) (simp add: queue_cost_def item_cost_def)
  then have total: "bs_total_tokens sel = sum_list (map (queue_cost env s) (bs_pending sel))"
    using sub(2) st by (simp add: selects_def start_state_def empty_batch_def)
  have chosen: "\<forall>a \<in> set (bs_pending sel). \<not> inf_is_swapped (pr_inference (sch_store s' a)) \<and>
       inf_phase (pr_inference (sch_store s' a)) = (if a \<in> set (pending_prefill s) then kPrefill else kDecode)"
    using sub(2) st dec unfolding sel selects_def by auto
  have others: "\<forall>a. a \<notin> set (bs_pending sel) \<longrightarrow> sch_store s' a = sch_store s a"
    using sub(2) st sel unfolding selects_def by (auto simp: start_state_def)
  show ?thesis
    using size tokens total chosen others BuildBatchLocked_partition(2) [OF assms(2)] BuildBatchLocked_queues(2) [OF assms(2)]
    by simp
qed

text \<open>Two queued requests, the later one with the higher priority; both do not fit into one batch.\<close>

definition example_env :: sched_env where
  "example_env = \<lparr>se_getenv = (\<lambda>_. None), se_alive = (\<lambda>_. True), se_backend_name = (\<lambda>_. []),
     se_supports_logprob_capture = (\<lambda>_. True), se_router = None, se_get_backend = (\<lambda>_. None)\<rparr>"

definition example_config :: SchedulerConfig where
  "example_config = NormalizeSchedulerConfig \<lparr>max_batch_size = 32, max_batch_tokens = 4, min_batch_size = 1,
     batch_accumulation_ms = 2, batch_policy = kPriorityAge, decode_burst_tokens = 0, chunked_prefill_tokens = 512,
     mixed_prefill_budget_ratio = Some 1, session_handles_enabled = False, session_ttl_ms = 300000,
     session_max_sessions = 1024\<rparr>"

definition example_pending :: "nat \<Rightarrow> int \<Rightarrow> int list \<Rightarrow> PendingRequest" where
  "example_pending a prio tokens =
     \<lparr>pr_inference = default_request\<lparr>inf_id := a, inf_priority := prio, inf_prompt_tokens := tokens\<rparr>,
      pr_enqueue_time = int a, pr_priority = prio, pr_priority_level = 0, pr_sequence = a, pr_resolved_backend = None\<rparr>"

definition example_scheduler :: Scheduler where
  "example_scheduler =
     \<lparr>sch_store = (\<lambda>a. if a = 0 then example_pending 0 0 [1, 2] else example_pending a 7 [1, 2, 3]),
      pending_prefill = [0, 1], pending_decode = [], next_sequence = 2, sch_config = example_config,
      fairness_config = \<lparr>high_priority_threshold = 5, max_timeslice_tokens = 8, enable_preemption = True\<rparr>,
      fairness_controller = \<lparr>high_priority_threshold = 5, max_timeslice_tokens = 8, enable_preemption = True\<rparr>,
      use_decode_workers = False, sch_cache = None, sch_prefix_cache = None, sch_tokenizer = SimpleTokenizer_init\<rparr>"

lemma example_order:
  "map qi_pending (ordered example_env 10 example_scheduler) = [1, 0]"
  "\<forall>it \<in> set (ordered example_env 10 example_scheduler). \<not> qi_from_decode it"
  by (simp_all add: ordered_def collected_def probed_items_def example_scheduler_def example_pending_def example_config_def
      NormalizeSchedulerConfig_def sort_position_def scoring_item_def ms_between_def PriorityAge_Score_def
      kFairnessAgingDivisorMs_def Let_def less_eq_prod_simp)

lemma example_batch:
  "bs_pending (ss_selection (final_state example_env 10 example_scheduler)) = [1]"
  "bs_total_tokens (ss_selection (final_state example_env 10 example_scheduler)) = 3"
proof -
  obtain i j where o: "ordered example_env 10 example_scheduler = [i, j]" "qi_pending i = 1" "qi_pending j = 0"
    using example_order(1) by (auto simp: map_eq_Cons_conv)
  then have d: "\<not> qi_from_decode i" "\<not> qi_from_decode j" using example_order(2) by simp_all
  show "bs_pending (ss_selection (final_state example_env 10 example_scheduler)) = [1]"
    "bs_total_tokens (ss_selection (final_state example_env 10 example_scheduler)) = 3"
    unfolding final_state_def o(1)
    using d o(2,3) by (simp_all add: start_state_def item_cost_def EstimateQueueTokenCost_def swap_in_item_def
        select_item_def example_scheduler_def example_pending_def default_request_def empty_batch_def
        example_config_def NormalizeSchedulerConfig_def Let_def)
qed

theorem build_batch_limits_and_conserves_witness:
  "let (s', sel) = BuildBatchLocked example_env 10 example_scheduler
   in bs_pending sel = [1] \<and> pending_prefill s' = [0] \<and> bs_total_tokens sel = 3 \<and>
      inf_phase (pr_inference (sch_store s' 1)) = kPrefill \<and>
      mset (bs_pending sel) + mset (pending_prefill s') + mset (pending_decode s') = mset_set (queued example_scheduler)"
proof -
  let ?b = "BuildBatchLocked example_env 10 example_scheduler"
  have ok: "config_ok (sch_config example_scheduler)"
    by (simp add: example_scheduler_def example_config_def NormalizeSchedulerConfig_ok)
  have w: "\<not> use_decode_workers example_scheduler" "pending_prefill example_scheduler = [0, 1]"
    by (simp_all add: example_scheduler_def)
  have "bs_pending (snd ?b) = [1]" and "bs_total_tokens (snd ?b) = 3"
    using example_batch BuildBatchLocked_state [of example_env 10 example_scheduler] by (simp_all add: Let_def case_prod_beta)
  moreover from this have "pending_prefill (fst ?b) = [0]"
    using BuildBatchLocked_queues(1) [OF prod.collapse [of ?b, symmetric]] w by simp
  ultimately show ?thesis
    using build_batch_limits_and_conserves [OF ok prod.collapse [of ?b, symmetric]] w by (simp add: case_prod_beta)
qed

end
