(* ===== verification/Scheduler_Progress.thy ===== *)
theory Scheduler_Progress
  imports Scheduler_Batch
begin

section \<open>Progress of queued requests\<close>

text \<open>
  Requests are not starved: the score of a waiting request grows at the same rate as
  that of every other one, so the set of requests ahead of it can only shrink, and every batch
  takes the first request of the order. Then the fairness pass: what it does to a batch, and
  what it gets wrong for the request it swaps in.
\<close>

subsection \<open>The order does not depend on the time\<close>

definition rank_key :: "(nat \<Rightarrow> PendingRequest) \<Rightarrow> nat \<Rightarrow> real \<times> nat" where
  "rank_key store a =
     (of_int (pr_enqueue_time (store a)) / 2000000000 - of_int (pr_priority (store a)), pr_sequence (store a))"

lemma Score_no_affinity:
  "si_prefix_affinity_tokens i = 0 \<Longrightarrow> Score p i = of_int (si_priority i) + age_ms i / 2000"
  by (cases p) (simp_all add: PriorityAge_Score_def LpmPriority_Score_def ThroughputBalanced_Score_def
      kFairnessAgingDivisorMs_def)

lemma sort_position_rank:
  assumes "qi_affinity it = 0"
  shows "sort_position p now store it =
    (fst (rank_key store (qi_pending it)) - of_int now / 2000000000, snd (rank_key store (qi_pending it)))"
  using assms by (simp add: sort_position_def scoring_item_def Score_no_affinity rank_key_def ms_between_def Let_def
      diff_divide_distrib)

lemma sort_position_le:
  assumes "qi_affinity x = 0" "qi_affinity y = 0"
  shows "sort_position p now store x \<le> sort_position p now store y \<longleftrightarrow>
    rank_key store (qi_pending x) \<le> rank_key store (qi_pending y)"
  by (cases "rank_key store (qi_pending x)"; cases "rank_key store (qi_pending y)")
    (simp add: sort_position_rank assms)

definition no_affinity :: "Scheduler \<Rightarrow> bool" where
  "no_affinity s \<longleftrightarrow> \<not> UsesPrefixAffinity (batch_policy (sch_config s)) \<or> sch_prefix_cache s = None"

lemma ordered_affinity: "no_affinity s \<Longrightarrow> it \<in> set (ordered env now s) \<Longrightarrow> qi_affinity it = 0"
  using collected_facts(3) [of s] by (simp add: ordered_def no_affinity_def probed_items_no_affinity)

text \<open>The first request of the order is in the batch, unless it is swapped out.\<close>

lemma first_selected:
  assumes "BuildBatchLocked env now s = (s', sel)" "no_affinity s" "queued s \<noteq> {}"
    "\<forall>a \<in> queued s. \<not> inf_is_swapped (pr_inference (sch_store s a))"
  obtains h where "h \<in> set (bs_pending sel)" "\<forall>a \<in> queued s. rank_key (sch_store s) h \<le> rank_key (sch_store s) a"
proof -
  have "set (map qi_pending (ordered env now s)) \<noteq> {}" unfolding ordered_queued by (rule assms(3))
  then obtain it its where o: "ordered env now s = it # its" by (cases "ordered env now s") auto
  have sel: "sel = ss_selection (final_state env now s)"
    using BuildBatchLocked_state [of env now s] assms(1) by (simp add: Let_def case_prod_beta)
  have "qi_pending it \<in> queued s" using ordered_queued [of env now s] o by (metis list.set_intros(1) list.simps(9))
  then have mem: "qi_pending it \<in> set (bs_pending sel)"
    unfolding sel final_state_def o using assms(4) by (intro select_loop_first) (simp_all add: start_state_def empty_batch_def)
  have "sorted (map (sort_position (batch_policy (sch_config s)) now (sch_store s)) (it # its))"
    unfolding o [symmetric] by (simp add: ordered_def)
  then have le: "sort_position (batch_policy (sch_config s)) now (sch_store s) it
      \<le> sort_position (batch_policy (sch_config s)) now (sch_store s) x" if "x \<in> set (it # its)" for x
    using that by auto
  have "rank_key (sch_store s) (qi_pending it) \<le> rank_key (sch_store s) a" if a: "a \<in> queued s" for a
  proof -
    obtain x where x: "x \<in> set (it # its)" "a = qi_pending x"
      using a ordered_queued [of env now s] o by (metis (no_types, lifting) image_iff set_map)
    have "qi_affinity it = 0" "qi_affinity x = 0"
      using ordered_affinity [OF assms(2), of _ env now] x(1) unfolding o by auto
    from sort_position_le [OF this] show ?thesis using le [OF x(1)] x(2) by blast
  qed
  then show ?thesis using that mem by blast
qed

subsection \<open>Rounds of arrivals and batches\<close>

text \<open>Each round admits some requests, each at its own time, and builds one batch; the served addresses are collected.\<close>

fun rounds ::
  "sched_env \<Rightarrow> ((time_point \<times> InferenceRequest) list \<times> time_point) list \<Rightarrow> Scheduler \<Rightarrow> Scheduler \<times> nat list" where
  "rounds env [] s = (s, [])"
| "rounds env ((arrivals, now) # rs) s =
     (let s1 = foldl (\<lambda>s (t, r). Generate t r s) s arrivals;
          (s2, sel) = BuildBatchLocked env now s1;
          (s3, served) = rounds env rs s2
      in (s3, bs_pending sel @ served))"

definition waiting_ok :: "nat \<Rightarrow> Scheduler \<Rightarrow> bool" where
  "waiting_ok r s \<longleftrightarrow> r \<in> queued s \<and> no_affinity s \<and>
     (\<forall>a \<in> queued s. a < next_sequence s \<and> pr_sequence (sch_store s a) = a \<and>
        \<not> inf_is_swapped (pr_inference (sch_store s a)))"

definition ahead :: "Scheduler \<Rightarrow> nat \<Rightarrow> nat set" where
  "ahead s r = {a \<in> queued s. rank_key (sch_store s) a < rank_key (sch_store s) r}"

text \<open>A later request whose priority advantage does not exceed what the waiting one has gained by its age.\<close>

definition arrives_behind :: "time_point \<Rightarrow> int \<Rightarrow> time_point \<times> InferenceRequest \<Rightarrow> bool" where
  "arrives_behind enq prio tr \<longleftrightarrow> \<not> inf_is_swapped (snd tr) \<and>
     2000 * of_int (inf_priority (snd tr) - prio) \<le> ms_between (fst tr) enq"

lemma Generate_frame:
  "queued (Generate t r s) = insert (next_sequence s) (queued s)"
  "next_sequence (Generate t r s) = Suc (next_sequence s)"
  "no_affinity (Generate t r s) = no_affinity s"
  "a \<noteq> next_sequence s \<Longrightarrow> sch_store (Generate t r s) a = sch_store s a"
  "pr_sequence (sch_store (Generate t r s) (next_sequence s)) = next_sequence s"
  "pr_enqueue_time (sch_store (Generate t r s) (next_sequence s)) = t"
  "pr_priority (sch_store (Generate t r s) (next_sequence s)) = inf_priority r"
  "inf_is_swapped (pr_inference (sch_store (Generate t r s) (next_sequence s))) = inf_is_swapped r"
  by (simp_all add: Generate_def queued_def no_affinity_def Let_def case_prod_beta ResetUnifiedStepState_def)

lemma rank_key_cong: "sch_store s a = sch_store s' a \<Longrightarrow> rank_key (sch_store s) a = rank_key (sch_store s') a"
  by (simp add: rank_key_def)

lemma Generate_behind:
  assumes "waiting_ok w s" "arrives_behind (pr_enqueue_time (sch_store s w)) (pr_priority (sch_store s w)) (t, r)"
  shows "waiting_ok w (Generate t r s)" "ahead (Generate t r s) w = ahead s w"
    "sch_store (Generate t r s) w = sch_store s w"
proof -
  let ?n = "next_sequence s" and ?s = "Generate t r s"
  have old: "a < ?n" if "a \<in> queued s" for a using assms(1) that by (simp add: waiting_ok_def)
  then have same: "sch_store ?s a = sch_store s a" if "a \<in> queued s" for a
    using that by (intro Generate_frame(4)) (metis less_irrefl)
  have w: "w \<in> queued s" "pr_sequence (sch_store s w) < ?n" using assms(1) old by (auto simp: waiting_ok_def)
  show "sch_store ?s w = sch_store s w" by (rule same [OF w(1)])
  have "a < next_sequence ?s \<and> pr_sequence (sch_store ?s a) = a \<and> \<not> inf_is_swapped (pr_inference (sch_store ?s a))"
    if "a \<in> queued ?s" for a
  proof (cases "a = ?n")
    case True
    then show ?thesis using assms(2) by (simp add: Generate_frame arrives_behind_def)
  next
    case False
    then have "a \<in> queued s" using that by (simp add: Generate_frame)
    then show ?thesis using assms(1) same [of a] by (simp add: waiting_ok_def Generate_frame less_SucI)
  qed
  then have all: "\<forall>a \<in> queued ?s. a < next_sequence ?s \<and> pr_sequence (sch_store ?s a) = a \<and>
      \<not> inf_is_swapped (pr_inference (sch_store ?s a))" by blast
  have "w \<in> queued ?s" "no_affinity ?s"
    using assms(1) by (simp_all add: waiting_ok_def Generate_frame(1,3))
  with all show "waiting_ok w ?s" unfolding waiting_ok_def by blast
  have "2000 * (of_int (inf_priority r) - of_int (pr_priority (sch_store s w)))
      \<le> (of_int t - of_int (pr_enqueue_time (sch_store s w)) :: real) / 1000000"
    using assms(2) by (simp add: arrives_behind_def ms_between_def)
  then have "of_int (pr_enqueue_time (sch_store s w)) / 2000000000 - of_int (pr_priority (sch_store s w))
      \<le> (of_int t / 2000000000 - of_int (inf_priority r) :: real)"
    by (simp add: field_simps)
  then have "rank_key (sch_store s) w < rank_key (sch_store ?s) ?n"
    using w(2) unfolding rank_key_def Generate_frame(5-7) by (simp only: less_prod_simp) simp
  then have new: "\<not> rank_key (sch_store ?s) ?n < rank_key (sch_store s) w" by (rule less_not_sym)
  have rank: "rank_key (sch_store ?s) a = rank_key (sch_store s) a" if "a \<in> queued s" for a
    by (rule rank_key_cong) (rule same [OF that])
  have "a \<in> ahead ?s w \<longleftrightarrow> a \<in> ahead s w" for a
    using new rank [of a] old [of ?n] unfolding ahead_def rank [OF w(1)] by (auto simp: Generate_frame(1))
  then show "ahead ?s w = ahead s w" by blast
qed

lemma arrivals_behind:
  assumes "waiting_ok w s" "\<forall>tr \<in> set arrivals. arrives_behind (pr_enqueue_time (sch_store s w)) (pr_priority (sch_store s w)) tr"
  shows "let s1 = foldl (\<lambda>s (t, r). Generate t r s) s arrivals in
    waiting_ok w s1 \<and> ahead s1 w = ahead s w \<and> sch_store s1 w = sch_store s w"
  using assms
proof (induction arrivals arbitrary: s)
  case (Cons tr arrivals)
  obtain t r where tr: "tr = (t, r)" by fastforce
  have "arrives_behind (pr_enqueue_time (sch_store s w)) (pr_priority (sch_store s w)) (t, r)" using Cons.prems tr by simp
  note g = Generate_behind [OF Cons.prems(1) this]
  then show ?case using Cons.IH [OF g(1)] Cons.prems(2) tr by (simp add: Let_def)
qed simp

text \<open>One batch: the waiting request is served, or strictly fewer requests are ahead of it.\<close>

lemma batch_progress:
  assumes "waiting_ok w s" "BuildBatchLocked env now s = (s', sel)" "w \<notin> set (bs_pending sel)"
  shows "waiting_ok w s' \<and> card (ahead s' w) < card (ahead s w) \<and> sch_store s' w = sch_store s w"
proof -
  have wq: "w \<in> queued s" using assms(1) by (simp add: waiting_ok_def)
  obtain h where h: "h \<in> set (bs_pending sel)" "\<forall>a \<in> queued s. rank_key (sch_store s) h \<le> rank_key (sch_store s) a"
    using first_selected [OF assms(2)] assms(1) wq by (auto simp: waiting_ok_def)
  note part = BuildBatchLocked_partition(1) [OF assms(2)] and sub = selected_subset(1) [OF assms(2)]
  note bs = BuildBatchLocked_state [of env now s, unfolded assms(2) Let_def case_prod_beta, simplified]
  have same: "sch_store s' a = sch_store s a" if "a \<notin> set (bs_pending sel)" for a
  proof -
    obtain sub' where sub': "selects env (fairness_config s) sub' (start_state s) (final_state env now s)"
      by (rule selected_items)
    then have "\<forall>a. a \<notin> qi_pending ` set sub' \<longrightarrow> ss_store (final_state env now s) a = sch_store s a"
      by (simp add: selects_def start_state_def)
    then show ?thesis using batch_subset(1) [OF sub'] bs that by simp
  qed
  have rank: "rank_key (sch_store s') a = rank_key (sch_store s) a" if "a \<notin> set (bs_pending sel)" for a
    by (rule rank_key_cong) (rule same [OF that])
  have hq: "h \<in> queued s" using h(1) sub by blast
  have "h \<noteq> w" using h(1) assms(3) by blast
  then have "rank_key (sch_store s) h \<noteq> rank_key (sch_store s) w"
    using assms(1) hq wq by (auto simp: rank_key_def waiting_ok_def)
  then have "h \<in> ahead s w" using h(2) hq wq by (auto simp: ahead_def order.strict_iff_order)
  moreover have "ahead s' w \<subseteq> ahead s w - {h}"
    using h(1) part rank assms(3) by (auto simp: ahead_def)
  moreover have "finite (ahead s w)" by (simp add: ahead_def queued_def)
  ultimately have "card (ahead s' w) < card (ahead s w)" by (metis Diff_subset card_Diff1_less card_mono finite_Diff order.strict_trans2 order_le_less_trans)
  moreover have "no_affinity s'" using assms(1) bs by (auto simp: waiting_ok_def no_affinity_def)
  ultimately show ?thesis
    using assms(1,3) part same bs wq by (auto simp: waiting_ok_def)
qed



subsection \<open>The fairness pass\<close>

lemma refresh_priority_frame:
  "(pr_inference (foldl refresh_priority store as a))\<lparr>inf_fairness := f\<rparr> = (pr_inference (store a))\<lparr>inf_fairness := f\<rparr>"
  "fs_remaining_decode_tokens (inf_fairness (pr_inference (foldl refresh_priority store as a))) =
     fs_remaining_decode_tokens (inf_fairness (pr_inference (store a)))"
  by (induction as arbitrary: store) (simp_all add: refresh_priority_def)

lemma same_but_fairness:
  assumes "r\<lparr>inf_fairness := f\<rparr> = r'\<lparr>inf_fairness := f\<rparr>"
  shows "inf_priority r = inf_priority r'" "inf_phase r = inf_phase r'"
proof -
  have "inf_priority (r\<lparr>inf_fairness := f\<rparr>) = inf_priority (r'\<lparr>inf_fairness := f\<rparr>)"
    "inf_phase (r\<lparr>inf_fairness := f\<rparr>) = inf_phase (r'\<lparr>inf_fairness := f\<rparr>)" using assms by (rule arg_cong)+
  then show "inf_priority r = inf_priority r'" "inf_phase r = inf_phase r'" by simp_all
qed

lemmas refresh_priority_same = same_but_fairness [OF refresh_priority_frame(1)]

lemma level_refresh_step:
  "level (refresh_priority store b) a = (if a = b then inf_priority (pr_inference (store b)) else level store a)"
  by (simp add: level_def refresh_priority_def)

lemma level_refresh: "a \<in> set as \<Longrightarrow> level (foldl refresh_priority store as) a = inf_priority (pr_inference (store a))"
proof (induction as rule: rev_induct)
  case (snoc b as)
  then show ?case
    using refresh_priority_same(1) [of store as b] by (auto simp: level_refresh_step)
qed simp

lemma fairness_entries_nth:
  "i < length as \<Longrightarrow> fairness_entries store as ! i = fairness_entry store (i, as ! i)"
  by (simp add: fairness_entries_def nth_enumerate_eq)

lemma length_fairness_entries [simp]: "length (fairness_entries store as) = length as"
  by (simp add: fairness_entries_def)

lemma sch_store_requeue:
  "a \<noteq> d \<Longrightarrow> sch_store (requeue_displaced d (remove_queued k s)) a = sch_store s a"
  "fairness_controller (requeue_displaced d (remove_queued k s)) = fairness_controller s"
  by (auto simp: requeue_displaced_def remove_queued_def set_phase_def)

text \<open>The outcome of a pass that swaps.\<close>

lemma ApplyFairness_swap:
  assumes "ApplyFairness sel s = (s', sel')" "sel' \<noteq> sel"
  obtains i k where "i < length (bs_pending sel)" "k < length (pending_prefill s @ pending_decode s)"
    "sel' = sel\<lparr>bs_pending := (bs_pending sel)[i := (pending_prefill s @ pending_decode s) ! k]\<rparr>"
    "high_priority_threshold (fairness_controller s) \<le>
       inf_priority (pr_inference (sch_store s ((pending_prefill s @ pending_decode s) ! k)))"
    "s' = (let queue = pending_prefill s @ pending_decode s;
               store1 = foldl refresh_priority (sch_store s) (bs_pending sel)
           in apply_timeslice (upd_at i (\<lambda>e. e\<lparr>fe_request := Some (queue ! k)\<rparr>) (fairness_entries store1 (bs_pending sel)))
                (requeue_displaced (bs_pending sel ! i) (remove_queued k (s\<lparr>sch_store := foldl refresh_priority store1 queue\<rparr>))))"
proof -
  define queue where "queue = pending_prefill s @ pending_decode s"
  define store1 where "store1 = foldl refresh_priority (sch_store s) (bs_pending sel)"
  define store2 where "store2 = foldl refresh_priority store1 queue"
  define d where "d = Evaluate (fairness_controller s) (fairness_entries store1 (bs_pending sel)) (fairness_entries store2 queue)"
  note defs = queue_def [symmetric] store1_def [symmetric] store2_def [symmetric] d_def [symmetric]
  have ne: "bs_pending sel \<noteq> []" using assms by (auto simp: ApplyFairness_def)
  note af = assms(1) [unfolded ApplyFairness_def if_not_P [OF ne] Let_def Scheduler.select_convs Scheduler.update_convs,
    unfolded defs, simplified defs]
  have sw: "fd_swap d" using af assms(2) by (auto simp: defs split: if_splits)
  note ev = Evaluate_swap [of "fairness_controller s" "fairness_entries store1 (bs_pending sel)" "fairness_entries store2 queue",
    unfolded defs Let_def, OF sw]
  then have i: "fd_batch_index d < length (bs_pending sel)" and k: "fd_queue_index d < length queue" by simp_all
  have "level store2 (queue ! fd_queue_index d) = inf_priority (pr_inference (store1 (queue ! fd_queue_index d)))"
    unfolding store2_def using k by (intro level_refresh nth_mem)
  also have "\<dots> = inf_priority (pr_inference (sch_store s (queue ! fd_queue_index d)))"
    unfolding store1_def by (rule refresh_priority_same(1))
  finally have prio: "high_priority_threshold (fairness_controller s)
      \<le> inf_priority (pr_inference (sch_store s (queue ! fd_queue_index d)))"
    using ev by (simp add: fairness_entries_nth k fairness_entry_def)
  show ?thesis
    using that [of "fd_batch_index d" "fd_queue_index d", unfolded defs Let_def, OF i k _ prio] af sw i k
    by (simp add: defs)
qed

text \<open>
  C38: The fairness pass treats a preempting request by the rules of the one it displaced.
  When a high-priority request is swapped into a batch whose requests are all below the
  priority threshold and time slices are configured, the swapped-in request gets a time slice,
  although requests at or above the threshold are exempt from slicing. It also keeps the phase
  it had in the queue, and the batch's list of requests still names the displaced one.
\<close>
theorem fairness_swap_caps_high_priority:
  assumes "ApplyFairness sel s = (s', sel')" "sel' \<noteq> sel"
    "distinct (bs_pending sel @ pending_prefill s @ pending_decode s)" "bs_batch_requests sel = bs_pending sel"
    "0 < max_timeslice_tokens (fairness_controller s)"
    "\<forall>a \<in> set (bs_pending sel). inf_priority (pr_inference (sch_store s a)) < high_priority_threshold (fairness_controller s)"
  shows "\<exists>q \<in> set (pending_prefill s @ pending_decode s). q \<in> set (bs_pending sel') \<and> q \<notin> set (bs_batch_requests sel') \<and>
    high_priority_threshold (fairness_controller s) \<le> inf_priority (pr_inference (sch_store s q)) \<and>
    0 < fs_timeslice_tokens (inf_fairness (pr_inference (sch_store s' q))) \<and>
    fs_timeslice_tokens (inf_fairness (pr_inference (sch_store s' q))) \<le> max_timeslice_tokens (fairness_controller s) \<and>
    inf_phase (pr_inference (sch_store s' q)) = inf_phase (pr_inference (sch_store s q))"
proof -
  let ?queue = "pending_prefill s @ pending_decode s"
  let ?store1 = "foldl refresh_priority (sch_store s) (bs_pending sel)"
  let ?s2 = "s\<lparr>sch_store := foldl refresh_priority ?store1 ?queue\<rparr>"
  obtain i k where i: "i < length (bs_pending sel)" and k: "k < length ?queue"
    and sel': "sel' = sel\<lparr>bs_pending := (bs_pending sel)[i := ?queue ! k]\<rparr>"
    and prio: "high_priority_threshold (fairness_controller s) \<le> inf_priority (pr_inference (sch_store s (?queue ! k)))"
    and s': "s' = apply_timeslice (upd_at i (\<lambda>e. e\<lparr>fe_request := Some (?queue ! k)\<rparr>) (fairness_entries ?store1 (bs_pending sel)))
        (requeue_displaced (bs_pending sel ! i) (remove_queued k ?s2))"
    using ApplyFairness_swap [OF assms(1,2)] by (simp only: Let_def) blast
  let ?q = "?queue ! k" and ?d = "bs_pending sel ! i"
  let ?e = "upd_at i (\<lambda>e. e\<lparr>fe_request := Some ?q\<rparr>) (fairness_entries ?store1 (bs_pending sel))"
  let ?s3 = "requeue_displaced ?d (remove_queued k ?s2)"
  have q: "?q \<in> set ?queue" "?d \<in> set (bs_pending sel)" using i k by (auto intro: nth_mem simp del: set_append)
  then have neq: "?q \<notin> set (bs_pending sel)" "?q \<noteq> ?d" using assms(3) by auto
  have same: "inf_phase (pr_inference (sch_store ?s3 ?q)) = inf_phase (pr_inference (sch_store s ?q))"
    using sch_store_requeue(1) [OF neq(2)] refresh_priority_same(2) by simp
  have "?e ! i \<in> set ?e" using i by (intro nth_mem) simp
  moreover have "fe_request (?e ! i) = Some ?q" "fe_priority_level (?e ! i) < high_priority_threshold (fairness_controller s)"
    using i q(2) assms(6) by (simp_all add: fairness_entries_nth fairness_entry_def level_refresh)
  ultimately have slice: "fs_timeslice_tokens (inf_fairness (pr_inference (sch_store s' ?q))) =
      timeslice_limit (fairness_controller s) (pr_inference (sch_store ?s3 ?q))"
    unfolding s' apply_timeslice_def using assms(5) by (auto simp: ApplyTimeslice_slice sch_store_requeue(2))
  have "inf_phase (pr_inference (sch_store s' ?q)) = inf_phase (pr_inference (sch_store ?s3 ?q))"
    unfolding s' apply_timeslice_def using same_but_fairness(2) [OF ApplyTimeslice_frame] by simp
  then show ?thesis
    using q(1) neq(1) i prio slice same timeslice_limit_bounds [OF assms(5), of "pr_inference (sch_store ?s3 ?q)"] assms(4)
    by (intro bexI [of _ ?q]) (auto simp: sel' set_update_memI)
qed

definition preempting_scheduler :: Scheduler where
  "preempting_scheduler = example_scheduler\<lparr>pending_prefill := [1]\<rparr>"

definition preempted_batch :: BatchSelection where
  "preempted_batch = \<lparr>bs_batch_requests = [0], bs_pending = [0], bs_total_tokens = 2\<rparr>"

lemma preempting_swap: "bs_pending (snd (ApplyFairness preempted_batch preempting_scheduler)) = [1]"
  by (simp add: ApplyFairness_def preempted_batch_def preempting_scheduler_def example_scheduler_def fairness_entries_def
      fairness_entry_def enumerate_Suc_eq Evaluate_def no_swap_def max_element_def min_element_def level_def
      refresh_priority_def example_pending_def default_request_def Let_def)

theorem fairness_swap_caps_high_priority_witness:
  "let s' = fst (ApplyFairness preempted_batch preempting_scheduler)
   in 0 < fs_timeslice_tokens (inf_fairness (pr_inference (sch_store s' 1))) \<and>
      inf_phase (pr_inference (sch_store s' 1)) = kPending"
proof -
  let ?a = "ApplyFairness preempted_batch preempting_scheduler"
  have ne: "snd ?a \<noteq> preempted_batch" using preempting_swap by (auto simp: preempted_batch_def)
  have facts: "distinct (bs_pending preempted_batch @ pending_prefill preempting_scheduler @ pending_decode preempting_scheduler)"
    "bs_batch_requests preempted_batch = bs_pending preempted_batch"
    "0 < max_timeslice_tokens (fairness_controller preempting_scheduler)"
    "\<forall>a \<in> set (bs_pending preempted_batch). inf_priority (pr_inference (sch_store preempting_scheduler a))
       < high_priority_threshold (fairness_controller preempting_scheduler)"
    "pending_prefill preempting_scheduler @ pending_decode preempting_scheduler = [1]"
    "inf_phase (pr_inference (sch_store preempting_scheduler 1)) = kPending"
    by (simp_all add: preempted_batch_def preempting_scheduler_def example_scheduler_def example_pending_def default_request_def)
  from fairness_swap_caps_high_priority [OF prod.collapse [of ?a, symmetric] ne facts(1-4)] facts(5,6)
  show ?thesis by (simp add: Let_def)
qed

end
