(* ===== verification/KV_Transport.thy ===== *)
theory KV_Transport
  imports Marker_Scan String_Utils
begin

section \<open>Hand-off of KV state between prefill and decode\<close>

text \<open>
  \<open>runtime/disaggregated/kv_channel.{h,cpp}\<close>, the in-process queue, and
  \<open>runtime/disaggregated/shm_kv_transport.{h,cpp}\<close>, which keeps the KV blob in a named shared-memory
  segment and sends its name through such a queue. Both implement the interface \<open>IKVTransport\<close>;
  its contract is the locale \<open>kv_transport\<close>, a bounded first-in first-out queue. Shared memory is
  a map from segment names to contents; which system calls fail is an argument.
\<close>

datatype KVTicketStage = kNone | kEnqueued | kAcknowledged | kCommitted | kTimedOut

fun KVTicketStageToString :: "KVTicketStage \<Rightarrow> string" where
  "KVTicketStageToString kEnqueued = ''enqueued''"
| "KVTicketStageToString kAcknowledged = ''acknowledged''"
| "KVTicketStageToString kCommitted = ''committed''"
| "KVTicketStageToString kTimedOut = ''timed_out''"
| "KVTicketStageToString kNone = ''none''"

record KVPacket =
  kp_request_id :: nat
  kp_ticket_id :: nat
  kp_ticket_stage :: KVTicketStage
  kp_prompt_tokens :: "byte list"
  kp_kv_blob :: "byte list"
  kp_kv_page :: int
  kp_n_past :: int
  kp_sequence_id :: int
  kp_metadata :: string

definition ticket_metadata :: "KVPacket \<Rightarrow> string" where
  "ticket_metadata p =
     (if kp_ticket_id p > 0 then
        ''|ticket='' @ nat_to_string (kp_ticket_id p) @ ''|ticket_stage='' @ KVTicketStageToString (kp_ticket_stage p)
      else []) @
     (if kp_kv_page p \<ge> 0 then ''|kv_page='' @ int_to_string (kp_kv_page p) else [])"

definition AppendControlMetadata :: "KVPacket \<Rightarrow> KVPacket" where
  "AppendControlMetadata p = p\<lparr>kp_metadata := kp_metadata p @ ticket_metadata p\<rparr>"

subsection \<open>The in-process channel\<close>

record KVChannel =
  ch_queue :: "KVPacket list"
  ch_ticket_stages :: "(nat \<times> KVTicketStage) list"
  ch_capacity :: nat

definition KVChannel_init :: "nat \<Rightarrow> KVChannel" where
  "KVChannel_init capacity = \<lparr>ch_queue = [], ch_ticket_stages = [], ch_capacity = max 1 capacity\<rparr>"

definition SetCapacity :: "nat \<Rightarrow> KVChannel \<Rightarrow> KVChannel" where
  "SetCapacity capacity c =
     (let cap = max 1 capacity
      in c\<lparr>ch_capacity := cap, ch_queue := drop (length (ch_queue c) - cap) (ch_queue c)\<rparr>)"

definition channel_Enqueue :: "KVPacket \<Rightarrow> KVChannel \<Rightarrow> KVChannel \<times> bool" where
  "channel_Enqueue packet c =
     (if length (ch_queue c) \<ge> ch_capacity c then (c, False)
      else (c\<lparr>ch_ticket_stages := (if kp_ticket_id packet > 0
                then AList.update (kp_ticket_id packet) (kp_ticket_stage packet) (ch_ticket_stages c) else ch_ticket_stages c),
              ch_queue := ch_queue c @ [AppendControlMetadata packet]\<rparr>, True))"

definition channel_TryDequeue :: "KVChannel \<Rightarrow> KVChannel \<times> KVPacket option" where
  "channel_TryDequeue c =
     (case ch_queue c of
        [] \<Rightarrow> (c, None)
      | packet # rest \<Rightarrow> (c\<lparr>ch_queue := rest\<rparr>, Some packet))"

definition UpdateTicketStage :: "nat \<Rightarrow> KVTicketStage \<Rightarrow> KVChannel \<Rightarrow> KVChannel \<times> bool" where
  "UpdateTicketStage ticket_id stage c =
     (if ticket_id = 0 then (c, False)
      else case map_of (ch_ticket_stages c) ticket_id of
          None \<Rightarrow> (c, False)
        | Some _ \<Rightarrow> (c\<lparr>ch_ticket_stages := AList.update ticket_id stage (ch_ticket_stages c)\<rparr>, True))"

definition GetTicketStage :: "nat \<Rightarrow> KVChannel \<Rightarrow> KVTicketStage" where
  "GetTicketStage ticket_id c =
     (if ticket_id = 0 then kNone
      else case map_of (ch_ticket_stages c) ticket_id of None \<Rightarrow> kNone | Some stage \<Rightarrow> stage)"

definition channel_Clear :: "KVChannel \<Rightarrow> KVChannel" where
  "channel_Clear c = c\<lparr>ch_queue := [], ch_ticket_stages := []\<rparr>"

subsection \<open>The shared-memory transport\<close>

definition MakeShmName :: "nat \<Rightarrow> nat \<Rightarrow> string" where
  "MakeShmName request_id seq = ''/ifx_kv_'' @ nat_to_string request_id @ ''_'' @ nat_to_string seq"

definition ExtractShmName :: "string \<Rightarrow> string" where
  "ExtractShmName metadata =
     (case str_find metadata ''|shm='' of
        None \<Rightarrow> []
      | Some pos \<Rightarrow> takeWhile (\<lambda>c. c \<noteq> CHR ''|'') (drop (pos + 5) metadata))"

text \<open>\<open>std::stoull\<close>; \<open>None\<close> where it throws.\<close>

definition stoull :: "string \<Rightarrow> nat option" where
  "stoull s =
     (let s1 = dropWhile is_space s;
          (neg, s2) = (case s1 of
               [] \<Rightarrow> (False, [])
             | c # cs \<Rightarrow> if c = CHR ''-'' then (True, cs) else if c = CHR ''+'' then (False, cs) else (False, s1));
          ds = takeWhile is_digit s2
      in if ds = [] \<or> string_to_nat ds \<ge> 2 ^ 64 then None
         else Some (if neg then nat (- int (string_to_nat ds) mod 2 ^ 64) else string_to_nat ds))"

definition ExtractShmSize :: "string \<Rightarrow> nat" where
  "ExtractShmSize metadata =
     (case str_find metadata ''|size='' of
        None \<Rightarrow> 0
      | Some pos \<Rightarrow> (case stoull (drop (pos + 6) metadata) of None \<Rightarrow> 0 | Some n \<Rightarrow> n))"

record shm_faults =
  fault_open :: bool
  fault_truncate :: bool
  fault_map :: bool

record ShmKVTransport =
  control_queue :: KVChannel
  shm_seq :: nat
  segments :: "string \<Rightarrow> byte list option"

definition ShmKVTransport_init :: "nat \<Rightarrow> ShmKVTransport" where
  "ShmKVTransport_init capacity = \<lparr>control_queue = KVChannel_init capacity, shm_seq = 0, segments = (\<lambda>_. None)\<rparr>"

definition with_control :: "ShmKVTransport \<Rightarrow> KVChannel \<times> bool \<Rightarrow> ShmKVTransport \<times> bool" where
  "with_control t = (\<lambda>(c, ok). (t\<lparr>control_queue := c\<rparr>, ok))"

text \<open>The faults of the system calls are looked up by the number of the segment.\<close>

definition shm_Enqueue :: "(nat \<Rightarrow> shm_faults) \<Rightarrow> KVPacket \<Rightarrow> ShmKVTransport \<Rightarrow> ShmKVTransport \<times> bool" where
  "shm_Enqueue faults packet t =
     (if kp_kv_blob packet = [] then with_control t (channel_Enqueue packet (control_queue t))
      else
        let shm_name = MakeShmName (kp_request_id packet) (shm_seq t);
            f = faults (shm_seq t);
            t1 = t\<lparr>shm_seq := shm_seq t + 1\<rparr>
        in if fault_open f \<or> segments t1 shm_name \<noteq> None \<or> fault_truncate f \<or> fault_map f
           then with_control t1 (channel_Enqueue packet (control_queue t1))
           else
             let t2 = t1\<lparr>segments := (segments t1)(shm_name := Some (kp_kv_blob packet))\<rparr>;
                 packet' = packet\<lparr>kp_metadata := kp_metadata packet @ ''|shm='' @ shm_name @ ''|size='' @
                                    nat_to_string (length (kp_kv_blob packet)), kp_kv_blob := []\<rparr>;
                 (t3, ok) = with_control t2 (channel_Enqueue packet' (control_queue t2))
             in if ok then (t3, True) else (t3\<lparr>segments := (segments t3)(shm_name := None)\<rparr>, False))"

text \<open>
  \<open>open_ok\<close> and \<open>map_ok\<close> say whether the reading \<open>shm_open\<close> and \<open>mmap\<close> succeed on an existing segment.
  A mapping of \<open>blob_size\<close> bytes reads the first \<open>blob_size\<close> bytes of the segment.
\<close>

definition shm_TryDequeue :: "bool \<Rightarrow> bool \<Rightarrow> ShmKVTransport \<Rightarrow> ShmKVTransport \<times> KVPacket option" where
  "shm_TryDequeue open_ok map_ok t =
     (case channel_TryDequeue (control_queue t) of
        (c, None) \<Rightarrow> (t\<lparr>control_queue := c\<rparr>, None)
      | (c, Some pkt) \<Rightarrow>
          let t1 = t\<lparr>control_queue := c\<rparr>;
              shm_name = ExtractShmName (kp_metadata pkt);
              blob_size = ExtractShmSize (kp_metadata pkt)
          in if shm_name \<noteq> [] \<and> blob_size > 0 then
               (case segments t1 shm_name of
                  None \<Rightarrow> (t1, None)
                | Some blob \<Rightarrow>
                    if \<not> open_ok then (t1, None)
                    else
                      let t2 = t1\<lparr>segments := (segments t1)(shm_name := None)\<rparr>
                      in if map_ok then (t2, Some (pkt\<lparr>kp_kv_blob := take blob_size blob\<rparr>)) else (t2, None))
             else (t1, Some pkt))"

section \<open>Both transports are bounded queues\<close>

subsection \<open>The contract\<close>

datatype transport_op = Put KVPacket | Take

text \<open>The final state, the packets accepted and the packets delivered, in order.\<close>

fun transport_run ::
  "(KVPacket \<Rightarrow> 's \<Rightarrow> 's \<times> bool) \<Rightarrow> ('s \<Rightarrow> 's \<times> KVPacket option) \<Rightarrow> transport_op list \<Rightarrow> 's \<Rightarrow>
   's \<times> KVPacket list \<times> KVPacket list" where
  "transport_run enq deq [] s = (s, [], [])"
| "transport_run enq deq (Put p # ops) s =
     (let (s1, ok) = enq p s; (s2, ins, outs) = transport_run enq deq ops s1
      in (s2, if ok then p # ins else ins, outs))"
| "transport_run enq deq (Take # ops) s =
     (let (s1, r) = deq s; (s2, ins, outs) = transport_run enq deq ops s1
      in (s2, ins, case r of None \<Rightarrow> outs | Some p \<Rightarrow> p # outs))"

locale kv_transport =
  fixes enqueue :: "KVPacket \<Rightarrow> 's \<Rightarrow> 's \<times> bool"
    and try_dequeue :: "'s \<Rightarrow> 's \<times> KVPacket option"
    and contents :: "'s \<Rightarrow> 'c list"
    and view :: "KVPacket \<Rightarrow> 'c"
    and bound :: "'s \<Rightarrow> nat"
    and transport_ok :: "'s \<Rightarrow> bool"
    and legal :: "KVPacket \<Rightarrow> bool"
  assumes enqueue_law: "transport_ok s \<Longrightarrow> legal p \<Longrightarrow> enqueue p s = (s', r) \<Longrightarrow>
      transport_ok s' \<and> bound s' = bound s \<and> r = (length (contents s) < bound s) \<and>
      contents s' = (if r then contents s @ [view p] else contents s)"
    and dequeue_empty: "transport_ok s \<Longrightarrow> contents s = [] \<Longrightarrow> try_dequeue s = (s, None)"
    and dequeue_law: "transport_ok s \<Longrightarrow> contents s = v # vs \<Longrightarrow>
      \<exists>s' p. try_dequeue s = (s', Some p) \<and> view p = v \<and> contents s' = vs \<and> transport_ok s' \<and> bound s' = bound s"
begin

text \<open>What was accepted is delivered in the order of acceptance, and the queue stays within its bound.\<close>

lemma fifo:
  assumes "transport_ok s" "\<forall>p. Put p \<in> set ops \<longrightarrow> legal p" "transport_run enqueue try_dequeue ops s = (s', ins, outs)"
  shows "contents s @ map view ins = map view outs @ contents s' \<and> transport_ok s' \<and> bound s' = bound s"
  using assms
proof (induction ops arbitrary: s s' ins outs)
  case step: (Cons op ops)
  show ?case
  proof (cases op)
    case (Put p)
    obtain s1 ok where e: "enqueue p s = (s1, ok)" by fastforce
    obtain s2 ins' outs' where r: "transport_run enqueue try_dequeue ops s1 = (s2, ins', outs')" by (metis prod_cases3)
    have law: "transport_ok s1 \<and> bound s1 = bound s \<and> contents s1 = (if ok then contents s @ [view p] else contents s)"
      using enqueue_law [OF step.prems(1) _ e] step.prems(2) Put by auto
    then have "contents s1 @ map view ins' = map view outs' @ contents s2 \<and> transport_ok s2 \<and> bound s2 = bound s1"
      using step.IH [OF _ _ r] step.prems(2) by auto
    moreover have "s' = s2" "ins = (if ok then p # ins' else ins')" "outs = outs'"
      using step.prems(3) Put e r by auto
    ultimately show ?thesis using law by (auto split: if_splits)
  next
    case Take
    show ?thesis
    proof (cases "contents s")
      case Nil
      then show ?thesis using step.IH step.prems Take dequeue_empty [OF step.prems(1) Nil]
        by (fastforce simp: case_prod_beta)
    next
      case (Cons v vs)
      obtain s1 p where d: "try_dequeue s = (s1, Some p)" "view p = v" "contents s1 = vs" "transport_ok s1" "bound s1 = bound s"
        using dequeue_law [OF step.prems(1) Cons] by blast
      obtain s2 ins' outs' where r: "transport_run enqueue try_dequeue ops s1 = (s2, ins', outs')" by (metis prod_cases3)
      have "contents s1 @ map view ins' = map view outs' @ contents s2 \<and> transport_ok s2 \<and> bound s2 = bound s1"
        using step.IH [OF d(4) _ r] step.prems(2) by auto
      moreover have "s' = s2" "ins = ins'" "outs = p # outs'" using step.prems(3) Take d r by auto
      ultimately show ?thesis using d Cons by simp
    qed
  qed
qed simp

end

subsection \<open>The in-process channel\<close>

text \<open>A packet without its metadata string, to which the transports append.\<close>

definition payload :: "KVPacket \<Rightarrow> KVPacket" where
  "payload p = p\<lparr>kp_metadata := []\<rparr>"

definition channel_ok :: "KVChannel \<Rightarrow> bool" where
  "channel_ok c \<longleftrightarrow> 1 \<le> ch_capacity c \<and> length (ch_queue c) \<le> ch_capacity c"

lemma payload_AppendControlMetadata [simp]: "payload (AppendControlMetadata p) = payload p"
  by (simp add: payload_def AppendControlMetadata_def)

lemma KVChannel_init_ok: "channel_ok (KVChannel_init n)"
  by (simp add: channel_ok_def KVChannel_init_def)

lemma SetCapacity_ok: "channel_ok (SetCapacity n c)"
  by (simp add: channel_ok_def SetCapacity_def Let_def)

interpretation channel: kv_transport channel_Enqueue channel_TryDequeue "\<lambda>c. map payload (ch_queue c)" payload ch_capacity
  channel_ok "\<lambda>_. True"
  by unfold_locales
    (auto simp: channel_Enqueue_def channel_TryDequeue_def channel_ok_def split: if_splits list.splits)

text \<open>The stage of a ticket after it was enqueued and updated.\<close>

lemma ticket_stage_after_Enqueue:
  "channel_Enqueue p c = (c', True) \<Longrightarrow> 0 < kp_ticket_id p \<Longrightarrow> GetTicketStage (kp_ticket_id p) c' = kp_ticket_stage p"
  by (auto simp: channel_Enqueue_def GetTicketStage_def update_conv' split: if_splits)

lemma ticket_stage_after_Update:
  assumes "UpdateTicketStage t st c = (c', ok)"
  shows "GetTicketStage u c' = (if ok \<and> u = t then st else GetTicketStage u c)"
  using assms by (auto simp: UpdateTicketStage_def GetTicketStage_def update_conv' split: if_splits option.splits)

subsection \<open>Names and sizes of segments in the metadata\<close>

lemma str_find_skip:
  "CHR ''|'' \<notin> set pre \<Longrightarrow> str_find_from k (pre @ s) (CHR ''|'' # m) = str_find_from (k + length pre) s (CHR ''|'' # m)"
  by (induction pre arbitrary: k) auto

lemma str_find_bar:
  "str_find_from k (CHR ''|'' # s) (CHR ''|'' # m) = (if prefix m s then Some k else str_find_from (Suc k) s (CHR ''|'' # m))"
  by simp

lemma no_bar_number: "CHR ''|'' \<notin> set (nat_to_string n)"
  using nat_to_string_digits [of "CHR ''|''" n] by auto

lemma no_bar_name: "CHR ''|'' \<notin> set (MakeShmName i k)"
  using no_bar_number by (simp add: MakeShmName_def)

lemma no_bar_stage: "CHR ''|'' \<notin> set (KVTicketStageToString st)"
  by (cases st) simp_all

lemma digits_is_digit: "c \<in> set (nat_to_string n) \<Longrightarrow> is_digit c"
  using nat_to_string_digits [of c n] by (auto simp: is_digit_def)

definition starts_field :: "string \<Rightarrow> bool" where
  "starts_field s \<longleftrightarrow> s = [] \<or> hd s = CHR ''|''"

lemma starts_field_ticket: "starts_field (ticket_metadata p)"
  by (simp add: starts_field_def ticket_metadata_def)

lemma takeWhile_field:
  assumes "\<And>c. c \<in> set xs \<Longrightarrow> P c" "\<not> P (CHR ''|'')" "starts_field s"
  shows "takeWhile P (xs @ s) = xs"
proof -
  have "takeWhile P s = []" using assms(2,3) by (cases s) (auto simp: starts_field_def)
  then show ?thesis using assms(1) by (simp add: takeWhile_append)
qed

lemma stoull_number:
  assumes "starts_field s" "n < 2 ^ 64"
  shows "stoull (nat_to_string n @ s) = Some n"
proof -
  obtain d ds where d: "nat_to_string n = d # ds" using nat_to_string_nonempty by (cases "nat_to_string n") auto
  then have dig: "is_digit d" using digits_is_digit [of d n] by simp
  then have "\<not> is_space d" "d \<noteq> CHR ''-''" "d \<noteq> CHR ''+''" by (auto simp: is_digit_def is_space_def)
  then have s1: "dropWhile is_space (nat_to_string n @ s) = nat_to_string n @ s" using d by simp
  have tw: "takeWhile is_digit (nat_to_string n @ s) = nat_to_string n"
    by (rule takeWhile_field [OF digits_is_digit _ assms(1)]) (simp_all add: is_digit_def)
  show ?thesis
    using \<open>d \<noteq> CHR ''-''\<close> \<open>d \<noteq> CHR ''+''\<close> d assms(2) tw string_to_nat_nat_to_string [of n]
    unfolding stoull_def s1 Let_def by simp
qed

lemma Extract_segment:
  assumes "CHR ''|'' \<notin> set md" "starts_field s" "n < 2 ^ 64"
  shows "ExtractShmName (md @ ''|shm='' @ MakeShmName i k @ ''|size='' @ nat_to_string n @ s) = MakeShmName i k"
    "ExtractShmSize (md @ ''|shm='' @ MakeShmName i k @ ''|size='' @ nat_to_string n @ s) = n"
proof -
  let ?rest = "''|size='' @ nat_to_string n @ s"
  have f1: "str_find (md @ ''|shm='' @ MakeShmName i k @ ?rest) ''|shm='' = Some (length md)"
    using assms(1) by (simp add: str_find_def str_find_skip)
  have "takeWhile (\<lambda>c. c \<noteq> CHR ''|'') (MakeShmName i k @ ?rest) = MakeShmName i k"
    by (rule takeWhile_field) (use no_bar_name [of i k] in \<open>auto simp: starts_field_def\<close>)
  then show "ExtractShmName (md @ ''|shm='' @ MakeShmName i k @ ?rest) = MakeShmName i k"
    unfolding ExtractShmName_def f1 by simp
  have "str_find (md @ ''|shm='' @ MakeShmName i k @ ?rest) ''|size='' =
      str_find_from (length md + 5) (MakeShmName i k @ ?rest) ''|size=''"
    using assms(1) by (simp add: str_find_def str_find_skip numeral_eq_Suc)
  also have "\<dots> = Some (length md + 5 + length (MakeShmName i k))"
    using no_bar_name [of i k] by (simp add: str_find_skip del: append.assoc)
  finally have f2: "str_find (md @ ''|shm='' @ MakeShmName i k @ ?rest) ''|size='' =
      Some (length md + 5 + length (MakeShmName i k))" .
  have "drop (length md + 5 + length (MakeShmName i k) + 6) (md @ ''|shm='' @ MakeShmName i k @ ?rest) = nat_to_string n @ s"
    by (simp add: numeral_eq_Suc)
  then show "ExtractShmSize (md @ ''|shm='' @ MakeShmName i k @ ?rest) = n"
    unfolding ExtractShmSize_def f2 option.case stoull_number [OF assms(2,3)] by (simp add: stoull_number [OF assms(2,3)])
qed

lemma Extract_plain:
  assumes "CHR ''|'' \<notin> set md"
  shows "ExtractShmName (md @ ticket_metadata p) = []"
proof -
  have a: "str_find_from k (''|kv_page='' @ nat_to_string n) ''|shm='' = None" for k n
    using str_find_skip [of "''kv_page='' @ nat_to_string n" "Suc k" "[]" "''shm=''"] no_bar_number [of n] by simp
  have b: "str_find_from k (if kp_kv_page p \<ge> 0 then ''|kv_page='' @ int_to_string (kp_kv_page p) else []) ''|shm='' = None" for k
    using a by (simp add: int_to_string_def)
  have c: "str_find_from k (''|ticket_stage='' @ KVTicketStageToString st @ s) ''|shm='' =
      str_find_from (k + 14 + length (KVTicketStageToString st)) s ''|shm=''" for k st s
    using str_find_skip [of "''ticket_stage='' @ KVTicketStageToString st" "Suc k" s "''shm=''"] no_bar_stage [of st]
    by (simp add: add_ac numeral_eq_Suc)
  have d: "str_find_from k (''|ticket='' @ nat_to_string n @ s) ''|shm='' = str_find_from (k + 8 + length (nat_to_string n)) s ''|shm=''" for k n s
    using str_find_skip [of "''ticket='' @ nat_to_string n" "Suc k" s "''shm=''"] no_bar_number [of n] by (simp add: add_ac numeral_eq_Suc)
  have "str_find (md @ ticket_metadata p) ''|shm='' = None"
    unfolding str_find_def str_find_skip [OF assms] ticket_metadata_def
    by (cases "kp_ticket_id p > 0") (simp_all only: if_True if_False append.assoc append_Nil c d b)
  then show ?thesis by (simp add: ExtractShmName_def)
qed

subsection \<open>The shared-memory transport\<close>

definition seg_ref :: "KVPacket \<Rightarrow> string option" where
  "seg_ref p = (if ExtractShmName (kp_metadata p) \<noteq> [] \<and> ExtractShmSize (kp_metadata p) > 0
     then Some (ExtractShmName (kp_metadata p)) else None)"

definition resolve :: "(string \<Rightarrow> byte list option) \<Rightarrow> KVPacket \<Rightarrow> KVPacket" where
  "resolve segs p =
     (case seg_ref p of
        None \<Rightarrow> p
      | Some n \<Rightarrow> (case segs n of None \<Rightarrow> p | Some b \<Rightarrow> p\<lparr>kp_kv_blob := take (ExtractShmSize (kp_metadata p)) b\<rparr>))"

definition shm_queue :: "ShmKVTransport \<Rightarrow> KVPacket list" where
  "shm_queue t = ch_queue (control_queue t)"

definition shm_contents :: "ShmKVTransport \<Rightarrow> KVPacket list" where
  "shm_contents t = map (payload \<circ> resolve (segments t)) (shm_queue t)"

definition refs :: "KVPacket list \<Rightarrow> string list" where
  "refs q = concat (map (\<lambda>p. case seg_ref p of None \<Rightarrow> [] | Some n \<Rightarrow> [n]) q)"

text \<open>Every segment belongs to exactly one queued packet, and every reference has its segment.\<close>

definition shm_ok :: "ShmKVTransport \<Rightarrow> bool" where
  "shm_ok t \<longleftrightarrow> channel_ok (control_queue t) \<and> distinct (refs (shm_queue t)) \<and> dom (segments t) = set (refs (shm_queue t))"

definition shm_legal :: "KVPacket \<Rightarrow> bool" where
  "shm_legal p \<longleftrightarrow> CHR ''|'' \<notin> set (kp_metadata p) \<and> length (kp_kv_blob p) < 2 ^ 64"

lemma refs_simps [simp]: "refs [] = []" "refs (p # q) = (case seg_ref p of None \<Rightarrow> [] | Some n \<Rightarrow> [n]) @ refs q"
  "refs (q @ q') = refs q @ refs q'"
  by (simp_all add: refs_def)

lemma refs_mem: "n \<in> set (refs q) \<longleftrightarrow> (\<exists>p \<in> set q. seg_ref p = Some n)"
  by (induction q) (auto split: option.splits)

lemma resolve_other: "seg_ref p \<noteq> Some n \<Longrightarrow> resolve (segs(n := v)) p = resolve segs p"
  by (auto simp: resolve_def split: option.split)

lemma map_resolve_other: "n \<notin> set (refs q) \<Longrightarrow> map (payload \<circ> resolve (segs(n := v))) q = map (payload \<circ> resolve segs) q"
  by (auto simp: refs_mem resolve_other)

text \<open>A packet sent inline.\<close>

lemma inline_enqueue:
  assumes "shm_ok t" "shm_legal p" "with_control (t\<lparr>shm_seq := k\<rparr>) (channel_Enqueue p (control_queue t)) = (t', r)"
  shows "shm_ok t' \<and> ch_capacity (control_queue t') = ch_capacity (control_queue t) \<and>
    r = (length (shm_contents t) < ch_capacity (control_queue t)) \<and>
    shm_contents t' = (if r then shm_contents t @ [payload p] else shm_contents t)"
proof -
  have "seg_ref (AppendControlMetadata p) = None"
    using assms(2) Extract_plain [of "kp_metadata p" p] by (simp add: seg_ref_def AppendControlMetadata_def shm_legal_def)
  then have "resolve (segments t) (AppendControlMetadata p) = AppendControlMetadata p"
    "refs [AppendControlMetadata p] = []" by (simp_all add: resolve_def)
  moreover have "segments t' = segments t" "ch_capacity (control_queue t') = ch_capacity (control_queue t)"
    "r = (length (shm_queue t) < ch_capacity (control_queue t))"
    "shm_queue t' = shm_queue t @ (if r then [AppendControlMetadata p] else [])"
    using assms(3) by (auto simp: with_control_def channel_Enqueue_def shm_queue_def split: if_splits)
  ultimately show ?thesis
    using assms(1) by (cases r) (simp_all add: shm_ok_def shm_contents_def channel_ok_def flip: shm_queue_def)
qed

text \<open>A packet sent through a new segment.\<close>

lemma segment_packet:
  assumes "shm_legal p" "kp_kv_blob p \<noteq> []"
    and p'_def: "p' = p\<lparr>kp_metadata := kp_metadata p @ ''|shm='' @ MakeShmName i k @ ''|size='' @
      nat_to_string (length (kp_kv_blob p)), kp_kv_blob := []\<rparr>"
  shows "seg_ref (AppendControlMetadata p') = Some (MakeShmName i k)"
    "payload (resolve (segs(MakeShmName i k := Some (kp_kv_blob p))) (AppendControlMetadata p')) = payload p"
proof -
  have md: "kp_metadata (AppendControlMetadata p') = kp_metadata p @ ''|shm='' @ MakeShmName i k @ ''|size='' @
      nat_to_string (length (kp_kv_blob p)) @ ticket_metadata p'"
    by (simp add: AppendControlMetadata_def p'_def)
  have ex: "ExtractShmName (kp_metadata (AppendControlMetadata p')) = MakeShmName i k"
    "ExtractShmSize (kp_metadata (AppendControlMetadata p')) = length (kp_kv_blob p)"
    unfolding md using assms(1) by (intro Extract_segment starts_field_ticket; simp add: shm_legal_def)+
  show ref: "seg_ref (AppendControlMetadata p') = Some (MakeShmName i k)"
    using assms(2) by (simp add: seg_ref_def ex MakeShmName_def)
  show "payload (resolve (segs(MakeShmName i k := Some (kp_kv_blob p))) (AppendControlMetadata p')) = payload p"
    by (simp add: resolve_def ref ex) (simp add: AppendControlMetadata_def p'_def payload_def)
qed

lemma shm_enqueue_law:
  assumes "shm_ok t" "shm_legal p" "shm_Enqueue faults p t = (t', r)"
  shows "shm_ok t' \<and> ch_capacity (control_queue t') = ch_capacity (control_queue t) \<and>
    r = (length (shm_contents t) < ch_capacity (control_queue t)) \<and>
    shm_contents t' = (if r then shm_contents t @ [payload p] else shm_contents t)"
proof -
  let ?n = "MakeShmName (kp_request_id p) (shm_seq t)" and ?f = "faults (shm_seq t)"
  consider "kp_kv_blob p = []" | "kp_kv_blob p \<noteq> []" "fault_open ?f \<or> segments t ?n \<noteq> None \<or> fault_truncate ?f \<or> fault_map ?f"
    | "kp_kv_blob p \<noteq> []" "segments t ?n = None" "\<not> (fault_open ?f \<or> fault_truncate ?f \<or> fault_map ?f)" by blast
  then show ?thesis
  proof cases
    case 1
    then show ?thesis using inline_enqueue [OF assms(1,2), of "shm_seq t"] assms(3) by (simp add: shm_Enqueue_def)
  next
    case 2
    then have "with_control (t\<lparr>shm_seq := shm_seq t + 1\<rparr>) (channel_Enqueue p (control_queue t)) = (t', r)"
      using assms(3) by (simp add: shm_Enqueue_def Let_def split: if_splits)
    then show ?thesis by (rule inline_enqueue [OF assms(1,2)])
  next
    case 3
    define p' where "p' = p\<lparr>kp_metadata := kp_metadata p @ ''|shm='' @ ?n @ ''|size='' @
        nat_to_string (length (kp_kv_blob p)), kp_kv_blob := []\<rparr>"
    note sp = segment_packet [OF assms(2) 3(1) p'_def]
    have fresh: "?n \<notin> set (refs (shm_queue t))" using assms(1) 3(2) by (auto simp: shm_ok_def)
    show ?thesis
    proof (cases "length (shm_queue t) < ch_capacity (control_queue t)")
      case True
      then have r: "r" "control_queue t' = fst (channel_Enqueue p' (control_queue t))"
        "segments t' = (segments t)(?n := Some (kp_kv_blob p))"
        using assms(3) 3 by (auto simp: shm_Enqueue_def Let_def with_control_def channel_Enqueue_def p'_def shm_queue_def)
      have q: "shm_queue t' = shm_queue t @ [AppendControlMetadata p']"
        "ch_capacity (control_queue t') = ch_capacity (control_queue t)"
        using True r(2) by (simp_all add: shm_queue_def channel_Enqueue_def)
      have "shm_contents t' = shm_contents t @ [payload p]"
        unfolding shm_contents_def q(1) r(3) using map_resolve_other [OF fresh] sp(2) by simp
      moreover have "shm_ok t'"
        using assms(1) fresh True sp(1) q r(3) by (auto simp: shm_ok_def channel_ok_def shm_queue_def)
      ultimately show ?thesis using True r(1) q(2) by (simp add: shm_contents_def)
    next
      case False
      then have "\<not> r" "control_queue t' = control_queue t" "segments t' = segments t"
        using assms(3) 3 by (auto simp: shm_Enqueue_def Let_def with_control_def channel_Enqueue_def shm_queue_def)
      then show ?thesis using assms(1) False by (simp add: shm_ok_def shm_contents_def shm_queue_def)
    qed
  qed
qed

lemma shm_dequeue_law:
  assumes "shm_ok t" "shm_contents t = v # vs"
  shows "\<exists>t' p. shm_TryDequeue True True t = (t', Some p) \<and> payload p = v \<and> shm_contents t' = vs \<and> shm_ok t' \<and>
    ch_capacity (control_queue t') = ch_capacity (control_queue t)"
proof -
  obtain p q where q: "shm_queue t = p # q" "v = payload (resolve (segments t) p)" "vs = map (payload \<circ> resolve (segments t)) q"
    using assms(2) by (auto simp: shm_contents_def)
  show ?thesis
  proof (cases "seg_ref p")
    case None
    then show ?thesis using assms(1) q
      by (auto simp: shm_TryDequeue_def channel_TryDequeue_def shm_queue_def seg_ref_def resolve_def shm_ok_def
          shm_contents_def channel_ok_def split: if_splits)
  next
    case (Some n)
    then have n: "n = ExtractShmName (kp_metadata p)" "n \<noteq> []" "ExtractShmSize (kp_metadata p) > 0"
      by (auto simp: seg_ref_def split: if_splits)
    have d: "distinct (n # refs q)" "dom (segments t) = set (n # refs q)"
      using assms(1) q(1) Some by (simp_all add: shm_ok_def)
    then obtain b where b: "segments t n = Some b" by auto
    have v: "v = payload (p\<lparr>kp_kv_blob := take (ExtractShmSize (kp_metadata p)) b\<rparr>)"
      by (simp add: q(2) resolve_def Some b)
    have "map (payload \<circ> resolve ((segments t)(n := None))) q = vs"
      unfolding q(3) by (rule map_resolve_other) (use d in simp)
    moreover have "dom ((segments t)(n := None)) = set (refs q)" using d by auto
    ultimately show ?thesis
      using assms(1) q(1) d v b n
      by (auto simp: shm_TryDequeue_def channel_TryDequeue_def shm_queue_def shm_ok_def shm_contents_def channel_ok_def Let_def)
  qed
qed

lemma shm_dequeue_empty: "shm_contents t = [] \<Longrightarrow> shm_TryDequeue a b t = (t, None)"
  by (simp add: shm_contents_def shm_queue_def shm_TryDequeue_def channel_TryDequeue_def)

interpretation shm: kv_transport "shm_Enqueue faults" "shm_TryDequeue True True" shm_contents payload
  "\<lambda>t. ch_capacity (control_queue t)" shm_ok shm_legal for faults
  by unfold_locales (rule shm_enqueue_law shm_dequeue_law shm_dequeue_empty; assumption)+

lemma ShmKVTransport_init_ok: "shm_ok (ShmKVTransport_init n)"
  by (simp add: shm_ok_def ShmKVTransport_init_def shm_queue_def KVChannel_init_def channel_ok_def)


definition example_packet :: "nat \<Rightarrow> byte list \<Rightarrow> KVPacket" where
  "example_packet i blob = \<lparr>kp_request_id = i, kp_ticket_id = i, kp_ticket_stage = kEnqueued, kp_prompt_tokens = [],
     kp_kv_blob = blob, kp_kv_page = -1, kp_n_past = 3, kp_sequence_id = 0, kp_metadata = ''tiny''\<rparr>"

text \<open>The second segment cannot be created and the third packet does not fit.\<close>

definition example_faults :: "nat \<Rightarrow> shm_faults" where
  "example_faults k = \<lparr>fault_open = (k = 1), fault_truncate = False, fault_map = False\<rparr>"

definition example_transport_ops :: "transport_op list" where
  "example_transport_ops = [Put (example_packet 1 [7, 8]), Put (example_packet 2 [9]), Put (example_packet 3 [4]), Take]"


end
