(* ===== verification/Lane_Dispatcher.thy ===== *)
theory Lane_Dispatcher
  imports Request_Batch
begin

section \<open>Unified batches and the two execution lanes\<close>

text \<open>
  The batch types of \<open>runtime/backends/common/backend_types.h\<close> and the lane dispatcher
  \<open>runtime/execution/unified_batch_lane_dispatcher.{h,cpp}\<close>: clients submit batches to a decode or a
  prefill lane and poll for the results, one worker thread per lane executes them outside the lock, and
  abandoned entries are swept. The critical sections are functions on the state, the interleavings of clients and
  workers are the inductive relation \<open>lane_step\<close>, with the outcome of an execution chosen by the environment.
  The members that exist once per lane are functions of the lane, \<open>True\<close> for decode.
  Handles are unbounded here; \<open>Stop\<close> is called by one thread at a time.
\<close>

record UnifiedBatchInput =
  ui_sequence_id :: int
  ui_n_past :: int
  ui_tokens :: "int list"
  ui_request_logits :: bool
  ui_sampling :: SamplingParams
  ui_request_id :: int
  ui_client_request_id :: string
  ui_sequence_generation :: nat
  ui_logprob_top_n :: int

record UnifiedBatchOutput =
  uo_token :: int
  uo_piece :: "byte list"
  uo_ok :: bool
  uo_step_logprob :: TokenLogprob
  uo_has_step_logprob :: bool

record ExecutionResult =
  er_success :: bool
  er_outputs :: "UnifiedBatchOutput list"
  er_error :: string
  er_elapsed_ms :: real

datatype CollectStatus = Collect_kPending | Collect_kSuccess | Collect_kFailed | Collect_kMissing

record WorkItem =
  wi_handle :: nat
  wi_decode_lane :: bool
  wi_inputs :: "UnifiedBatchInput list"

record PendingState =
  pd_decode_lane :: bool
  pd_ready :: bool
  pd_success :: bool
  pd_outputs :: "UnifiedBatchOutput list"
  pd_error :: string
  pd_elapsed_ms :: real
  pd_enqueued_at :: time_point

text \<open>Where a worker thread is: not started, waiting at the top of its loop, executing, returned.\<close>

datatype lane_worker = Absent | Waiting | Executing WorkItem | Exited

record LaneDispatcher =
  ld_max_pending_per_lane :: nat
  ld_has_execute_fn :: bool
  ld_next_handle :: nat
  ld_running :: bool
  ld_stopping :: bool
  ld_worker :: "bool \<Rightarrow> lane_worker"
  ld_queue :: "bool \<Rightarrow> WorkItem list"
  ld_pending :: "(nat \<times> PendingState) list"
  ld_pending_count :: "bool \<Rightarrow> nat"

definition kDefaultPendingLimit :: nat where
  "kDefaultPendingLimit = 64"

definition NormalizePendingLimit :: "nat \<Rightarrow> nat" where
  "NormalizePendingLimit v = max 1 (if v = 0 then kDefaultPendingLimit else v)"

definition LaneDispatcher_init :: "nat \<Rightarrow> LaneDispatcher" where
  "LaneDispatcher_init limit =
     \<lparr>ld_max_pending_per_lane = NormalizePendingLimit limit, ld_has_execute_fn = False, ld_next_handle = 1,
      ld_running = False, ld_stopping = False, ld_worker = (\<lambda>_. Absent), ld_queue = (\<lambda>_. []),
      ld_pending = [], ld_pending_count = (\<lambda>_. 0)\<rparr>"

text \<open>\<open>Start\<close> after its call of \<open>Stop\<close> has returned; the argument says whether the function is callable.\<close>

definition lane_Start :: "bool \<Rightarrow> LaneDispatcher \<Rightarrow> LaneDispatcher \<times> bool" where
  "lane_Start callable d =
     (if \<not> callable then (d, False)
      else (d\<lparr>ld_has_execute_fn := True, ld_stopping := False, ld_running := True, ld_worker := (\<lambda>_. Waiting)\<rparr>, True))"

text \<open>The two critical sections of \<open>Stop\<close>, before and after joining the workers.\<close>

definition Stop_begin :: "LaneDispatcher \<Rightarrow> LaneDispatcher" where
  "Stop_begin d = (if \<not> ld_running d then d else d\<lparr>ld_stopping := True, ld_queue := (\<lambda>_. [])\<rparr>)"

definition Stop_end :: "LaneDispatcher \<Rightarrow> LaneDispatcher" where
  "Stop_end d = d\<lparr>ld_worker := (\<lambda>_. Absent), ld_pending := [], ld_pending_count := (\<lambda>_. 0),
     ld_has_execute_fn := False, ld_stopping := False, ld_running := False\<rparr>"

definition lane_IsRunning :: "LaneDispatcher \<Rightarrow> bool" where
  "lane_IsRunning d \<longleftrightarrow> ld_running d \<and> \<not> ld_stopping d"

definition Submit :: "time_point \<Rightarrow> UnifiedBatchInput list \<Rightarrow> bool \<Rightarrow> LaneDispatcher \<Rightarrow> LaneDispatcher \<times> nat" where
  "Submit now inputs decode_lane d =
     (if inputs = [] then (d, 0)
      else if \<not> ld_running d \<or> ld_stopping d \<or> \<not> ld_has_execute_fn d then (d, 0)
      else if ld_pending_count d decode_lane \<ge> ld_max_pending_per_lane d then (d, 0)
      else
        let handle = ld_next_handle d;
            state = \<lparr>pd_decode_lane = decode_lane, pd_ready = False, pd_success = False, pd_outputs = [],
                     pd_error = [], pd_elapsed_ms = 0, pd_enqueued_at = now\<rparr>;
            item = \<lparr>wi_handle = handle, wi_decode_lane = decode_lane, wi_inputs = inputs\<rparr>
        in (d\<lparr>ld_next_handle := handle + 1,
              ld_pending := ld_pending d @ [(handle, state)],
              ld_pending_count := (ld_pending_count d)(decode_lane := ld_pending_count d decode_lane + 1),
              ld_queue := (ld_queue d)(decode_lane := ld_queue d decode_lane @ [item])\<rparr>, handle))"

text \<open>What \<open>TryCollect\<close> returns and writes; a field is \<open>None\<close> where the output argument is left alone.\<close>

record collect_result =
  cr_status :: CollectStatus
  cr_outputs :: "UnifiedBatchOutput list option"
  cr_decode_lane :: "bool option"
  cr_error :: "string option"
  cr_elapsed_ms :: "real option"

definition collect_missing :: collect_result where
  "collect_missing = \<lparr>cr_status = Collect_kMissing, cr_outputs = None, cr_decode_lane = None, cr_error = None, cr_elapsed_ms = None\<rparr>"

definition TryCollect :: "nat \<Rightarrow> LaneDispatcher \<Rightarrow> LaneDispatcher \<times> collect_result" where
  "TryCollect handle d =
     (if handle = 0 then (d, collect_missing)
      else case map_of (ld_pending d) handle of
          None \<Rightarrow> (d, collect_missing)
        | Some state \<Rightarrow>
            if \<not> pd_ready state then (d, collect_missing\<lparr>cr_status := Collect_kPending, cr_decode_lane := Some (pd_decode_lane state)\<rparr>)
            else
              let lane = pd_decode_lane state;
                  lane_pending = ld_pending_count d lane;
                  status = (if pd_success state then Collect_kSuccess else Collect_kFailed)
              in (d\<lparr>ld_pending_count := (ld_pending_count d)(lane := (if lane_pending > 0 then lane_pending - 1 else lane_pending)),
                    ld_pending := AList.delete handle (ld_pending d)\<rparr>,
                  \<lparr>cr_status = status, cr_outputs = (if status = Collect_kSuccess then Some (pd_outputs state) else None),
                   cr_decode_lane = Some lane, cr_error = Some (pd_error state), cr_elapsed_ms = Some (pd_elapsed_ms state)\<rparr>))"

definition PendingCount :: "bool \<Rightarrow> LaneDispatcher \<Rightarrow> nat" where
  "PendingCount decode_lane d = ld_pending_count d decode_lane"

text \<open>The loop over the table; the third result lists the handles reclaimed.\<close>

fun sweep_loop ::
  "time_point \<Rightarrow> (nat \<times> PendingState) list \<Rightarrow> (bool \<Rightarrow> nat) \<Rightarrow> (nat \<times> PendingState) list \<times> (bool \<Rightarrow> nat) \<times> nat list" where
  "sweep_loop cutoff [] count = ([], count, [])"
| "sweep_loop cutoff ((h, s) # rest) count =
     (if pd_enqueued_at s < cutoff then
        let lane = pd_decode_lane s;
            (kept, count', hs) = sweep_loop cutoff rest
              (if count lane > 0 then count(lane := count lane - 1) else count)
        in (kept, count', h # hs)
      else
        let (kept, count', hs) = sweep_loop cutoff rest count
        in ((h, s) # kept, count', hs))"

definition SweepAbandoned :: "time_point \<Rightarrow> int \<Rightarrow> LaneDispatcher \<Rightarrow> LaneDispatcher \<times> nat list" where
  "SweepAbandoned now min_age d =
     (let (kept, count', hs) = sweep_loop (now - min_age) (ld_pending d) (ld_pending_count d)
      in (d\<lparr>ld_pending := kept, ld_pending_count := count'\<rparr>, hs))"

subsection \<open>The worker loop\<close>

text \<open>Items whose entry was swept are dropped.\<close>

fun next_item :: "(nat \<times> PendingState) list \<Rightarrow> WorkItem list \<Rightarrow> WorkItem option \<times> WorkItem list" where
  "next_item pending [] = (None, [])"
| "next_item pending (item # queue) =
     (if map_of pending (wi_handle item) \<noteq> None then (Some item, queue) else next_item pending queue)"

definition Worker_take_item :: "bool \<Rightarrow> LaneDispatcher \<Rightarrow> LaneDispatcher \<times> WorkItem option" where
  "Worker_take_item lane d =
     (let (found, queue) = next_item (ld_pending d) (ld_queue d lane);
          d1 = d\<lparr>ld_queue := (ld_queue d)(lane := queue)\<rparr>
      in case found of
           None \<Rightarrow> (d1, None)
         | Some item \<Rightarrow> (d1\<lparr>ld_worker := (ld_worker d)(lane := Executing item)\<rparr>, Some item))"

datatype lane_outcome = Returned ExecutionResult | Threw string | Threw_unknown

fun lane_result :: "lane_outcome \<Rightarrow> ExecutionResult" where
  "lane_result (Returned r) = r"
| "lane_result (Threw what) = \<lparr>er_success = False, er_outputs = [], er_error = what, er_elapsed_ms = 0\<rparr>"
| "lane_result Threw_unknown =
     \<lparr>er_success = False, er_outputs = [], er_error = ''unknown lane execution exception'', er_elapsed_ms = 0\<rparr>"

definition complete_state :: "ExecutionResult \<Rightarrow> PendingState \<Rightarrow> PendingState" where
  "complete_state r s = s\<lparr>pd_ready := True, pd_success := er_success r, pd_outputs := er_outputs r,
     pd_error := er_error r, pd_elapsed_ms := er_elapsed_ms r\<rparr>"

definition Worker_finish_item :: "bool \<Rightarrow> WorkItem \<Rightarrow> lane_outcome \<Rightarrow> LaneDispatcher \<Rightarrow> LaneDispatcher" where
  "Worker_finish_item lane item outcome d =
     (let d1 = d\<lparr>ld_worker := (ld_worker d)(lane := Waiting)\<rparr>
      in d1\<lparr>ld_pending := map (\<lambda>(h, s). (h, if h = wi_handle item then complete_state (lane_result outcome) s else s)) (ld_pending d1)\<rparr>)"

definition Worker_return :: "bool \<Rightarrow> LaneDispatcher \<Rightarrow> LaneDispatcher" where
  "Worker_return lane d = d\<lparr>ld_worker := (ld_worker d)(lane := Exited)\<rparr>"

subsection \<open>Interleavings\<close>

datatype lane_event =
    Submitted nat "UnifiedBatchInput list" bool
  | Collected nat collect_result
  | Swept "nat list"
  | Taken bool "WorkItem option"
  | Finished bool WorkItem lane_outcome
  | Worker_exited bool
  | Stop_began
  | Stop_ended
  | Started

inductive lane_step :: "LaneDispatcher \<Rightarrow> lane_event \<Rightarrow> LaneDispatcher \<Rightarrow> bool" where
  submit: "Submit now inputs lane d = (d', h) \<Longrightarrow> lane_step d (Submitted h inputs lane) d'"
| collect: "TryCollect h d = (d', r) \<Longrightarrow> lane_step d (Collected h r) d'"
| sweep: "SweepAbandoned now min_age d = (d', hs) \<Longrightarrow> lane_step d (Swept hs) d'"
| take_item: "ld_worker d lane = Waiting \<Longrightarrow> ld_queue d lane \<noteq> [] \<Longrightarrow> Worker_take_item lane d = (d', found) \<Longrightarrow>
    lane_step d (Taken lane found) d'"
| finish_item: "ld_worker d lane = Executing item \<Longrightarrow>
    lane_step d (Finished lane item outcome) (Worker_finish_item lane item outcome d)"
| return: "ld_worker d lane = Waiting \<Longrightarrow> ld_stopping d \<Longrightarrow> ld_queue d lane = [] \<Longrightarrow>
    lane_step d (Worker_exited lane) (Worker_return lane d)"
| stop_begin: "ld_running d \<Longrightarrow> \<not> ld_stopping d \<Longrightarrow> lane_step d Stop_began (Stop_begin d)"
| stop_end: "ld_stopping d \<Longrightarrow> ld_worker d True = Exited \<Longrightarrow> ld_worker d False = Exited \<Longrightarrow> lane_step d Stop_ended (Stop_end d)"
| start: "\<not> ld_running d \<Longrightarrow> lane_step d Started (fst (lane_Start True d))"

inductive lane_run :: "LaneDispatcher \<Rightarrow> lane_event list \<Rightarrow> LaneDispatcher \<Rightarrow> bool" where
  run_nil: "lane_run d [] d"
| run_snoc: "lane_run d tr d1 \<Longrightarrow> lane_step d1 e d2 \<Longrightarrow> lane_run d (tr @ [e]) d2"

inductive_cases lane_stepE: "lane_step d e d'"
inductive_simps lane_run_nil [simp]: "lane_run d [] d'"
inductive_simps lane_run_snoc [simp]: "lane_run d (tr @ [e]) d'"

lemma lane_run_append: "lane_run d (tr1 @ tr2) d' \<longleftrightarrow> (\<exists>d1. lane_run d tr1 d1 \<and> lane_run d1 tr2 d')"
proof (induction tr2 arbitrary: d' rule: rev_induct)
  case (snoc e tr2)
  then show ?case by (auto simp flip: append_assoc)
qed simp

section \<open>The accounting of the lanes\<close>

text \<open>The items a lane still has to deal with, in order: the one being executed, then the queue.\<close>

definition tracked :: "LaneDispatcher \<Rightarrow> bool \<Rightarrow> WorkItem list" where
  "tracked d lane = (case ld_worker d lane of Executing item \<Rightarrow> [item] | _ \<Rightarrow> []) @ ld_queue d lane"

definition on_lane :: "bool \<Rightarrow> nat \<times> PendingState \<Rightarrow> bool" where
  "on_lane lane e \<longleftrightarrow> pd_decode_lane (snd e) = lane"

definition table_ok :: "LaneDispatcher \<Rightarrow> bool" where
  "table_ok d \<longleftrightarrow> 1 \<le> ld_max_pending_per_lane d \<and> distinct (map fst (ld_pending d)) \<and>
     (\<forall>h \<in> fst ` set (ld_pending d). 0 < h \<and> h < ld_next_handle d) \<and> 0 < ld_next_handle d \<and>
     (\<forall>lane. ld_pending_count d lane = count_if (on_lane lane) (ld_pending d)) \<and>
     (\<forall>lane. ld_pending_count d lane \<le> ld_max_pending_per_lane d)"

definition item_ok :: "LaneDispatcher \<Rightarrow> bool \<Rightarrow> WorkItem \<Rightarrow> bool" where
  "item_ok d lane item \<longleftrightarrow> wi_decode_lane item = lane \<and> 0 < wi_handle item \<and> wi_handle item < ld_next_handle d \<and>
     (\<forall>s. (wi_handle item, s) \<in> set (ld_pending d) \<longrightarrow> pd_decode_lane s = lane \<and> \<not> pd_ready s)"

definition items_ok :: "LaneDispatcher \<Rightarrow> bool" where
  "items_ok d \<longleftrightarrow> (\<forall>lane. (\<forall>item \<in> set (tracked d lane). item_ok d lane item) \<and> sorted_wrt (<) (map wi_handle (tracked d lane)))"

text \<open>No batch is stranded: unless the dispatcher is stopping, an entry without a result has its item in its lane.\<close>

definition none_stranded :: "LaneDispatcher \<Rightarrow> bool" where
  "none_stranded d \<longleftrightarrow> \<not> ld_stopping d \<longrightarrow>
     (\<forall>(h, s) \<in> set (ld_pending d). \<not> pd_ready s \<longrightarrow> h \<in> wi_handle ` set (tracked d (pd_decode_lane s)))"

definition phase_ok :: "LaneDispatcher \<Rightarrow> bool" where
  "phase_ok d \<longleftrightarrow>
     (if ld_running d then \<forall>lane. ld_worker d lane \<noteq> Absent \<and> (ld_worker d lane = Exited \<longrightarrow> ld_stopping d)
      else \<not> ld_stopping d \<and> ld_pending d = [] \<and> (\<forall>lane. ld_worker d lane = Absent \<and> ld_queue d lane = [])) \<and>
     (ld_stopping d \<longrightarrow> (\<forall>lane. ld_queue d lane = []))"

definition lanes_ok :: "LaneDispatcher \<Rightarrow> bool" where
  "lanes_ok d \<longleftrightarrow> table_ok d \<and> items_ok d \<and> none_stranded d \<and> phase_ok d"

lemmas lanes_defs = lanes_ok_def table_ok_def items_ok_def none_stranded_def phase_ok_def

lemma LaneDispatcher_init_ok: "lanes_ok (LaneDispatcher_init n)"
  by (simp add: lanes_defs LaneDispatcher_init_def NormalizePendingLimit_def tracked_def)

subsection \<open>Lists and tables\<close>

lemma sweep_loop_spec:
  assumes "sweep_loop cutoff xs count = (kept, count', hs)"
  shows "kept = filter (\<lambda>(h, s). \<not> pd_enqueued_at s < cutoff) xs" "hs = map fst (filter (\<lambda>(h, s). pd_enqueued_at s < cutoff) xs)"
    "\<And>lane. count' lane = count lane - count_if (\<lambda>e. on_lane lane e \<and> pd_enqueued_at (snd e) < cutoff) xs"
  using assms
  by (induction xs arbitrary: count kept count' hs)
    (fastforce simp: on_lane_def case_prod_beta Let_def prod_eq_iff split: if_splits)+

lemma count_if_split: "count_if P xs = count_if (\<lambda>x. P x \<and> Q x) xs + count_if P (filter (\<lambda>x. \<not> Q x) xs)"
  by (induction xs) auto

lemma count_if_delete:
  assumes "distinct (map fst xs)" "map_of xs k = Some v"
  shows "count_if P xs = count_if P (AList.delete k xs) + (if P (k, v) then 1 else 0)"
  using assms
proof (induction xs)
  case (Cons x xs)
  show ?case
  proof (cases "fst x = k")
    case True
    with Cons.prems have "k \<notin> fst ` set xs" "x = (k, v)" by (auto simp: prod_eq_iff)
    then show ?thesis by (simp add: delete_notin_dom [unfolded dom_map_of_conv_image_fst] AList.delete_idem dom_map_of_conv_image_fst)
  next
    case False
    with Cons show ?thesis by (cases x) (auto split: if_splits)
  qed
qed simp

lemma next_item_spec:
  "next_item pending queue = (found, rest) \<Longrightarrow>
   case found of
     None \<Rightarrow> rest = [] \<and> (\<forall>item \<in> set queue. wi_handle item \<notin> fst ` set pending)
   | Some item \<Rightarrow> (\<exists>skipped. queue = skipped @ item # rest \<and> (\<forall>i \<in> set skipped. wi_handle i \<notin> fst ` set pending)) \<and>
       wi_handle item \<in> fst ` set pending"
proof (induction queue)
  case (Cons i queue)
  show ?case
  proof (cases "wi_handle i \<in> fst ` set pending")
    case True
    then have "map_of pending (wi_handle i) \<noteq> None" by (simp add: map_of_eq_None_iff)
    then have "found = Some i" "rest = queue" using Cons.prems by auto
    then show ?thesis using True by (auto intro: exI [of _ "[]"])
  next
    case False
    then have "map_of pending (wi_handle i) = None" by (simp add: map_of_eq_None_iff)
    then have "next_item pending queue = (found, rest)" using Cons.prems by simp
    from Cons.IH [OF this] False show ?thesis by (force split: option.splits intro: exI [of _ "i # _"])
  qed
qed simp

subsection \<open>Every step keeps the invariant\<close>

lemma lanes_ok_shrink:
  assumes "lanes_ok d" "table_ok d'" "set (ld_pending d') \<subseteq> set (ld_pending d)"
    "ld_worker d' = ld_worker d" "ld_queue d' = ld_queue d" "ld_next_handle d' = ld_next_handle d"
    "ld_running d' = ld_running d" "ld_stopping d' = ld_stopping d"
  shows "lanes_ok d'"
proof -
  have t: "tracked d' = tracked d" by (rule ext) (simp add: tracked_def assms)
  have "items_ok d'" using assms(1,3) by (auto simp: lanes_ok_def items_ok_def item_ok_def t assms(6))
  moreover have "none_stranded d'" using assms(1,3) by (auto simp: lanes_ok_def none_stranded_def t assms(8))
  moreover have "phase_ok d'" using assms(1,3) by (auto simp: lanes_ok_def phase_ok_def assms(4-8))
  ultimately show ?thesis using assms(2) by (simp add: lanes_ok_def)
qed

lemma TryCollect_ok [invariants]:
  assumes "lanes_ok d" "TryCollect h d = (d', r)"
  shows "lanes_ok d'"
proof (cases "\<exists>s. h \<noteq> 0 \<and> map_of (ld_pending d) h = Some s \<and> pd_ready s")
  case True
  then obtain s where s: "h \<noteq> 0" "map_of (ld_pending d) h = Some s" "pd_ready s" by blast
  let ?l = "pd_decode_lane s"
  have d': "d' = d\<lparr>ld_pending_count := (ld_pending_count d)(?l := ld_pending_count d ?l - 1), ld_pending := AList.delete h (ld_pending d)\<rparr>"
    using assms(2) s by (auto simp: TryCollect_def Let_def)
  have t: "table_ok d" using assms(1) by (simp add: lanes_ok_def)
  have c: "count_if (on_lane l) (ld_pending d) = count_if (on_lane l) (AList.delete h (ld_pending d)) + (if l = ?l then 1 else 0)" for l
    using count_if_delete [of "ld_pending d" h s "on_lane l"] t s(2) by (auto simp: table_ok_def on_lane_def)
  have n: "ld_pending_count d' l = count_if (on_lane l) (ld_pending d')" "ld_pending_count d' l \<le> ld_max_pending_per_lane d" for l
  proof -
    have "ld_pending_count d l = count_if (on_lane l) (ld_pending d)" "ld_pending_count d l \<le> ld_max_pending_per_lane d"
      using t unfolding table_ok_def by blast+
    then show "ld_pending_count d' l = count_if (on_lane l) (ld_pending d')" "ld_pending_count d' l \<le> ld_max_pending_per_lane d"
      using c [of l] by (auto simp: d' split: if_splits)
  qed
  have "table_ok d'"
    unfolding table_ok_def
  proof (intro conjI allI)
    show "distinct (map fst (ld_pending d'))" using t distinct_delete [of "ld_pending d" h] by (simp add: d' table_ok_def)
    show "\<forall>k \<in> fst ` set (ld_pending d'). 0 < k \<and> k < ld_next_handle d'" using t by (simp add: table_ok_def d' AList.delete_eq)
    show "ld_pending_count d' l = count_if (on_lane l) (ld_pending d')" for l by (rule n(1))
    show "ld_pending_count d' l \<le> ld_max_pending_per_lane d'" for l using n(2) [of l] by (simp add: d')
  qed (use t in \<open>auto simp: table_ok_def d'\<close>)
  then show ?thesis by (rule lanes_ok_shrink [OF assms(1)]) (auto simp: d' AList.delete_eq)
next
  case False
  then have "d' = d" using assms(2) by (auto simp: TryCollect_def split: option.splits if_splits)
  then show ?thesis using assms(1) by simp
qed

lemma SweepAbandoned_ok [invariants]:
  assumes "lanes_ok d" "SweepAbandoned now min_age d = (d', hs)"
  shows "lanes_ok d'"
proof -
  obtain kept count' hs' where l: "sweep_loop (now - min_age) (ld_pending d) (ld_pending_count d) = (kept, count', hs')"
    by (metis prod_cases3)
  note sp = sweep_loop_spec [OF l]
  have d': "d' = d\<lparr>ld_pending := kept, ld_pending_count := count'\<rparr>" using assms(2) l by (simp add: SweepAbandoned_def)
  have t: "table_ok d" using assms(1) by (simp add: lanes_ok_def)
  have k: "kept = filter (\<lambda>e. \<not> pd_enqueued_at (snd e) < now - min_age) (ld_pending d)"
    unfolding sp(1) by (rule filter_cong) auto
  have "count' lane = count_if (on_lane lane) kept" for lane
    using count_if_split [of "on_lane lane" "ld_pending d" "\<lambda>e. pd_enqueued_at (snd e) < now - min_age"] sp(3) [of lane] t
    by (simp add: k table_ok_def)
  moreover have "count' lane \<le> ld_max_pending_per_lane d" for lane
    using sp(3) [of lane] t diff_le_self le_trans unfolding table_ok_def by metis
  moreover have "distinct (map fst kept)" using t by (simp add: k table_ok_def distinct_map_filter)
  ultimately have "table_ok d'" using t by (auto simp: table_ok_def d' k)
  then show ?thesis by (rule lanes_ok_shrink [OF assms(1)]) (auto simp: d' k)
qed

lemma Submit_ok [invariants]:
  assumes "lanes_ok d" "Submit now inputs lane d = (d', h)"
  shows "lanes_ok d'"
proof (cases "h = 0")
  case True
  have "0 < ld_next_handle d" using assms(1) by (simp add: lanes_ok_def table_ok_def)
  then have "d' = d" using True assms(2) by (auto simp: Submit_def Let_def split: if_splits)
  then show ?thesis using assms(1) by simp
next
  case False
  define s where "s = \<lparr>pd_decode_lane = lane, pd_ready = False, pd_success = False, pd_outputs = [], pd_error = [],
    pd_elapsed_ms = 0, pd_enqueued_at = now\<rparr>"
  define item where "item = \<lparr>wi_handle = h, wi_decode_lane = lane, wi_inputs = inputs\<rparr>"
  have n: "h = ld_next_handle d" "ld_running d" "\<not> ld_stopping d" "ld_pending_count d lane < ld_max_pending_per_lane d"
    and d': "d' = d\<lparr>ld_next_handle := h + 1, ld_pending := ld_pending d @ [(h, s)],
              ld_pending_count := (ld_pending_count d)(lane := ld_pending_count d lane + 1),
              ld_queue := (ld_queue d)(lane := ld_queue d lane @ [item])\<rparr>"
    using False assms(2) by (auto simp: Submit_def Let_def s_def item_def split: if_splits)
  have t: "tracked d' l = tracked d l @ (if l = lane then [item] else [])" for l by (simp add: tracked_def d')
  have i: "items_ok d" "table_ok d" "none_stranded d" "phase_ok d" using assms(1) by (simp_all add: lanes_ok_def)
  have fresh: "\<forall>x \<in> set (tracked d l). wi_handle x < h" "h \<notin> fst ` set (ld_pending d)" for l
    using i(1,2) by (auto simp: items_ok_def item_ok_def table_ok_def n(1))
  have it: "item_ok d' lane item"
    using fresh(2) i(2) by (force simp: item_ok_def item_def d' s_def n(1) table_ok_def)
  have old: "item_ok d' l x" if "x \<in> set (tracked d l)" for l x
    using i(1) fresh(1) [of l] that by (force simp: items_ok_def item_ok_def d' n(1))
  have "items_ok d'"
    using i(1) it old fresh(1) by (auto simp: items_ok_def t sorted_wrt_append) (simp add: item_def)
  moreover have "table_ok d'" using i(2) n fresh(2) by (auto simp: table_ok_def d' on_lane_def s_def)
  moreover have "none_stranded d'" using i(3) n(3) by (auto simp: none_stranded_def t) (auto simp: d' s_def item_def)
  moreover have "phase_ok d'" using i(4) n by (simp add: phase_ok_def d')
  ultimately show ?thesis by (simp add: lanes_ok_def)
qed

lemma Worker_take_item_tracked:
  assumes "ld_worker d lane = Waiting" "Worker_take_item lane d = (d', found)"
  obtains skipped where "tracked d lane = skipped @ tracked d' lane" "\<forall>i \<in> set skipped. wi_handle i \<notin> fst ` set (ld_pending d)"
    "\<And>l. l \<noteq> lane \<Longrightarrow> tracked d' l = tracked d l"
    "\<And>i. found = Some i \<Longrightarrow> wi_handle i \<in> fst ` set (ld_pending d) \<and> (\<exists>q. tracked d' lane = i # q \<and> ld_queue d' lane = q)"
proof -
  obtain rest where n: "next_item (ld_pending d) (ld_queue d lane) = (found, rest)"
    using assms(2) by (auto simp: Worker_take_item_def Let_def split: prod.splits option.splits)
  have t: "tracked d lane = ld_queue d lane" by (simp add: tracked_def assms(1))
  have other: "tracked d' l = tracked d l" if "l \<noteq> lane" for l
    using assms(2) n that by (auto simp: Worker_take_item_def tracked_def Let_def split: option.splits)
  show ?thesis
  proof (cases found)
    case None
    then have "tracked d' lane = []" "\<forall>i \<in> set (ld_queue d lane). wi_handle i \<notin> fst ` set (ld_pending d)"
      using assms n next_item_spec [OF n] by (auto simp: Worker_take_item_def tracked_def)
    then show ?thesis using that [of "ld_queue d lane"] t other None by simp
  next
    case (Some item)
    then obtain skipped where "ld_queue d lane = skipped @ item # rest" "\<forall>i \<in> set skipped. wi_handle i \<notin> fst ` set (ld_pending d)"
      "wi_handle item \<in> fst ` set (ld_pending d)" using next_item_spec [OF n] by auto
    moreover have "tracked d' lane = item # rest" "ld_queue d' lane = rest"
      using assms(2) n Some by (auto simp: Worker_take_item_def tracked_def)
    ultimately show ?thesis using that [of skipped] t other Some by simp
  qed
qed

lemma Worker_take_item_found:
  assumes "Worker_take_item lane d = (d', Some i)"
  shows "wi_handle i \<in> fst ` set (ld_pending d)" "ld_worker d' lane = Executing i"
proof -
  obtain rest where n: "next_item (ld_pending d) (ld_queue d lane) = (Some i, rest)"
    using assms by (auto simp: Worker_take_item_def Let_def split: prod.splits option.splits)
  show "wi_handle i \<in> fst ` set (ld_pending d)" using next_item_spec [OF n] by simp
  show "ld_worker d' lane = Executing i" using assms n by (auto simp: Worker_take_item_def)
qed

lemma Worker_take_item_frame:
  assumes "Worker_take_item lane d = (d', found)"
  shows "ld_pending d' = ld_pending d" "ld_pending_count d' = ld_pending_count d" "ld_next_handle d' = ld_next_handle d"
    "ld_max_pending_per_lane d' = ld_max_pending_per_lane d" "ld_running d' = ld_running d" "ld_stopping d' = ld_stopping d"
  using assms by (auto simp: Worker_take_item_def Let_def split: prod.splits option.splits)

lemma Worker_take_item_ok [invariants]:
  assumes "lanes_ok d" "ld_worker d lane = Waiting" "ld_queue d lane \<noteq> []" "Worker_take_item lane d = (d', found)"
  shows "lanes_ok d'"
proof -
  note fr = Worker_take_item_frame [OF assms(4)]
  obtain skipped where t: "tracked d lane = skipped @ tracked d' lane" "\<forall>i \<in> set skipped. wi_handle i \<notin> fst ` set (ld_pending d)"
    "\<And>l. l \<noteq> lane \<Longrightarrow> tracked d' l = tracked d l" using Worker_take_item_tracked [OF assms(2,4)] by metis
  have i: "items_ok d" "table_ok d" "none_stranded d" "phase_ok d" using assms(1) by (simp_all add: lanes_ok_def)
  have sub: "set (tracked d' l) \<subseteq> set (tracked d l)" "sorted_wrt (<) (map wi_handle (tracked d' l))" for l
    using i(1) t(1) t(3) [of l] by (cases "l = lane"; auto simp: items_ok_def sorted_wrt_append dest: spec [of _ lane])+
  have "items_ok d'" using i(1) sub by (auto simp: items_ok_def item_ok_def fr)
  moreover have "table_ok d'" using i(2) unfolding table_ok_def fr .
  moreover have "none_stranded d'"
    unfolding none_stranded_def fr
  proof (intro impI ballI, clarify)
    fix h s assume hs: "\<not> ld_stopping d" "(h, s) \<in> set (ld_pending d)" "\<not> pd_ready s"
    then have "h \<in> wi_handle ` set (tracked d (pd_decode_lane s))" using i(3) by (auto simp: none_stranded_def)
    moreover have "h \<in> fst ` set (ld_pending d)" using hs(2) by force
    ultimately show "h \<in> wi_handle ` set (tracked d' (pd_decode_lane s))"
      using t by (cases "pd_decode_lane s = lane") auto
  qed
  moreover have "phase_ok d'"
  proof -
    have "ld_running d" "\<not> ld_stopping d" using i(4) assms(2,3) by (auto simp: phase_ok_def split: if_splits)
    moreover have "ld_worker d' l = ld_worker d l \<or> (\<exists>i. ld_worker d' l = Executing i)" for l
      using assms(4) by (cases "l = lane") (auto simp: Worker_take_item_def Let_def split: prod.splits option.splits)
    ultimately show ?thesis using i(4) unfolding phase_ok_def fr by (metis lane_worker.distinct)
  qed
  ultimately show ?thesis by (simp add: lanes_ok_def)
qed

lemma complete_state_lane [simp]: "pd_decode_lane (complete_state r s) = pd_decode_lane s" "pd_ready (complete_state r s)"
  by (simp_all add: complete_state_def)

lemma Worker_finish_item_pending:
  "(h, s) \<in> set (ld_pending (Worker_finish_item lane item outcome d)) \<longleftrightarrow>
   (\<exists>s0. (h, s0) \<in> set (ld_pending d) \<and> s = (if h = wi_handle item then complete_state (lane_result outcome) s0 else s0))"
  by (force simp: Worker_finish_item_def)

lemma Worker_finish_item_keys: "map fst (ld_pending (Worker_finish_item lane item outcome d)) = map fst (ld_pending d)"
  by (simp add: Worker_finish_item_def comp_def case_prod_beta)

lemma Worker_finish_item_count:
  "count_if (on_lane l) (ld_pending (Worker_finish_item lane item outcome d)) = count_if (on_lane l) (ld_pending d)"
  by (rule count_if_cong_nth) (auto simp: Worker_finish_item_def on_lane_def case_prod_beta)

lemma Worker_finish_item_ok [invariants]:
  assumes "lanes_ok d" "ld_worker d lane = Executing item"
  shows "lanes_ok (Worker_finish_item lane item outcome d)" (is "lanes_ok ?d")
proof -
  have i: "items_ok d" "table_ok d" "none_stranded d" "phase_ok d" using assms(1) by (simp_all add: lanes_ok_def)
  have t: "tracked d lane = item # tracked ?d lane" "\<And>l. l \<noteq> lane \<Longrightarrow> tracked ?d l = tracked d l"
    by (simp_all add: tracked_def Worker_finish_item_def assms(2))
  have fr: "ld_next_handle ?d = ld_next_handle d" "ld_stopping ?d = ld_stopping d" "ld_running ?d = ld_running d"
    "ld_queue ?d = ld_queue d" "ld_pending_count ?d = ld_pending_count d" "ld_max_pending_per_lane ?d = ld_max_pending_per_lane d"
    by (simp_all add: Worker_finish_item_def)
  have it: "item_ok d lane item" and srt: "sorted_wrt (<) (map wi_handle (item # tracked ?d lane))"
    using i(1) t(1) by (auto simp: items_ok_def dest: spec [of _ lane])
  have x: "item_ok ?d l y" if y: "y \<in> set (tracked ?d l)" for l y
  proof -
    have ok: "item_ok d l y" using i(1) t y by (cases "l = lane") (auto simp: items_ok_def)
    have ne: False if "l = lane" "wi_handle y = wi_handle item" using srt y that by auto
    show ?thesis
      unfolding item_ok_def fr Worker_finish_item_pending using ok it ne by (auto simp: item_ok_def)
  qed
  have s: "sorted_wrt (<) (map wi_handle (tracked ?d l))" for l
    using srt i(1) t(2) [of l] by (cases "l = lane") (auto simp: items_ok_def)
  have "items_ok ?d" using x s by (simp add: items_ok_def)
  moreover have "table_ok ?d"
    using i(2) Worker_finish_item_keys [of lane item outcome d] unfolding table_ok_def fr Worker_finish_item_count
    by (metis list.set_map)
  moreover have "none_stranded ?d"
    unfolding none_stranded_def fr
  proof (intro impI ballI, clarify)
    fix h st assume hs: "\<not> ld_stopping d" "(h, st) \<in> set (ld_pending ?d)" "\<not> pd_ready st"
    then have p: "h \<noteq> wi_handle item" "(h, st) \<in> set (ld_pending d)"
      unfolding Worker_finish_item_pending by (metis complete_state_lane(2))+
    then have "h \<in> wi_handle ` set (tracked d (pd_decode_lane st))" using i(3) hs by (auto simp: none_stranded_def)
    then show "h \<in> wi_handle ` set (tracked ?d (pd_decode_lane st))"
      using p(1) t by (cases "pd_decode_lane st = lane") auto
  qed
  moreover have "phase_ok ?d"
    using i(4) assms(2) by (auto simp: phase_ok_def Worker_finish_item_def split: if_splits)
  ultimately show ?thesis by (simp add: lanes_ok_def)
qed

lemma table_ok_cong:
  assumes "ld_pending d' = ld_pending d" "ld_pending_count d' = ld_pending_count d" "ld_next_handle d' = ld_next_handle d"
    "ld_max_pending_per_lane d' = ld_max_pending_per_lane d"
  shows "table_ok d' = table_ok d"
  unfolding table_ok_def assms ..

lemma Worker_return_ok [invariants]:
  assumes "lanes_ok d" "ld_worker d lane = Waiting" "ld_stopping d" "ld_queue d lane = []"
  shows "lanes_ok (Worker_return lane d)"
proof -
  have "tracked (Worker_return lane d) = tracked d" by (rule ext) (simp add: tracked_def Worker_return_def assms(2))
  moreover have "ld_running d" using assms(1,3) by (auto simp: lanes_ok_def phase_ok_def split: if_splits)
  moreover have "table_ok (Worker_return lane d) = table_ok d" by (rule table_ok_cong) (simp_all add: Worker_return_def)
  ultimately show ?thesis
    using assms(1) by (simp add: lanes_ok_def items_ok_def item_ok_def none_stranded_def)
      (simp add: phase_ok_def Worker_return_def assms(3))
qed

lemma Stop_begin_ok [invariants]:
  assumes "lanes_ok d" "ld_running d"
  shows "lanes_ok (Stop_begin d)"
proof -
  have sub: "set (tracked (Stop_begin d) l) \<subseteq> set (tracked d l)" "sorted_wrt (<) (map wi_handle (tracked (Stop_begin d) l))" for l
    using assms(2) by (auto simp: tracked_def Stop_begin_def split: lane_worker.splits)
  have "items_ok (Stop_begin d)"
    using assms(1) sub by (fastforce simp: lanes_ok_def items_ok_def item_ok_def Stop_begin_def)
  moreover have "table_ok (Stop_begin d) = table_ok d" by (rule table_ok_cong) (simp_all add: Stop_begin_def)
  ultimately show ?thesis
    using assms by (simp add: lanes_ok_def) (simp add: none_stranded_def phase_ok_def Stop_begin_def)
qed

lemma Stop_end_ok [invariants]:
  assumes "lanes_ok d" "ld_stopping d"
  shows "lanes_ok (Stop_end d)"
proof -
  have "tracked (Stop_end d) l = []" for l
    using assms by (simp add: lanes_defs tracked_def Stop_end_def)
  then show ?thesis using assms by (simp add: lanes_defs) (simp add: Stop_end_def)
qed

lemma lane_Start_ok [invariants]:
  assumes "lanes_ok d" "\<not> ld_running d"
  shows "lanes_ok (fst (lane_Start True d))"
  using assms by (auto simp: lanes_defs lane_Start_def tracked_def)

lemma lane_step_ok: "lane_step d e d' \<Longrightarrow> lanes_ok d \<Longrightarrow> lanes_ok d'"
  by (induction rule: lane_step.induct) (blast intro: invariants)+

lemma lane_run_ok: "lane_run d tr d' \<Longrightarrow> lanes_ok d \<Longrightarrow> lanes_ok d'"
  by (induction rule: lane_run.induct) (blast intro: lane_step_ok)+

section \<open>Results reach the batch they belong to\<close>

subsection \<open>A handle that is gone stays gone\<close>

definition gone :: "nat \<Rightarrow> LaneDispatcher \<Rightarrow> bool" where
  "gone h d \<longleftrightarrow> h < ld_next_handle d \<and> h \<notin> fst ` set (ld_pending d)"

lemma gone_shrink:
  "gone h d \<Longrightarrow> fst ` set (ld_pending d') \<subseteq> fst ` set (ld_pending d) \<Longrightarrow> ld_next_handle d' = ld_next_handle d \<Longrightarrow> gone h d'"
  by (auto simp: gone_def)

lemma SweepAbandoned_frame:
  assumes "SweepAbandoned now min_age d = (d', hs)"
  shows "ld_pending d' = filter (\<lambda>(h, s). \<not> pd_enqueued_at s < now - min_age) (ld_pending d)"
    "hs = map fst (filter (\<lambda>(h, s). pd_enqueued_at s < now - min_age) (ld_pending d))"
    "ld_next_handle d' = ld_next_handle d" "ld_worker d' = ld_worker d" "ld_queue d' = ld_queue d"
proof -
  obtain kept count' hs' where l: "sweep_loop (now - min_age) (ld_pending d) (ld_pending_count d) = (kept, count', hs')"
    by (metis prod_cases3)
  then have "d' = d\<lparr>ld_pending := kept, ld_pending_count := count'\<rparr>" "hs = hs'"
    using assms by (simp_all add: SweepAbandoned_def)
  then show "ld_pending d' = filter (\<lambda>(h, s). \<not> pd_enqueued_at s < now - min_age) (ld_pending d)"
    "hs = map fst (filter (\<lambda>(h, s). pd_enqueued_at s < now - min_age) (ld_pending d))"
    "ld_next_handle d' = ld_next_handle d" "ld_worker d' = ld_worker d" "ld_queue d' = ld_queue d"
    using sweep_loop_spec(1,2) [OF l] by simp_all
qed

lemma TryCollect_frame:
  assumes "TryCollect h d = (d', r)"
  shows "ld_pending d' = ld_pending d \<or> ld_pending d' = AList.delete h (ld_pending d)"
    "ld_next_handle d' = ld_next_handle d" "ld_worker d' = ld_worker d" "ld_queue d' = ld_queue d"
  using assms by (auto simp: TryCollect_def Let_def split: option.splits if_splits)

lemma lane_step_gone:
  assumes "lane_step d e d'" "gone h d"
  shows "gone h d' \<and> (\<forall>r. e = Collected h r \<longrightarrow> r = collect_missing) \<and> (\<forall>lane i. e = Taken lane (Some i) \<longrightarrow> wi_handle i \<noteq> h)"
  using assms(1)
proof (cases rule: lane_step.cases)
  case (submit now inputs lane h')
  then show ?thesis using assms(2) by (auto simp: gone_def Submit_def Let_def split: if_splits)
next
  case (collect h' r)
  have "gone h d'"
    by (rule gone_shrink [OF assms(2)]) (use TryCollect_frame [OF collect(2)] in \<open>auto simp: AList.delete_eq\<close>)
  moreover have "r = collect_missing" if "h' = h"
  proof -
    have "map_of (ld_pending d) h' = None" using assms(2) that by (simp add: gone_def map_of_eq_None_iff)
    then show ?thesis using collect(2) by (simp add: TryCollect_def split: if_splits)
  qed
  ultimately show ?thesis using collect(1) by simp
next
  case (sweep now min_age hs)
  have "gone h d'"
    by (rule gone_shrink [OF assms(2)]) (use SweepAbandoned_frame [OF sweep(2)] in auto)
  then show ?thesis using sweep(1) by simp
next
  case (take_item lane found)
  have "gone h d'" using Worker_take_item_frame [OF take_item(4)] assms(2) by (simp add: gone_def)
  moreover have "wi_handle i \<noteq> h" if "found = Some i" for i
    using Worker_take_item_found(1) [of lane d d' i] take_item(4) that assms(2) by (auto simp: gone_def)
  ultimately show ?thesis unfolding take_item(1) by (cases found) auto
next
  case (finish_item lane item outcome)
  have "fst ` set (ld_pending d') = fst ` set (ld_pending d)"
    using arg_cong [OF Worker_finish_item_keys [of lane item outcome d], of set] unfolding finish_item(2) by (simp only: list.set_map)
  then have "gone h d'"
    by (intro gone_shrink [OF assms(2)]) (simp_all add: finish_item(2) Worker_finish_item_def)
  then show ?thesis using finish_item(1) by simp
qed (use assms(2) in \<open>auto simp: gone_def Worker_return_def Stop_begin_def Stop_end_def lane_Start_def\<close>)

lemma lane_run_gone:
  assumes "lane_run d tr d'" "gone h d"
  shows "gone h d' \<and> (\<forall>r. Collected h r \<in> set tr \<longrightarrow> r = collect_missing) \<and> (\<forall>lane i. Taken lane (Some i) \<in> set tr \<longrightarrow> wi_handle i \<noteq> h)"
  using assms
proof (induction rule: lane_run.induct)
  case (run_snoc d tr d1 e d2)
  then show ?case using lane_step_gone [OF run_snoc.hyps(2), of h] by auto
qed simp

lemma swept_gone:
  assumes "lanes_ok d" "lane_step d (Swept hs) d'" "h \<in> set hs"
  shows "gone h d'"
proof -
  obtain now min_age where "SweepAbandoned now min_age d = (d', hs)" using assms(2) by (cases rule: lane_step.cases) auto
  note fr = SweepAbandoned_frame [OF this]
  have t: "distinct (map fst (ld_pending d))" "\<forall>k \<in> fst ` set (ld_pending d). k < ld_next_handle d"
    using assms(1) unfolding lanes_ok_def table_ok_def by blast+
  obtain s where s: "(h, s) \<in> set (ld_pending d)" "pd_enqueued_at s < now - min_age" using assms(3) fr(2) by auto
  have "s' = s" if "(h, s') \<in> set (ld_pending d)" for s'
    using that s(1) t(1) by (meson eq_key_imp_eq_value)
  then have "h \<notin> fst ` set (ld_pending d')" unfolding fr(1) using s(2) by auto
  moreover have "h < ld_next_handle d'" unfolding fr(3) using t(2) s(1) by force
  ultimately show ?thesis by (simp add: gone_def)
qed

lemma collected_gone:
  assumes "lanes_ok d" "TryCollect h d = (d', r)" "cr_status r = Collect_kSuccess \<or> cr_status r = Collect_kFailed"
  obtains s where "(h, s) \<in> set (ld_pending d)" "pd_ready s" "gone h d'"
    "r = \<lparr>cr_status = (if pd_success s then Collect_kSuccess else Collect_kFailed),
          cr_outputs = (if pd_success s then Some (pd_outputs s) else None),
          cr_decode_lane = Some (pd_decode_lane s), cr_error = Some (pd_error s), cr_elapsed_ms = Some (pd_elapsed_ms s)\<rparr>"
proof -
  obtain s where s: "map_of (ld_pending d) h = Some s" "pd_ready s" "h \<noteq> 0"
    using assms(2,3) by (auto simp: TryCollect_def collect_missing_def split: option.splits if_splits)
  have in_d: "(h, s) \<in> set (ld_pending d)" using s(1) by (rule map_of_SomeD)
  have "gone h d'"
    using assms(1,2) s in_d by (auto simp: TryCollect_def Let_def gone_def AList.delete_eq lanes_ok_def table_ok_def)
  then show ?thesis using that [OF in_d s(2)] assms(2) s by (auto simp: TryCollect_def Let_def)
qed

subsection \<open>The trace explains the state\<close>

fun taken_items :: "bool \<Rightarrow> lane_event list \<Rightarrow> WorkItem list" where
  "taken_items lane [] = []"
| "taken_items lane (Taken l (Some i) # tr) = (if l = lane then i # taken_items lane tr else taken_items lane tr)"
| "taken_items lane (_ # tr) = taken_items lane tr"

lemma taken_items_append [simp]: "taken_items lane (tr @ tr') = taken_items lane tr @ taken_items lane tr'"
  by (induction lane tr rule: taken_items.induct) auto

definition carries :: "ExecutionResult \<Rightarrow> PendingState \<Rightarrow> bool" where
  "carries r s \<longleftrightarrow> pd_success s = er_success r \<and> pd_outputs s = er_outputs r \<and> pd_error s = er_error r \<and> pd_elapsed_ms s = er_elapsed_ms r"

definition handles_known :: "lane_event list \<Rightarrow> LaneDispatcher \<Rightarrow> bool" where
  "handles_known tr d \<longleftrightarrow> (\<forall>h inputs lane. Submitted h inputs lane \<in> set tr \<longrightarrow> h < ld_next_handle d)"

definition items_submitted :: "lane_event list \<Rightarrow> LaneDispatcher \<Rightarrow> bool" where
  "items_submitted tr d \<longleftrightarrow> (\<forall>lane. \<forall>i \<in> set (tracked d lane). Submitted (wi_handle i) (wi_inputs i) lane \<in> set tr)"

definition explained :: "lane_event list \<Rightarrow> nat \<Rightarrow> PendingState \<Rightarrow> bool" where
  "explained tr h s \<longleftrightarrow> (\<exists>i outcome. Finished (pd_decode_lane s) i outcome \<in> set tr \<and> wi_handle i = h \<and>
     Submitted h (wi_inputs i) (pd_decode_lane s) \<in> set tr \<and> carries (lane_result outcome) s)"

definition results_explained :: "lane_event list \<Rightarrow> LaneDispatcher \<Rightarrow> bool" where
  "results_explained tr d \<longleftrightarrow> (\<forall>h s. (h, s) \<in> set (ld_pending d) \<longrightarrow> pd_ready s \<longrightarrow> explained tr h s)"

definition taken_in_order :: "lane_event list \<Rightarrow> LaneDispatcher \<Rightarrow> bool" where
  "taken_in_order tr d \<longleftrightarrow>
     (\<forall>lane. sorted_wrt (<) (map wi_handle (taken_items lane tr @ ld_queue d lane)) \<and>
        (\<forall>i \<in> set (taken_items lane tr). wi_handle i < ld_next_handle d))"

definition trace_ok :: "lane_event list \<Rightarrow> LaneDispatcher \<Rightarrow> bool" where
  "trace_ok tr d \<longleftrightarrow> handles_known tr d \<and> items_submitted tr d \<and> results_explained tr d \<and> taken_in_order tr d"

definition submitted_once :: "lane_event list \<Rightarrow> bool" where
  "submitted_once tr \<longleftrightarrow> (\<forall>h inputs lane inputs' lane'. 0 < h \<longrightarrow> Submitted h inputs lane \<in> set tr \<longrightarrow>
     Submitted h inputs' lane' \<in> set tr \<longrightarrow> inputs' = inputs \<and> lane' = lane)"

lemma explained_mono: "explained tr h s \<Longrightarrow> explained (tr @ [e]) h s"
  by (auto simp: explained_def)

lemma handles_known_quiet:
  "handles_known tr d \<Longrightarrow> ld_next_handle d' = ld_next_handle d \<Longrightarrow> (\<And>h inputs lane. e \<noteq> Submitted h inputs lane) \<Longrightarrow>
   handles_known (tr @ [e]) d'"
  unfolding handles_known_def by (metis (full_types) UnE empty_iff insertE list.set set_append)

lemma items_submitted_quiet:
  "items_submitted tr d \<Longrightarrow> (\<And>lane. set (tracked d' lane) \<subseteq> set (tracked d lane)) \<Longrightarrow> items_submitted (tr @ [e]) d'"
  by (fastforce simp: items_submitted_def)

lemma results_explained_quiet:
  "results_explained tr d \<Longrightarrow> (\<And>h s. (h, s) \<in> set (ld_pending d') \<Longrightarrow> pd_ready s \<Longrightarrow> (h, s) \<in> set (ld_pending d)) \<Longrightarrow>
   results_explained (tr @ [e]) d'"
  unfolding results_explained_def by (blast intro: explained_mono)

lemma taken_in_order_quiet:
  "taken_in_order tr d \<Longrightarrow> ld_next_handle d' = ld_next_handle d \<Longrightarrow> (\<And>lane. taken_items lane [e] = []) \<Longrightarrow>
   (\<And>lane. ld_queue d' lane = ld_queue d lane \<or> ld_queue d' lane = []) \<Longrightarrow> taken_in_order (tr @ [e]) d'"
  unfolding taken_in_order_def by (metis append_Nil2 map_append sorted_wrt_append taken_items_append)

lemmas trace_ok_quiet = handles_known_quiet items_submitted_quiet results_explained_quiet taken_in_order_quiet

lemma trace_ok_idle:
  assumes "trace_ok tr d" "ld_next_handle d' = ld_next_handle d" "\<And>h inputs lane. e \<noteq> Submitted h inputs lane"
    "\<And>lane. taken_items lane [e] = []" "\<And>lane. set (tracked d' lane) \<subseteq> set (tracked d lane)"
    "\<And>lane. ld_queue d' lane = ld_queue d lane \<or> ld_queue d' lane = []" "set (ld_pending d') \<subseteq> set (ld_pending d)"
  shows "trace_ok (tr @ [e]) d'"
  using assms(1) unfolding trace_ok_def
  by (auto intro!: handles_known_quiet [OF _ assms(2,3)] items_submitted_quiet [OF _ assms(5)]
      taken_in_order_quiet [OF _ assms(2,4,6)] results_explained_quiet intro: subsetD [OF assms(7)])

lemma trace_ok_submit:
  assumes "lanes_ok d" "trace_ok tr d" "Submit now inputs lane d = (d', h)"
  shows "trace_ok (tr @ [Submitted h inputs lane]) d'"
proof (cases "h = 0")
  case True
  have z: "0 < ld_next_handle d" using assms(1) by (simp add: lanes_ok_def table_ok_def)
  then have d': "d' = d" using True assms(3) by (auto simp: Submit_def Let_def split: if_splits)
  have "handles_known (tr @ [Submitted h inputs lane]) d"
    using assms(2) z True by (auto simp: trace_ok_def handles_known_def)
  moreover have "items_submitted (tr @ [Submitted h inputs lane]) d" "results_explained (tr @ [Submitted h inputs lane]) d"
    "taken_in_order (tr @ [Submitted h inputs lane]) d"
    using assms(2) unfolding trace_ok_def
    by (auto intro: items_submitted_quiet results_explained_quiet taken_in_order_quiet)
  ultimately show ?thesis by (simp add: trace_ok_def d')
next
  case False
  define s where "s = \<lparr>pd_decode_lane = lane, pd_ready = False, pd_success = False, pd_outputs = [], pd_error = [],
    pd_elapsed_ms = 0, pd_enqueued_at = now\<rparr>"
  define item where "item = \<lparr>wi_handle = h, wi_decode_lane = lane, wi_inputs = inputs\<rparr>"
  let ?e = "Submitted h inputs lane"
  have h: "h = ld_next_handle d"
    and d': "d' = d\<lparr>ld_next_handle := h + 1, ld_pending := ld_pending d @ [(h, s)],
              ld_pending_count := (ld_pending_count d)(lane := ld_pending_count d lane + 1),
              ld_queue := (ld_queue d)(lane := ld_queue d lane @ [item])\<rparr>"
    using False assms(3) by (auto simp: Submit_def Let_def s_def item_def split: if_splits)
  have t: "tracked d' l = tracked d l @ (if l = lane then [item] else [])" for l by (simp add: tracked_def d')
  have q: "\<forall>i \<in> set (ld_queue d l). wi_handle i < h" for l
    using assms(1) by (auto simp: lanes_ok_def items_ok_def item_ok_def tracked_def h)
  have "handles_known (tr @ [?e]) d'" using assms(2) by (auto simp: trace_ok_def handles_known_def d' h less_Suc_eq)
  moreover have "items_submitted (tr @ [?e]) d'"
    using assms(2) by (auto simp: trace_ok_def items_submitted_def t) (auto simp: item_def)
  moreover have "results_explained (tr @ [?e]) d'"
    using assms(2) unfolding trace_ok_def by (elim conjE results_explained_quiet) (auto simp: d' s_def)
  moreover have "taken_in_order (tr @ [?e]) d'"
    using assms(2) q unfolding trace_ok_def taken_in_order_def
    by (auto simp: d' h sorted_wrt_append less_Suc_eq) (auto simp: item_def h)
  ultimately show ?thesis by (simp add: trace_ok_def)
qed

lemma trace_ok_take:
  assumes "lanes_ok d" "trace_ok tr d" "ld_worker d lane = Waiting" "Worker_take_item lane d = (d', found)"
  shows "trace_ok (tr @ [Taken lane found]) d'"
proof -
  note fr = Worker_take_item_frame [OF assms(4)]
  obtain skipped where t: "tracked d lane = skipped @ tracked d' lane" "\<And>l. l \<noteq> lane \<Longrightarrow> tracked d' l = tracked d l"
    "\<And>i. found = Some i \<Longrightarrow> \<exists>q. tracked d' lane = i # q \<and> ld_queue d' lane = q"
    using Worker_take_item_tracked [OF assms(3,4)] by metis
  have sub: "set (tracked d' l) \<subseteq> set (tracked d l)" for l using t(1) t(2) [of l] by (cases "l = lane") auto
  have q: "ld_queue d lane = skipped @ taken_items lane [Taken lane found] @ ld_queue d' lane"
  proof (cases found)
    case None
    then have "ld_queue d' lane = tracked d' lane"
      using assms(3,4) by (auto simp: Worker_take_item_def tracked_def Let_def split: prod.splits option.splits)
    then show ?thesis using None t(1) assms(3) by (simp add: tracked_def)
  next
    case (Some i)
    then show ?thesis using t(1) t(3) [OF Some] assms(3) by (auto simp: tracked_def)
  qed
  have q': "ld_queue d' l = ld_queue d l" if "l \<noteq> lane" for l
    using assms(4) that by (auto simp: Worker_take_item_def Let_def split: prod.splits option.splits)
  have low: "\<forall>i \<in> set (ld_queue d l). wi_handle i < ld_next_handle d" for l
    using assms(1) by (auto simp: lanes_ok_def items_ok_def item_ok_def tracked_def)
  have other: "taken_items l [Taken lane found] = []" if "l \<noteq> lane" for l using that by (cases found) auto
  have "taken_in_order (tr @ [Taken lane found]) d'"
    unfolding taken_in_order_def
  proof (intro allI)
    fix l
    have "sorted_wrt (<) (map wi_handle (taken_items l tr @ ld_queue d l))" "\<forall>i \<in> set (taken_items l tr). wi_handle i < ld_next_handle d"
      using assms(2) by (auto simp: trace_ok_def taken_in_order_def)
    then show "sorted_wrt (<) (map wi_handle (taken_items l (tr @ [Taken lane found]) @ ld_queue d' l)) \<and>
      (\<forall>i \<in> set (taken_items l (tr @ [Taken lane found])). wi_handle i < ld_next_handle d')"
      using q q' other low [of l] by (cases "l = lane") (auto simp: sorted_wrt_append fr)
  qed
  moreover have "handles_known (tr @ [Taken lane found]) d'" "items_submitted (tr @ [Taken lane found]) d'"
    "results_explained (tr @ [Taken lane found]) d'"
    using assms(2) sub unfolding trace_ok_def
    by (auto intro: handles_known_quiet items_submitted_quiet results_explained_quiet simp: fr)
  ultimately show ?thesis by (simp add: trace_ok_def)
qed

lemma trace_ok_finish:
  assumes "lanes_ok d" "trace_ok tr d" "ld_worker d lane = Executing item"
  shows "trace_ok (tr @ [Finished lane item outcome]) (Worker_finish_item lane item outcome d)" (is "trace_ok (tr @ [?e]) ?d")
proof -
  have it: "item \<in> set (tracked d lane)" by (simp add: tracked_def assms(3))
  have sub: "set (tracked ?d l) \<subseteq> set (tracked d l)" for l
    by (cases "l = lane") (auto simp: tracked_def Worker_finish_item_def)
  have fr: "ld_next_handle ?d = ld_next_handle d" "ld_queue ?d = ld_queue d" by (simp_all add: Worker_finish_item_def)
  have sm: "Submitted (wi_handle item) (wi_inputs item) lane \<in> set tr"
    using assms(2) it by (auto simp: trace_ok_def items_submitted_def)
  have ok: "item_ok d lane item" using assms(1) it by (auto simp: lanes_ok_def items_ok_def)
  have "explained (tr @ [?e]) h s" if hs: "(h, s) \<in> set (ld_pending ?d)" "pd_ready s" for h s
  proof (cases "h = wi_handle item")
    case True
    then obtain s0 where s0: "(h, s0) \<in> set (ld_pending d)" "s = complete_state (lane_result outcome) s0"
      using hs(1) [unfolded Worker_finish_item_pending] by auto
    then have "pd_decode_lane s = lane" using ok True by (auto simp: item_ok_def)
    moreover have "carries (lane_result outcome) s" by (simp add: s0(2) carries_def complete_state_def)
    ultimately show ?thesis using sm True by (auto simp: explained_def)
  next
    case False
    then have "(h, s) \<in> set (ld_pending d)" using hs(1) [unfolded Worker_finish_item_pending] by auto
    then show ?thesis using assms(2) hs(2) by (auto simp: trace_ok_def results_explained_def intro: explained_mono)
  qed
  then have "results_explained (tr @ [?e]) ?d" by (simp add: results_explained_def)
  moreover have "handles_known (tr @ [?e]) ?d" "items_submitted (tr @ [?e]) ?d" "taken_in_order (tr @ [?e]) ?d"
    using assms(2) sub unfolding trace_ok_def
    by (auto intro: handles_known_quiet items_submitted_quiet taken_in_order_quiet simp: fr)
  ultimately show ?thesis by (simp add: trace_ok_def)
qed

lemma lane_step_trace:
  assumes "lane_step d e d'" "lanes_ok d" "trace_ok tr d"
  shows "trace_ok (tr @ [e]) d'"
  using assms(1)
proof (cases rule: lane_step.cases)
  case (submit now inputs lane h)
  show ?thesis unfolding submit(1) by (rule trace_ok_submit [OF assms(2,3) submit(2)])
next
  case (collect h r)
  note fr = TryCollect_frame [OF collect(2)]
  have "set (ld_pending d') \<subseteq> set (ld_pending d)" using fr(1) by (auto simp: AList.delete_eq)
  then show ?thesis unfolding collect(1) by (intro trace_ok_idle [OF assms(3)]) (simp_all add: fr(2-4) tracked_def)
next
  case (sweep now min_age hs)
  note fr = SweepAbandoned_frame [OF sweep(2)]
  have "set (ld_pending d') \<subseteq> set (ld_pending d)" unfolding fr(1) by auto
  then show ?thesis unfolding sweep(1) by (intro trace_ok_idle [OF assms(3)]) (simp_all add: fr(3-5) tracked_def)
next
  case (take_item lane found)
  show ?thesis unfolding take_item(1) by (rule trace_ok_take [OF assms(2,3) take_item(2,4)])
next
  case (finish_item lane item outcome)
  show ?thesis unfolding finish_item(1,2) by (rule trace_ok_finish [OF assms(2,3) finish_item(3)])
qed (intro trace_ok_idle [OF assms(3)]; auto simp: tracked_def Worker_return_def Stop_begin_def Stop_end_def lane_Start_def
    split: lane_worker.splits)+

lemma lane_run_trace: "lane_run d tr d' \<Longrightarrow> lanes_ok d \<Longrightarrow> trace_ok [] d \<Longrightarrow> trace_ok tr d'"
proof (induction rule: lane_run.induct)
  case (run_snoc d tr d1 e d2)
  then show ?case using lane_step_trace lane_run_ok by blast
qed simp

lemma lane_run_limit: "lane_run d tr d' \<Longrightarrow> ld_max_pending_per_lane d' = ld_max_pending_per_lane d"
proof (induction rule: lane_run.induct)
  case (run_snoc d tr d1 e d2)
  have "ld_max_pending_per_lane d2 = ld_max_pending_per_lane d1"
    using run_snoc.hyps(2)
    by (cases rule: lane_step.cases)
      (auto simp: Submit_def TryCollect_def SweepAbandoned_def Worker_finish_item_def Worker_return_def Stop_begin_def
        Stop_end_def lane_Start_def Let_def Worker_take_item_frame split: option.splits if_splits prod.splits)
  then show ?case using run_snoc.IH by simp
qed simp

lemma trace_ok_init: "trace_ok [] (LaneDispatcher_init n)"
  by (simp add: trace_ok_def handles_known_def items_submitted_def results_explained_def taken_in_order_def
      LaneDispatcher_init_def tracked_def)

lemma lane_step_submitted:
  "lane_step d (Submitted h inputs lane) d' \<Longrightarrow> h = 0 \<or> h = ld_next_handle d"
  by (auto elim!: lane_stepE simp: Submit_def Let_def split: if_splits)

lemma lane_run_submitted_once:
  assumes "lane_run (LaneDispatcher_init n) tr d"
  shows "submitted_once tr"
proof -
  have "lane_run d0 tr d \<Longrightarrow> lanes_ok d0 \<Longrightarrow> trace_ok [] d0 \<Longrightarrow> submitted_once tr" for d0
  proof (induction rule: lane_run.induct)
    case (run_snoc d tr d1 e d2)
    have fresh: "h < ld_next_handle d1" if "Submitted h inputs lane \<in> set tr" for h inputs lane
      using lane_run_trace [OF run_snoc.hyps(1) run_snoc.prems] that by (auto simp: trace_ok_def handles_known_def)
    have "h = 0 \<or> h = ld_next_handle d1" if "e = Submitted h inputs lane" for h inputs lane
      using lane_step_submitted run_snoc.hyps(2) that by blast
    then show ?case using run_snoc.IH [OF run_snoc.prems] fresh unfolding submitted_once_def
      by (metis UnE empty_iff insertE lane_event.inject(1) less_irrefl list.set set_append)
  qed (simp add: submitted_once_def)
  then show ?thesis using assms LaneDispatcher_init_ok trace_ok_init by blast
qed

text \<open>The outcome behind a collected result.\<close>

lemma collected_outcome:
  assumes "lane_run (LaneDispatcher_init n) (tr @ [Collected h r]) d"
    "cr_status r = Collect_kSuccess \<or> cr_status r = Collect_kFailed"
  shows "(\<exists>item lane outcome. wi_handle item = h \<and> Submitted h (wi_inputs item) lane \<in> set tr \<and>
      Finished lane item outcome \<in> set tr \<and> cr_decode_lane r = Some lane \<and>
      (cr_status r = Collect_kSuccess \<longleftrightarrow> er_success (lane_result outcome)) \<and>
      (er_success (lane_result outcome) \<longrightarrow> cr_outputs r = Some (er_outputs (lane_result outcome))) \<and>
      cr_error r = Some (er_error (lane_result outcome)) \<and>
      (\<forall>inputs' lane'. Submitted h inputs' lane' \<in> set tr \<longrightarrow> inputs' = wi_inputs item \<and> lane' = lane)) \<and>
    (\<forall>tr' d' r'. lane_run d tr' d' \<longrightarrow> Collected h r' \<in> set tr' \<longrightarrow> r' = collect_missing)"
proof -
  obtain d1 where run: "lane_run (LaneDispatcher_init n) tr d1" "lane_step d1 (Collected h r) d" using assms(1) by auto
  have c: "TryCollect h d1 = (d, r)" using run(2) by (cases rule: lane_step.cases) auto
  have ok: "lanes_ok d1" "trace_ok tr d1"
    using lane_run_ok lane_run_trace run(1) LaneDispatcher_init_ok trace_ok_init by blast+
  obtain s where s: "(h, s) \<in> set (ld_pending d1)" "pd_ready s" "gone h d"
    "r = \<lparr>cr_status = (if pd_success s then Collect_kSuccess else Collect_kFailed),
          cr_outputs = (if pd_success s then Some (pd_outputs s) else None),
          cr_decode_lane = Some (pd_decode_lane s), cr_error = Some (pd_error s), cr_elapsed_ms = Some (pd_elapsed_ms s)\<rparr>"
    using collected_gone [OF ok(1) c assms(2)] by blast
  have "explained tr h s" using ok(2) s(1,2) by (auto simp: trace_ok_def results_explained_def)
  then obtain i outcome where i: "Finished (pd_decode_lane s) i outcome \<in> set tr" "wi_handle i = h"
    "Submitted h (wi_inputs i) (pd_decode_lane s) \<in> set tr" "carries (lane_result outcome) s"
    by (auto simp: explained_def)
  have "\<forall>k \<in> fst ` set (ld_pending d1). 0 < k" using ok(1) unfolding lanes_ok_def table_ok_def by blast
  then have "0 < h" using s(1) by force
  then have once: "\<forall>inputs' lane'. Submitted h inputs' lane' \<in> set tr \<longrightarrow> inputs' = wi_inputs i \<and> lane' = pd_decode_lane s"
    using lane_run_submitted_once [OF run(1)] i(3) unfolding submitted_once_def by blast
  have r: "cr_decode_lane r = Some (pd_decode_lane s)" "cr_status r = Collect_kSuccess \<longleftrightarrow> er_success (lane_result outcome)"
    "er_success (lane_result outcome) \<longrightarrow> cr_outputs r = Some (er_outputs (lane_result outcome))"
    "cr_error r = Some (er_error (lane_result outcome))"
    unfolding s(4) using i(4) by (simp_all add: carries_def)
  have "\<exists>item lane outcome. wi_handle item = h \<and> Submitted h (wi_inputs item) lane \<in> set tr \<and>
      Finished lane item outcome \<in> set tr \<and> cr_decode_lane r = Some lane \<and>
      (cr_status r = Collect_kSuccess \<longleftrightarrow> er_success (lane_result outcome)) \<and>
      (er_success (lane_result outcome) \<longrightarrow> cr_outputs r = Some (er_outputs (lane_result outcome))) \<and>
      cr_error r = Some (er_error (lane_result outcome)) \<and>
      (\<forall>inputs' lane'. Submitted h inputs' lane' \<in> set tr \<longrightarrow> inputs' = wi_inputs item \<and> lane' = lane)"
    by (intro exI conjI) (rule i once r)+
  moreover have "\<forall>tr' d' r'. lane_run d tr' d' \<longrightarrow> Collected h r' \<in> set tr' \<longrightarrow> r' = collect_missing"
    using lane_run_gone s(3) by blast
  ultimately show ?thesis by (rule conjI)
qed

section \<open>Properties\<close>

text \<open>
  C13: However clients, the two workers, sweeps, stops and restarts interleave, a result collected under
  a handle is the outcome of executing exactly the inputs that were submitted under that handle, in the lane
  they were submitted to, exceptions included. Every later attempt to collect the handle reports it missing.
\<close>
theorem lane_results_exact:
  assumes "lane_run (LaneDispatcher_init n) (tr @ [Collected h r]) d"
    "cr_status r = Collect_kSuccess \<or> cr_status r = Collect_kFailed"
  shows "(\<exists>item lane outcome. wi_handle item = h \<and> Submitted h (wi_inputs item) lane \<in> set tr \<and>
      Finished lane item outcome \<in> set tr \<and> cr_decode_lane r = Some lane \<and>
      (cr_status r = Collect_kSuccess \<longleftrightarrow> er_success (lane_result outcome)) \<and>
      (er_success (lane_result outcome) \<longrightarrow> cr_outputs r = Some (er_outputs (lane_result outcome))) \<and>
      cr_error r = Some (er_error (lane_result outcome)) \<and>
      (\<forall>inputs' lane'. Submitted h inputs' lane' \<in> set tr \<longrightarrow> inputs' = wi_inputs item \<and> lane' = lane)) \<and>
    (\<forall>tr' d' r'. lane_run d tr' d' \<longrightarrow> Collected h r' \<in> set tr' \<longrightarrow> r' = collect_missing)"
  by (rule collected_outcome [OF assms])

text \<open>
  C15: In every reachable state the counters of the lanes equal the numbers of their uncollected batches and
  stay within the limit; each lane starts its batches in the order of submission and none twice; a swept batch
  is never started afterwards; and unless the dispatcher is stopping, a batch without a result is still in
  its lane, queued or executing, so it is not lost.
\<close>
theorem lane_accounting:
  assumes "lane_run (LaneDispatcher_init n) tr d"
  shows "(\<forall>lane. PendingCount lane d = length (filter (on_lane lane) (ld_pending d)) \<and> PendingCount lane d \<le> NormalizePendingLimit n \<and>
      sorted_wrt (<) (map wi_handle (taken_items lane tr))) \<and>
    (\<forall>tr1 hs tr2 lane item. tr = tr1 @ Swept hs # tr2 \<and> wi_handle item \<in> set hs \<longrightarrow> Taken lane (Some item) \<notin> set tr2) \<and>
    (\<not> ld_stopping d \<longrightarrow> (\<forall>(h, s) \<in> set (ld_pending d). \<not> pd_ready s \<longrightarrow> h \<in> wi_handle ` set (tracked d (pd_decode_lane s))))"
proof (intro conjI allI impI)
  have ok: "lanes_ok d" "trace_ok tr d"
    using lane_run_ok lane_run_trace assms LaneDispatcher_init_ok trace_ok_init by blast+
  have m: "ld_max_pending_per_lane d = NormalizePendingLimit n"
    using lane_run_limit [OF assms] by (simp add: LaneDispatcher_init_def)
  have t: "ld_pending_count d lane = count_if (on_lane lane) (ld_pending d) \<and> ld_pending_count d lane \<le> ld_max_pending_per_lane d" for lane
    using ok(1) unfolding lanes_ok_def table_ok_def by blast
  show "PendingCount lane d = length (filter (on_lane lane) (ld_pending d))" "PendingCount lane d \<le> NormalizePendingLimit n" for lane
    using t [of lane] m by (simp_all add: PendingCount_def count_if_def)
  show "sorted_wrt (<) (map wi_handle (taken_items lane tr))" for lane
    using ok(2) by (simp add: trace_ok_def taken_in_order_def sorted_wrt_append)
  show "\<forall>(h, s) \<in> set (ld_pending d). \<not> pd_ready s \<longrightarrow> h \<in> wi_handle ` set (tracked d (pd_decode_lane s))" if "\<not> ld_stopping d"
    using ok(1) that by (simp add: lanes_ok_def none_stranded_def)
  fix tr1 hs tr2 lane and item :: WorkItem
  assume tr: "tr = tr1 @ Swept hs # tr2 \<and> wi_handle item \<in> set hs"
  then have "lane_run (LaneDispatcher_init n) ((tr1 @ [Swept hs]) @ tr2) d" using assms by simp
  then obtain d1 d2 where run: "lane_run (LaneDispatcher_init n) tr1 d1" "lane_step d1 (Swept hs) d2" "lane_run d2 tr2 d"
    unfolding lane_run_append [of _ "tr1 @ [Swept hs]"] lane_run_snoc by blast
  have "gone (wi_handle item) d2"
    using swept_gone [OF _ run(2)] tr lane_run_ok [OF run(1) LaneDispatcher_init_ok] by blast
  then show "Taken lane (Some item) \<notin> set tr2" using lane_run_gone [OF run(3)] by blast
qed

subsection \<open>A run with both outcomes\<close>

text \<open>Two batches on the decode lane: the first execution throws and its result is collected, the second is swept
  while it waits, so the worker drops it.\<close>

definition example_input :: "int \<Rightarrow> UnifiedBatchInput" where
  "example_input t = \<lparr>ui_sequence_id = 0, ui_n_past = 4, ui_tokens = [t], ui_request_logits = True, ui_sampling = default_sampling,
     ui_request_id = 1, ui_client_request_id = [], ui_sequence_generation = 0, ui_logprob_top_n = -1\<rparr>"

definition example_item :: "nat \<Rightarrow> int \<Rightarrow> WorkItem" where
  "example_item h t = \<lparr>wi_handle = h, wi_decode_lane = True, wi_inputs = [example_input t]\<rparr>"

definition example_collect :: collect_result where
  "example_collect = \<lparr>cr_status = Collect_kFailed, cr_outputs = None, cr_decode_lane = Some True, cr_error = Some ''oom'', cr_elapsed_ms = Some 0\<rparr>"

definition lane_trace1 :: "lane_event list" where
  "lane_trace1 = [Started, Submitted 1 [example_input 7] True, Taken True (Some (example_item 1 7)),
     Finished True (example_item 1 7) (Threw ''oom'')]"

definition lane_trace2 :: "lane_event list" where
  "lane_trace2 = lane_trace1 @ [Collected 1 example_collect] @ [Submitted 2 [example_input 8] True, Swept [2], Taken True None]"

fun lane_exec :: "lane_event \<Rightarrow> LaneDispatcher \<Rightarrow> LaneDispatcher" where
  "lane_exec (Submitted h inputs lane) d = fst (Submit 0 inputs lane d)"
| "lane_exec (Collected h r) d = fst (TryCollect h d)"
| "lane_exec (Swept hs) d = fst (SweepAbandoned 1 0 d)"
| "lane_exec (Taken lane found) d = fst (Worker_take_item lane d)"
| "lane_exec (Finished lane item outcome) d = Worker_finish_item lane item outcome d"
| "lane_exec (Worker_exited lane) d = Worker_return lane d"
| "lane_exec Stop_began d = Stop_begin d"
| "lane_exec Stop_ended d = Stop_end d"
| "lane_exec Started d = fst (lane_Start True d)"

text \<open>The step of the example that an event demands, as a computable check.\<close>

fun lane_enabled :: "lane_event \<Rightarrow> LaneDispatcher \<Rightarrow> bool" where
  "lane_enabled (Submitted h inputs lane) d = (snd (Submit 0 inputs lane d) = h)"
| "lane_enabled (Collected h r) d = (snd (TryCollect h d) = r)"
| "lane_enabled (Swept hs) d = (snd (SweepAbandoned 1 0 d) = hs)"
| "lane_enabled (Taken lane found) d =
     (ld_worker d lane = Waiting \<and> ld_queue d lane \<noteq> [] \<and> snd (Worker_take_item lane d) = found)"
| "lane_enabled (Finished lane item outcome) d = (ld_worker d lane = Executing item)"
| "lane_enabled (Worker_exited lane) d = (ld_worker d lane = Waiting \<and> ld_stopping d \<and> ld_queue d lane = [])"
| "lane_enabled Stop_began d = (ld_running d \<and> \<not> ld_stopping d)"
| "lane_enabled Stop_ended d = (ld_stopping d \<and> ld_worker d True = Exited \<and> ld_worker d False = Exited)"
| "lane_enabled Started d = (\<not> ld_running d)"

lemma lane_exec_step: "lane_enabled e d \<Longrightarrow> lane_step d e (lane_exec e d)"
  by (cases e) (auto intro!: lane_step.intros simp: prod_eq_iff)

fun lane_replay :: "lane_event list \<Rightarrow> LaneDispatcher \<Rightarrow> LaneDispatcher option" where
  "lane_replay [] d = Some d"
| "lane_replay (e # tr) d = (if lane_enabled e d then lane_replay tr (lane_exec e d) else None)"

lemma lane_replay_run: "lane_replay tr d = Some d' \<Longrightarrow> lane_run d tr d'"
proof (induction tr arbitrary: d)
  case (Cons e tr)
  then have "lane_run d [e] (lane_exec e d)" "lane_run (lane_exec e d) tr d'"
    using run_snoc [OF run_nil lane_exec_step] by (auto split: if_splits)
  then show ?case using lane_run_append [of d "[e]" tr d'] by auto
qed simp

lemmas lane_eval = lane_trace1_def lane_trace2_def example_item_def example_collect_def LaneDispatcher_init_def lane_Start_def
  Submit_def TryCollect_def SweepAbandoned_def Worker_take_item_def Worker_finish_item_def complete_state_def
  NormalizePendingLimit_def kDefaultPendingLimit_def collect_missing_def Let_def

lemma example_replay:
  "\<exists>d. lane_replay (lane_trace1 @ [Collected 1 example_collect]) (LaneDispatcher_init 2) = Some d"
  "\<exists>d. lane_replay lane_trace2 (LaneDispatcher_init 2) = Some d"
  by (simp_all add: lane_eval)

theorem lane_results_exact_witness:
  "cr_status example_collect = Collect_kFailed \<and>
   (\<exists>item lane outcome. wi_handle item = 1 \<and> Finished lane item outcome \<in> set lane_trace1 \<and> cr_error example_collect = Some (er_error (lane_result outcome)))"
proof -
  obtain d where "lane_run (LaneDispatcher_init 2) (lane_trace1 @ [Collected 1 example_collect]) d"
    using example_replay(1) lane_replay_run by blast
  moreover have f: "cr_status example_collect = Collect_kFailed" by (simp add: example_collect_def)
  ultimately show ?thesis using lane_results_exact [of 2 lane_trace1 1 example_collect d] by blast
qed

theorem lane_accounting_witness:
  "\<exists>d. lane_run (LaneDispatcher_init 2) lane_trace2 d \<and> PendingCount True d \<le> NormalizePendingLimit 2 \<and>
     Taken True (Some (example_item 2 8)) \<notin> set [Taken True None]"
proof -
  obtain d where run: "lane_run (LaneDispatcher_init 2) lane_trace2 d"
    using example_replay(2) lane_replay_run by blast
  have "lane_trace2 = (lane_trace1 @ [Collected 1 example_collect, Submitted 2 [example_input 8] True]) @ Swept [2] # [Taken True None]"
    "wi_handle (example_item 2 8) \<in> set [2]"
    by (simp_all add: lane_trace2_def example_item_def)
  then show ?thesis using lane_accounting [OF run] run by blast
qed

end
