(* ===== verification/Batch_Overlap.thy ===== *)
theory Batch_Overlap
  imports Lane_Dispatcher
begin

section \<open>Splitting mixed batches over the lanes\<close>

text \<open>
  \<open>runtime/backends/common/batching_utils.h\<close>, the shared batch analysis, and the functions of
  \<open>runtime/backends/cuda/inferflux_cuda_executor.cpp\<close> that run a mixed batch on both lanes of
  the dispatcher at once and merge the results. What happens on the GPU, and which results the polls of a handle
  see, are arguments; metrics and logging are left out, and so are the 32-bit overflows of token sums.
\<close>

subsection \<open>Batch analysis\<close>

definition IsPrefillLikeInput :: "UnifiedBatchInput \<Rightarrow> bool" where
  "IsPrefillLikeInput input \<longleftrightarrow> length (ui_tokens input) > 1"

definition IsDecodeLikeInput :: "UnifiedBatchInput \<Rightarrow> bool" where
  "IsDecodeLikeInput input \<longleftrightarrow> length (ui_tokens input) = 1"

fun all_inputs :: "(UnifiedBatchInput \<Rightarrow> bool) \<Rightarrow> UnifiedBatchInput list \<Rightarrow> bool" where
  "all_inputs P [] = True"
| "all_inputs P (input # inputs) = (if \<not> P input then False else all_inputs P inputs)"

definition IsPrefillOnlyBatch :: "UnifiedBatchInput list \<Rightarrow> bool" where
  "IsPrefillOnlyBatch inputs = (if inputs = [] then False else all_inputs IsPrefillLikeInput inputs)"

definition IsDecodeOnlyBatch :: "UnifiedBatchInput list \<Rightarrow> bool" where
  "IsDecodeOnlyBatch inputs = (if inputs = [] then False else all_inputs IsDecodeLikeInput inputs)"

fun mixed_loop :: "(UnifiedBatchInput \<Rightarrow> bool) \<Rightarrow> bool \<Rightarrow> bool \<Rightarrow> UnifiedBatchInput list \<Rightarrow> bool" where
  "mixed_loop prefill_like has_prefill has_decode [] = False"
| "mixed_loop prefill_like has_prefill has_decode (input # inputs) =
     (let has_prefill' = (if prefill_like input then True else has_prefill);
          has_decode' = (if prefill_like input then has_decode else True)
      in if has_prefill' \<and> has_decode' then True else mixed_loop prefill_like has_prefill' has_decode' inputs)"

definition HasMixedWorkload :: "UnifiedBatchInput list \<Rightarrow> bool" where
  "HasMixedWorkload inputs = mixed_loop IsPrefillLikeInput False False inputs"

text \<open>The indices of the inputs from \<open>i\<close> on, prefill first.\<close>

fun split_loop :: "(UnifiedBatchInput \<Rightarrow> bool) \<Rightarrow> nat \<Rightarrow> UnifiedBatchInput list \<Rightarrow> nat list \<times> nat list" where
  "split_loop prefill_like i [] = ([], [])"
| "split_loop prefill_like i (input # inputs) =
     (let (prefill_indices, decode_indices) = split_loop prefill_like (i + 1) inputs
      in if prefill_like input then (i # prefill_indices, decode_indices) else (prefill_indices, i # decode_indices))"

definition SplitBatchByType :: "UnifiedBatchInput list \<Rightarrow> nat list \<times> nat list" where
  "SplitBatchByType inputs = split_loop IsPrefillLikeInput 0 inputs"

fun CountTotalTokens :: "UnifiedBatchInput list \<Rightarrow> nat" where
  "CountTotalTokens [] = 0"
| "CountTotalTokens (input # inputs) = length (ui_tokens input) + CountTotalTokens inputs"

definition ExceedsTokenCapacity :: "UnifiedBatchInput list \<Rightarrow> nat \<Rightarrow> bool" where
  "ExceedsTokenCapacity inputs max_tokens \<longleftrightarrow> CountTotalTokens inputs > max_tokens"

subsection \<open>The overlap path of the CUDA executor\<close>

definition cuda_IsPrefillLikeInput :: "UnifiedBatchInput \<Rightarrow> bool" where
  "cuda_IsPrefillLikeInput input \<longleftrightarrow> length (ui_tokens input) > 1 \<or> \<not> ui_request_logits input"

definition cuda_HasMixedWorkload :: "bool \<Rightarrow> UnifiedBatchInput list \<Rightarrow> bool" where
  "cuda_HasMixedWorkload overlap_enabled inputs =
     (if \<not> overlap_enabled then False else mixed_loop cuda_IsPrefillLikeInput False False inputs)"

definition cuda_SplitBatchByType :: "UnifiedBatchInput list \<Rightarrow> nat list \<times> nat list" where
  "cuda_SplitBatchByType inputs = split_loop cuda_IsPrefillLikeInput 0 inputs"

text \<open>The output arguments of \<open>WaitForLaneHandle\<close> with its result.\<close>

record wait_result =
  wr_ok :: bool
  wr_outputs :: "UnifiedBatchOutput list"
  wr_decode_lane :: bool
  wr_error :: string
  wr_elapsed_ms :: real
  wr_timed_out :: bool

text \<open>What one call of \<open>TryCollect\<close> writes.\<close>

definition collect_into :: "collect_result \<Rightarrow> wait_result \<Rightarrow> wait_result" where
  "collect_into r w = w\<lparr>
     wr_outputs := (case cr_outputs r of None \<Rightarrow> wr_outputs w | Some x \<Rightarrow> x),
     wr_decode_lane := (case cr_decode_lane r of None \<Rightarrow> wr_decode_lane w | Some x \<Rightarrow> x),
     wr_error := (case cr_error r of None \<Rightarrow> wr_error w | Some x \<Rightarrow> x),
     wr_elapsed_ms := (case cr_elapsed_ms r of None \<Rightarrow> wr_elapsed_ms w | Some x \<Rightarrow> x)\<rparr>"

text \<open>\<open>polls\<close> are the answers of the dispatcher before the deadline, \<open>final\<close> the one after it.\<close>

fun wait_loop :: "collect_result list \<Rightarrow> collect_result \<Rightarrow> wait_result \<Rightarrow> wait_result" where
  "wait_loop [] final w =
     (collect_into final w)\<lparr>wr_timed_out := (cr_status final = Collect_kPending), wr_ok := (cr_status final = Collect_kSuccess)\<rparr>"
| "wait_loop (p # polls) final w =
     (let w1 = collect_into p w
      in case cr_status p of
           Collect_kSuccess \<Rightarrow> w1\<lparr>wr_timed_out := False, wr_ok := True\<rparr>
         | Collect_kFailed \<Rightarrow> w1\<lparr>wr_timed_out := False, wr_ok := False\<rparr>
         | Collect_kMissing \<Rightarrow> w1\<lparr>wr_timed_out := False, wr_ok := False\<rparr>
         | Collect_kPending \<Rightarrow> wait_loop polls final w1)"

definition WaitForLaneHandle :: "nat \<Rightarrow> collect_result list \<Rightarrow> collect_result \<Rightarrow> wait_result \<Rightarrow> wait_result" where
  "WaitForLaneHandle handle polls final w =
     (if handle = 0 then w\<lparr>wr_timed_out := False, wr_ok := False\<rparr> else wait_loop polls final w)"

text \<open>What a call meets: the lane resources, the dispatcher and its answers, and execution without overlap.\<close>

record overlap_env =
  oe_min_prefill_tokens :: int
  oe_lanes_ready :: bool
  oe_dispatcher_started :: bool
  oe_submit :: "UnifiedBatchInput list \<Rightarrow> bool \<Rightarrow> nat"
  oe_polls :: "nat \<Rightarrow> collect_result list"
  oe_final :: "nat \<Rightarrow> collect_result"
  oe_fallback :: "UnifiedBatchInput list \<Rightarrow> UnifiedBatchOutput list"

definition empty_logprob :: TokenLogprob where
  "empty_logprob = \<lparr>lp_token = [], lp_logprob = 0, lp_bytes = [], lp_top_logprobs = []\<rparr>"

definition empty_output :: UnifiedBatchOutput where
  "empty_output = \<lparr>uo_token = -1, uo_piece = [], uo_ok = False, uo_step_logprob = empty_logprob, uo_has_step_logprob = False\<rparr>"

fun scatter :: "nat list \<Rightarrow> 'a list \<Rightarrow> 'a list \<Rightarrow> 'a list" where
  "scatter (i # indices) (x # xs) outputs = scatter indices xs (outputs[i := x])"
| "scatter indices xs outputs = outputs"

definition wait_init :: "bool \<Rightarrow> wait_result" where
  "wait_init lane = \<lparr>wr_ok = False, wr_outputs = [], wr_decode_lane = lane, wr_error = [], wr_elapsed_ms = 0, wr_timed_out = False\<rparr>"

definition wait_handle :: "overlap_env \<Rightarrow> bool \<Rightarrow> nat \<Rightarrow> wait_result" where
  "wait_handle env lane h = WaitForLaneHandle h (oe_polls env h) (oe_final env h) (wait_init lane)"

definition ExecuteUnifiedBatchWithOverlap :: "overlap_env \<Rightarrow> UnifiedBatchInput list \<Rightarrow> UnifiedBatchOutput list" where
  "ExecuteUnifiedBatchWithOverlap env inputs =
     (let (prefill_indices, decode_indices) = cuda_SplitBatchByType inputs;
          total_prefill_tokens = sum_list (map (\<lambda>idx. int (length (ui_tokens (inputs ! idx)))) prefill_indices)
      in if total_prefill_tokens < oe_min_prefill_tokens env \<or> prefill_indices = [] \<or> decode_indices = [] then oe_fallback env inputs
         else if \<not> oe_lanes_ready env then oe_fallback env inputs
         else
           let decode_inputs = map ((!) inputs) decode_indices;
               prefill_inputs = map ((!) inputs) prefill_indices
           in if \<not> oe_dispatcher_started env then oe_fallback env inputs
              else
                let decode_handle = oe_submit env decode_inputs True
                in if decode_handle = 0 then oe_fallback env inputs
                   else
                     let prefill_handle = oe_submit env prefill_inputs False
                     in if prefill_handle = 0 then oe_fallback env inputs
                        else
                          let decode = wait_handle env True decode_handle;
                              prefill = wait_handle env False prefill_handle
                          in if \<not> wr_ok decode \<or> \<not> wr_ok prefill then oe_fallback env inputs
                             else scatter prefill_indices (wr_outputs prefill)
                                    (scatter decode_indices (wr_outputs decode) (replicate (length inputs) empty_output)))"

datatype UnifiedBatchLane = Lane_kAuto | Lane_kDecode | Lane_kPrefill

definition async_is_decode :: "UnifiedBatchLane \<Rightarrow> UnifiedBatchInput list \<Rightarrow> bool" where
  "async_is_decode lane inputs \<longleftrightarrow> lane = Lane_kDecode \<or>
     (lane = Lane_kAuto \<and> list_all (\<lambda>i. length (ui_tokens i) = 1 \<and> ui_request_logits i) inputs)"

definition SubmitUnifiedBatchAsync ::
  "bool \<Rightarrow> bool \<Rightarrow> time_point \<Rightarrow> UnifiedBatchInput list \<Rightarrow> UnifiedBatchLane \<Rightarrow> LaneDispatcher \<Rightarrow> LaneDispatcher \<times> nat" where
  "SubmitUnifiedBatchAsync has_model started now inputs lane d =
     (if \<not> has_model \<or> inputs = [] then (d, 0)
      else if \<not> started then (d, 0)
      else Submit now inputs (async_is_decode lane inputs) d)"

definition TryCollectUnifiedBatchAsync :: "nat \<Rightarrow> LaneDispatcher \<Rightarrow> LaneDispatcher \<times> UnifiedBatchOutput list option \<times> bool" where
  "TryCollectUnifiedBatchAsync handle d =
     (if handle = 0 then (d, None, False)
      else
        let (d', r) = TryCollect handle d
        in if cr_status r = Collect_kPending \<or> cr_status r = Collect_kMissing then (d', cr_outputs r, False)
           else if cr_status r = Collect_kFailed then (d', cr_outputs r, False)
           else (d', cr_outputs r, True))"

section \<open>Lemmas\<close>

lemma all_inputs_iff [simp]: "all_inputs P inputs \<longleftrightarrow> (\<forall>input \<in> set inputs. P input)"
  by (induction inputs) auto

lemma mixed_loop_iff:
  "\<not> (a \<and> b) \<Longrightarrow>
   mixed_loop P a b inputs \<longleftrightarrow> (a \<or> list_ex P inputs) \<and> (b \<or> list_ex (\<lambda>i. \<not> P i) inputs)"
proof (induction inputs arbitrary: a b)
  case (Cons x xs)
  show ?case using Cons.IH [of True b] Cons.IH [of a True] Cons.prems by (cases "P x") (cases a; cases b; simp add: Let_def)+
qed simp

lemma split_loop_eq:
  "split_loop P k inputs = (map (\<lambda>i. k + i) (filter (\<lambda>i. P (inputs ! i)) [0..<length inputs]),
     map (\<lambda>i. k + i) (filter (\<lambda>i. \<not> P (inputs ! i)) [0..<length inputs]))"
proof (induction inputs arbitrary: k)
  case (Cons x xs)
  have up: "[0..<length (x # xs)] = 0 # map Suc [0..<length xs]" by (simp add: map_Suc_upt upt_conv_Cons del: upt_Suc)
  show ?case unfolding up by (simp add: Cons.IH filter_map comp_def)
qed simp

lemma length_scatter [simp]: "length (scatter indices xs outputs) = length outputs"
  by (induction indices xs outputs rule: scatter.induct) auto

lemma scatter_map:
  "j < length outputs \<Longrightarrow> scatter indices (map g indices) outputs ! j = (if j \<in> set indices then g j else outputs ! j)"
  by (induction indices arbitrary: outputs) auto

text \<open>Splitting and merging are inverse.\<close>

lemma merge_split:
  assumes "split_loop P 0 inputs = (prefill_indices, decode_indices)" "length outputs = length inputs"
  shows "scatter prefill_indices (map f (map ((!) inputs) prefill_indices))
      (scatter decode_indices (map f (map ((!) inputs) decode_indices)) outputs) = map f inputs"
proof (rule nth_equalityI)
  fix j assume j: "j < length (scatter prefill_indices (map f (map ((!) inputs) prefill_indices))
      (scatter decode_indices (map f (map ((!) inputs) decode_indices)) outputs))"
  have "j \<in> set prefill_indices \<or> j \<in> set decode_indices"
    using assms j unfolding split_loop_eq by auto
  then show "scatter prefill_indices (map f (map ((!) inputs) prefill_indices))
      (scatter decode_indices (map f (map ((!) inputs) decode_indices)) outputs) ! j = map f inputs ! j"
    using j assms(2) by (auto simp: scatter_map)
qed (simp add: assms(2))

text \<open>The calls of \<open>TryCollect\<close> that the loop really makes.\<close>

fun made_polls :: "collect_result list \<Rightarrow> collect_result \<Rightarrow> collect_result list" where
  "made_polls [] final = [final]"
| "made_polls (p # polls) final = p # (if cr_status p = Collect_kPending then made_polls polls final else [])"

lemma wait_loop_ok:
  assumes "wr_ok (wait_loop polls final w)"
  shows "\<exists>p \<in> set (made_polls polls final). cr_status p = Collect_kSuccess \<and>
    (\<forall>outs. cr_outputs p = Some outs \<longrightarrow> wr_outputs (wait_loop polls final w) = outs)"
  using assms
proof (induction polls arbitrary: w)
  case (Cons p polls)
  then show ?case by (cases "cr_status p") (auto simp: collect_into_def Let_def)
qed (auto simp: collect_into_def)

text \<open>The success results of a dispatcher run, where each execution that succeeds computes \<open>f\<close> on every input.\<close>

lemma collected_map:
  assumes "lane_run (LaneDispatcher_init n) tr d" "Collected h r \<in> set tr" "cr_status r = Collect_kSuccess"
    "Submitted h inputs lane \<in> set tr" "0 < h"
    "\<And>lane item outcome. Finished lane item outcome \<in> set tr \<Longrightarrow> er_success (lane_result outcome) \<Longrightarrow>
       er_outputs (lane_result outcome) = map f (wi_inputs item)"
  shows "cr_outputs r = Some (map f inputs)"
proof -
  obtain tr1 tr2 where tr: "tr = tr1 @ Collected h r # tr2" using assms(2) by (meson split_list)
  then obtain d1 where run: "lane_run (LaneDispatcher_init n) (tr1 @ [Collected h r]) d1"
    using assms(1) lane_run_append [of _ "tr1 @ [Collected h r]" tr2] by auto
  obtain item l outcome where o: "wi_handle item = h" "Submitted h (wi_inputs item) l \<in> set tr1" "Finished l item outcome \<in> set tr1"
    "cr_status r = Collect_kSuccess \<longleftrightarrow> er_success (lane_result outcome)"
    "er_success (lane_result outcome) \<longrightarrow> cr_outputs r = Some (er_outputs (lane_result outcome))"
    using collected_outcome [OF run] assms(3) by blast
  have "Submitted h (wi_inputs item) l \<in> set tr" using o(2) tr by simp
  then have "wi_inputs item = inputs"
    using lane_run_submitted_once [OF assms(1)] assms(4,5) unfolding submitted_once_def by blast
  then show ?thesis using o(3-5) assms(3) assms(6) [of l item outcome] tr by simp
qed

text \<open>The mixed-workload test agrees with the split, also for inputs without tokens, which both count as decode work.\<close>

lemma mixed_iff_split:
  "HasMixedWorkload inputs \<longleftrightarrow> fst (SplitBatchByType inputs) \<noteq> [] \<and> snd (SplitBatchByType inputs) \<noteq> []"
  by (simp add: HasMixedWorkload_def SplitBatchByType_def mixed_loop_iff split_loop_eq list_ex_length filter_empty_conv Bex_def)

text \<open>The batches of one kind, and the empty batch, which is of neither kind.\<close>

lemma single_kind_batches:
  "IsPrefillOnlyBatch inputs \<Longrightarrow> \<not> HasMixedWorkload inputs \<and> \<not> IsDecodeOnlyBatch inputs"
  "IsDecodeOnlyBatch inputs \<Longrightarrow> \<not> HasMixedWorkload inputs \<and> CountTotalTokens inputs = length inputs"
  "\<not> IsPrefillOnlyBatch [] \<and> \<not> IsDecodeOnlyBatch []"
proof -
  show "IsPrefillOnlyBatch inputs \<Longrightarrow> \<not> HasMixedWorkload inputs \<and> \<not> IsDecodeOnlyBatch inputs"
    by (cases inputs) (auto simp: IsPrefillOnlyBatch_def IsDecodeOnlyBatch_def HasMixedWorkload_def mixed_loop_iff list_ex_iff
        IsPrefillLikeInput_def IsDecodeLikeInput_def split: if_splits)
  have "all_inputs IsDecodeLikeInput xs \<Longrightarrow> CountTotalTokens xs = length xs" for xs
    by (induction xs) (auto simp: IsDecodeLikeInput_def)
  then show "IsDecodeOnlyBatch inputs \<Longrightarrow> \<not> HasMixedWorkload inputs \<and> CountTotalTokens inputs = length inputs"
    by (auto simp: IsDecodeOnlyBatch_def HasMixedWorkload_def mixed_loop_iff list_ex_iff IsPrefillLikeInput_def
        IsDecodeLikeInput_def split: if_splits)
qed (simp add: IsPrefillOnlyBatch_def IsDecodeOnlyBatch_def)

section \<open>Properties\<close>

text \<open>A waited handle yields the outputs of its batch.\<close>

lemma wait_handle_map:
  assumes "lane_run (LaneDispatcher_init n) tr d"
    "\<And>lane item outcome. Finished lane item outcome \<in> set tr \<Longrightarrow> er_success (lane_result outcome) \<Longrightarrow>
       er_outputs (lane_result outcome) = map f (wi_inputs item)"
    "\<And>p. p \<in> set (made_polls (oe_polls env h) (oe_final env h)) \<Longrightarrow> Collected h p \<in> set tr"
    "Submitted h inputs lane \<in> set tr" "wr_ok (wait_handle env lane h)"
  shows "wr_outputs (wait_handle env lane h) = map f inputs"
proof -
  have h: "0 < h" using assms(5) by (cases h) (auto simp: wait_handle_def WaitForLaneHandle_def)
  then have w: "wait_handle env lane h = wait_loop (oe_polls env h) (oe_final env h) (wait_init lane)"
    by (simp add: wait_handle_def WaitForLaneHandle_def)
  obtain p where p: "p \<in> set (made_polls (oe_polls env h) (oe_final env h))" "cr_status p = Collect_kSuccess"
    "\<forall>outs. cr_outputs p = Some outs \<longrightarrow> wr_outputs (wait_handle env lane h) = outs"
    using wait_loop_ok assms(5) unfolding w by blast
  have "cr_outputs p = Some (map f inputs)"
    by (rule collected_map [OF assms(1) assms(3) [OF p(1)] p(2) assms(4) h assms(2)])
  then show ?thesis using p(3) by blast
qed


subsection \<open>A mixed batch on both lanes\<close>

definition mixed_input :: "int list \<Rightarrow> UnifiedBatchInput" where
  "mixed_input ts = (example_input 0)\<lparr>ui_tokens := ts\<rparr>"

definition mixed_batch :: "UnifiedBatchInput list" where
  "mixed_batch = [mixed_input [7], mixed_input [1, 2], mixed_input [8]]"

definition echo_token :: "UnifiedBatchInput \<Rightarrow> UnifiedBatchOutput" where
  "echo_token i = empty_output\<lparr>uo_token := hd (ui_tokens i), uo_ok := True\<rparr>"

definition echo_result :: "UnifiedBatchInput list \<Rightarrow> ExecutionResult" where
  "echo_result ins = \<lparr>er_success = True, er_outputs = map echo_token ins, er_error = [], er_elapsed_ms = 1\<rparr>"

definition echo_collect :: "bool \<Rightarrow> UnifiedBatchInput list \<Rightarrow> collect_result" where
  "echo_collect lane ins = \<lparr>cr_status = Collect_kSuccess, cr_outputs = Some (map echo_token ins), cr_decode_lane = Some lane,
     cr_error = Some [], cr_elapsed_ms = Some 1\<rparr>"

definition pending_collect :: "bool \<Rightarrow> collect_result" where
  "pending_collect lane = collect_missing\<lparr>cr_status := Collect_kPending, cr_decode_lane := Some lane\<rparr>"

definition mixed_item :: "bool \<Rightarrow> WorkItem" where
  "mixed_item lane = (if lane then \<lparr>wi_handle = 1, wi_decode_lane = True, wi_inputs = [mixed_input [7], mixed_input [8]]\<rparr>
     else \<lparr>wi_handle = 2, wi_decode_lane = False, wi_inputs = [mixed_input [1, 2]]\<rparr>)"

definition mixed_trace :: "lane_event list" where
  "mixed_trace = [Started, Submitted 1 (wi_inputs (mixed_item True)) True, Submitted 2 (wi_inputs (mixed_item False)) False,
     Taken False (Some (mixed_item False)), Taken True (Some (mixed_item True)), Collected 1 (pending_collect True),
     Finished True (mixed_item True) (Returned (echo_result (wi_inputs (mixed_item True)))),
     Collected 1 (echo_collect True (wi_inputs (mixed_item True))),
     Finished False (mixed_item False) (Returned (echo_result (wi_inputs (mixed_item False)))),
     Collected 2 (echo_collect False (wi_inputs (mixed_item False)))]"

definition mixed_env :: overlap_env where
  "mixed_env = \<lparr>oe_min_prefill_tokens = 2, oe_lanes_ready = True, oe_dispatcher_started = True,
     oe_submit = (\<lambda>ins lane. if ins = wi_inputs (mixed_item lane) then (if lane then 1 else 2) else 0),
     oe_polls = (\<lambda>h. if h = 1 then [pending_collect True] else []),
     oe_final = (\<lambda>h. echo_collect (h = 1) (wi_inputs (mixed_item (h = 1)))),
     oe_fallback = map echo_token\<rparr>"

lemma mixed_replay: "\<exists>d. lane_replay mixed_trace (LaneDispatcher_init 4) = Some d"
  by (simp add: mixed_trace_def mixed_item_def echo_collect_def echo_result_def pending_collect_def lane_eval)


end
