(* ===== verification/KV_Plan.thy ===== *)
theory KV_Plan
  imports Prelude
begin

section \<open>Sizing the KV cache\<close>

text \<open>
  \<open>runtime/backends/cuda/native/kv_cache_planner.h\<close>: how many sequences and positions the
  KV cache of the CUDA backend gets so that it fits a memory budget. A \<open>std::size_t\<close> is a 64-bit word and a
  cast of an \<open>int\<close> to it wraps, an \<open>int\<close> is an \<^typ>\<open>int\<close>; the share of the free memory is computed exactly
  where the code multiplies in \<open>long double\<close>.
\<close>

definition size_max :: "64 word" where
  "size_max = - 1"

definition SaturatingMul :: "64 word \<Rightarrow> 64 word \<Rightarrow> 64 word" where
  "SaturatingMul a b = (if a \<noteq> 0 \<and> b > size_max div a then size_max else a * b)"

definition EstimateKvBytesPerTokenPerSequence :: "int \<Rightarrow> int \<Rightarrow> int \<Rightarrow> 64 word \<Rightarrow> 64 word" where
  "EstimateKvBytesPerTokenPerSequence num_layers num_kv_heads head_dim kv_element_bytes =
     (let layers = word_of_int (max 0 num_layers);
          kv_heads = word_of_int (max 0 num_kv_heads);
          dim = word_of_int (max 0 head_dim);
          total = SaturatingMul layers 2;
          total = SaturatingMul total kv_heads;
          total = SaturatingMul total dim
      in SaturatingMul total kv_element_bytes)"

definition EstimateKvCacheBytes :: "int \<Rightarrow> int \<Rightarrow> 64 word \<Rightarrow> 64 word" where
  "EstimateKvCacheBytes max_batch max_seq bytes_per_token_per_seq =
     (let batch = word_of_int (max 0 max_batch);
          seq = word_of_int (max 0 max_seq);
          total = SaturatingMul batch seq
      in SaturatingMul total bytes_per_token_per_seq)"

definition ComputeScratchRows :: "int \<Rightarrow> int \<Rightarrow> int \<Rightarrow> int" where
  "ComputeScratchRows max_seq_len max_batch prefill_chunk_cap =
     (let seq = max 0 max_seq_len;
          batch = max 1 max_batch;
          chunk = min (max 1 prefill_chunk_cap) seq
      in max chunk batch)"

record KvCachePlanInput =
  requested_max_batch :: int
  requested_max_seq :: int
  min_max_batch :: int
  min_max_seq :: int
  model_max_position_embeddings :: int
  bytes_per_token_per_sequence :: "64 word"
  auto_tune_enabled :: bool
  max_seq_overridden :: bool
  max_batch_overridden :: bool
  explicit_budget_bytes :: "64 word"
  plan_free_bytes :: "64 word"
  budget_ratio :: real

record KvCachePlanOutput =
  plan_max_batch :: int
  plan_max_seq :: int
  requested_bytes :: "64 word"
  planned_bytes :: "64 word"
  budget_bytes :: "64 word"
  auto_tuned_seq :: bool
  auto_tuned_batch :: bool

definition cap_seq :: "KvCachePlanInput \<Rightarrow> int \<Rightarrow> int" where
  "cap_seq input seq = (if model_max_position_embeddings input > 0 then min seq (model_max_position_embeddings input) else seq)"

definition plan_budget :: "KvCachePlanInput \<Rightarrow> 64 word" where
  "plan_budget input =
     (if explicit_budget_bytes input > 0 then explicit_budget_bytes input
      else if plan_free_bytes input > 0 \<and> budget_ratio input > 0 \<and> budget_ratio input \<le> 1
      then word_of_int \<lfloor>real_of_int (uint (plan_free_bytes input)) * budget_ratio input\<rfloor>
      else 0)"

text \<open>\<open>static_cast<int>\<close> of a quotient that was limited to the largest \<open>int\<close>.\<close>

definition budget_quotient :: "64 word \<Rightarrow> 64 word \<Rightarrow> int" where
  "budget_quotient budget denom = uint (min (budget div denom) 2147483647)"

definition tune_seq :: "KvCachePlanInput \<Rightarrow> 64 word \<Rightarrow> int \<Rightarrow> int \<Rightarrow> int" where
  "tune_seq input budget batch seq =
     (let seq_denom = SaturatingMul (word_of_int batch) (bytes_per_token_per_sequence input)
      in if seq_denom \<noteq> 0 \<and> seq_denom \<noteq> size_max then
           let tuned_seq = cap_seq input (max (budget_quotient budget seq_denom) (min_max_seq input))
           in if tuned_seq < seq then tuned_seq else seq
         else seq)"

definition tune_batch :: "KvCachePlanInput \<Rightarrow> 64 word \<Rightarrow> int \<Rightarrow> int \<Rightarrow> int" where
  "tune_batch input budget seq batch =
     (let batch_denom = SaturatingMul (word_of_int seq) (bytes_per_token_per_sequence input)
      in if batch_denom \<noteq> 0 \<and> batch_denom \<noteq> size_max then
           let tuned_batch = max (budget_quotient budget batch_denom) (min_max_batch input)
           in if tuned_batch < batch then tuned_batch else batch
         else batch)"

definition PlanKvCache :: "KvCachePlanInput \<Rightarrow> KvCachePlanOutput" where
  "PlanKvCache input =
     (let bpt = bytes_per_token_per_sequence input;
          batch = max (requested_max_batch input) (min_max_batch input);
          seq = cap_seq input (max (requested_max_seq input) (min_max_seq input));
          requested = EstimateKvCacheBytes batch seq bpt;
          budget = plan_budget input;
          out = \<lparr>plan_max_batch = batch, plan_max_seq = seq, requested_bytes = requested, planned_bytes = 0,
                 budget_bytes = budget, auto_tuned_seq = False, auto_tuned_batch = False\<rparr>
      in if \<not> auto_tune_enabled input \<or> bpt = 0 \<or> budget = 0 \<or> requested \<le> budget
         then out\<lparr>planned_bytes := requested\<rparr>
         else
           let seq1 = (if max_seq_overridden input then seq else tune_seq input budget batch seq);
               planned1 = EstimateKvCacheBytes batch seq1 bpt;
               batch1 = (if planned1 > budget \<and> \<not> max_batch_overridden input \<and> seq1 > 0
                         then tune_batch input budget seq1 batch else batch)
           in out\<lparr>plan_max_batch := batch1, plan_max_seq := seq1, planned_bytes := EstimateKvCacheBytes batch1 seq1 bpt,
                  auto_tuned_seq := (seq1 \<noteq> seq), auto_tuned_batch := (batch1 \<noteq> batch)\<rparr>)"

section \<open>Saturating arithmetic\<close>

lemma unat_size_max: "unat size_max = 2 ^ 64 - 1"
  by (simp add: size_max_def unsigned_minus_1_eq_mask mask_eq_exp_minus_1)

lemma unat_SaturatingMul: "unat (SaturatingMul a b) = min (2 ^ 64 - 1) (unat a * unat b)"
proof (cases "a \<noteq> 0 \<and> b > size_max div a")
  case True
  then have a: "0 < unat a" by (simp add: unat_gt_0)
  have "(2 ^ 64 - 1) div unat a < unat b"
    using True by (simp add: word_less_nat_alt unat_div unat_size_max)
  then have "2 ^ 64 - 1 < unat b * unat a" using a by (simp add: div_less_iff_less_mult)
  then show ?thesis using True by (simp add: SaturatingMul_def unat_size_max mult.commute)
next
  case False
  have "unat a * unat b \<le> 2 ^ 64 - 1"
  proof (cases "a = 0")
    case nz: False
    then have "unat b \<le> (2 ^ 64 - 1) div unat a"
      using False by (simp add: not_less word_le_nat_alt unat_div unat_size_max)
    then have "unat a * unat b \<le> unat a * ((2 ^ 64 - 1) div unat a)" by (rule mult_le_mono2)
    then show ?thesis using times_div_less_eq_dividend [of "unat a" "2 ^ 64 - 1"] by linarith
  qed simp
  then have "unat (a * b) = unat a * unat b" by (simp add: unat_word_ariths(2))
  then show ?thesis using False \<open>unat a * unat b \<le> _\<close> by (auto simp: SaturatingMul_def)
qed

lemma unat_word_of_int_size: "0 \<le> i \<Longrightarrow> i < 2 ^ 31 \<Longrightarrow> unat (word_of_int i :: 64 word) = nat i"
  by (simp add: unsigned_of_int take_bit_int_eq_self)

lemma unat_EstimateKvCacheBytes:
  assumes "0 \<le> batch" "batch < 2 ^ 31" "0 \<le> seq" "seq < 2 ^ 31"
  shows "unat (EstimateKvCacheBytes batch seq bpt) = min (2 ^ 64 - 1) (nat batch * nat seq * unat bpt)"
proof -
  have "nat batch * nat seq \<le> (2 ^ 31 - 1) * (2 ^ 31 - 1)" using assms by (intro mult_le_mono) auto
  then have "nat batch * nat seq \<le> 2 ^ 64 - 1" by simp
  then show ?thesis using assms by (simp add: EstimateKvCacheBytes_def Let_def unat_SaturatingMul unat_word_of_int_size)
qed

lemma budget_quotient_le: "0 \<le> budget_quotient b d" "nat (budget_quotient b d) * unat d \<le> unat b" "budget_quotient b d < 2 ^ 31"
proof -
  have q: "nat (budget_quotient b d) = unat (min (b div d) 2147483647)" by (simp add: budget_quotient_def)
  have "min (b div d) 2147483647 \<le> b div d" "min (b div d) 2147483647 \<le> 2147483647" by simp_all
  then have le: "unat (min (b div d) 2147483647) \<le> unat b div unat d" "unat (min (b div d) 2147483647) \<le> 2147483647"
    unfolding word_le_nat_alt by (simp_all add: unat_div)
  show "nat (budget_quotient b d) * unat d \<le> unat b"
    unfolding q using mult_le_mono1 [OF le(1), of "unat d"] div_times_less_eq_dividend [of "unat b" "unat d"] by linarith
  show "0 \<le> budget_quotient b d" by (simp add: budget_quotient_def)
  then show "budget_quotient b d < 2 ^ 31" using le(2) q by (simp add: nat_le_iff)
qed

lemma SaturatingMul_cases:
  assumes "unat a * unat b < 2 ^ 64 - 1" "0 < unat a * unat b"
  shows "SaturatingMul a b \<noteq> 0 \<and> SaturatingMul a b \<noteq> size_max \<and> unat (SaturatingMul a b) = unat a * unat b"
proof -
  have u: "unat (SaturatingMul a b) = unat a * unat b" using assms(1) by (simp add: unat_SaturatingMul)
  then have "unat (SaturatingMul a b) \<noteq> unat (0 :: 64 word)" "unat (SaturatingMul a b) \<noteq> unat size_max"
    using assms by (simp_all add: unat_size_max)
  then show ?thesis using u by auto
qed

lemma EstimateKvCacheBytes_zero: "EstimateKvCacheBytes b s 0 = 0"
  by (simp add: EstimateKvCacheBytes_def SaturatingMul_def Let_def)

subsection \<open>Both stages\<close>

lemma tune_seq_bounds: "tune_seq input budget batch seq \<le> seq"
  "tune_seq input budget batch seq = seq \<or> cap_seq input (min_max_seq input) \<le> tune_seq input budget batch seq"
  by (auto simp: tune_seq_def Let_def cap_seq_def)

lemma tune_batch_bounds: "tune_batch input budget seq batch \<le> batch"
  "tune_batch input budget seq batch = batch \<or> min_max_batch input \<le> tune_batch input budget seq batch"
  by (auto simp: tune_batch_def Let_def)

lemma tune_seq_cases:
  assumes "1 \<le> batch" "batch < 2 ^ 31" "0 < unat (bytes_per_token_per_sequence input)"
    "nat batch * unat (bytes_per_token_per_sequence input) < 2 ^ 64 - 1"
  shows "nat (tune_seq input budget batch seq) * (nat batch * unat (bytes_per_token_per_sequence input)) \<le> unat budget \<or>
    tune_seq input budget batch seq \<le> cap_seq input (min_max_seq input)"
proof -
  let ?d = "SaturatingMul (word_of_int batch) (bytes_per_token_per_sequence input)"
  have u: "unat (word_of_int batch :: 64 word) = nat batch" using assms by (simp add: unat_word_of_int_size)
  have d: "?d \<noteq> 0 \<and> ?d \<noteq> size_max \<and> unat ?d = nat batch * unat (bytes_per_token_per_sequence input)"
    using SaturatingMul_cases [of "word_of_int batch" "bytes_per_token_per_sequence input"] assms unfolding u by simp
  show ?thesis
  proof (cases "budget_quotient budget ?d \<le> min_max_seq input")
    case True
    then show ?thesis using d by (auto simp: tune_seq_def Let_def max_def)
  next
    case False
    then have "tune_seq input budget batch seq \<le> budget_quotient budget ?d"
      using d by (auto simp: tune_seq_def Let_def max_def cap_seq_def)
    then have "nat (tune_seq input budget batch seq) * unat ?d \<le> nat (budget_quotient budget ?d) * unat ?d"
      by (intro mult_le_mono1 nat_mono)
    then have "nat (tune_seq input budget batch seq) * unat ?d \<le> unat budget"
      using budget_quotient_le(2) le_trans by blast
    then show ?thesis using d by simp
  qed
qed

lemma tune_batch_cases:
  assumes "1 \<le> seq" "seq < 2 ^ 31" "0 < unat (bytes_per_token_per_sequence input)"
    "nat seq * unat (bytes_per_token_per_sequence input) < 2 ^ 64 - 1"
  shows "nat (tune_batch input budget seq batch) * (nat seq * unat (bytes_per_token_per_sequence input)) \<le> unat budget \<or>
    tune_batch input budget seq batch \<le> min_max_batch input"
proof -
  let ?d = "SaturatingMul (word_of_int seq) (bytes_per_token_per_sequence input)"
  have u: "unat (word_of_int seq :: 64 word) = nat seq" using assms by (simp add: unat_word_of_int_size)
  have d: "?d \<noteq> 0 \<and> ?d \<noteq> size_max \<and> unat ?d = nat seq * unat (bytes_per_token_per_sequence input)"
    using SaturatingMul_cases [of "word_of_int seq" "bytes_per_token_per_sequence input"] assms unfolding u by simp
  show ?thesis
  proof (cases "budget_quotient budget ?d \<le> min_max_batch input")
    case True
    then show ?thesis using d by (auto simp: tune_batch_def Let_def max_def)
  next
    case False
    then have "tune_batch input budget seq batch \<le> budget_quotient budget ?d"
      using d by (auto simp: tune_batch_def Let_def max_def)
    then have "nat (tune_batch input budget seq batch) * unat ?d \<le> nat (budget_quotient budget ?d) * unat ?d"
      by (intro mult_le_mono1 nat_mono)
    then have "nat (tune_batch input budget seq batch) * unat ?d \<le> unat budget"
      using budget_quotient_le(2) le_trans by blast
    then show ?thesis using d by simp
  qed
qed

subsection \<open>The plan\<close>

definition wanted_batch :: "KvCachePlanInput \<Rightarrow> int" where
  "wanted_batch i = max (requested_max_batch i) (min_max_batch i)"

definition wanted_seq :: "KvCachePlanInput \<Rightarrow> int" where
  "wanted_seq i = cap_seq i (max (requested_max_seq i) (min_max_seq i))"

definition plan_input_ok :: "KvCachePlanInput \<Rightarrow> bool" where
  "plan_input_ok i \<longleftrightarrow> 1 \<le> min_max_batch i \<and> 1 \<le> min_max_seq i \<and> wanted_batch i < 2 ^ 31 \<and>
     requested_max_seq i < 2 ^ 31 \<and> min_max_seq i < 2 ^ 31"

lemma wanted_bounds:
  assumes "plan_input_ok i"
  shows "1 \<le> min_max_batch i" "min_max_batch i \<le> wanted_batch i" "wanted_batch i < 2 ^ 31"
    "1 \<le> cap_seq i (min_max_seq i)" "cap_seq i (min_max_seq i) \<le> wanted_seq i" "wanted_seq i < 2 ^ 31"
  using assms by (auto simp: plan_input_ok_def wanted_batch_def wanted_seq_def cap_seq_def min_def max_def)

definition plan_as_asked :: "KvCachePlanInput \<Rightarrow> bool" where
  "plan_as_asked i \<longleftrightarrow> \<not> auto_tune_enabled i \<or> bytes_per_token_per_sequence i = 0 \<or> plan_budget i = 0 \<or>
     EstimateKvCacheBytes (wanted_batch i) (wanted_seq i) (bytes_per_token_per_sequence i) \<le> plan_budget i"

lemma PlanKvCache_asked:
  "plan_as_asked i \<Longrightarrow> plan_max_batch (PlanKvCache i) = wanted_batch i \<and> plan_max_seq (PlanKvCache i) = wanted_seq i"
  unfolding plan_as_asked_def PlanKvCache_def Let_def wanted_batch_def wanted_seq_def by simp

lemma PlanKvCache_tuned:
  assumes "\<not> plan_as_asked i"
  shows "plan_max_seq (PlanKvCache i) = (if max_seq_overridden i then wanted_seq i else tune_seq i (plan_budget i) (wanted_batch i) (wanted_seq i))"
    "plan_max_batch (PlanKvCache i) =
       (if EstimateKvCacheBytes (wanted_batch i) (plan_max_seq (PlanKvCache i)) (bytes_per_token_per_sequence i) > plan_budget i \<and>
           \<not> max_batch_overridden i \<and> plan_max_seq (PlanKvCache i) > 0
        then tune_batch i (plan_budget i) (plan_max_seq (PlanKvCache i)) (wanted_batch i) else wanted_batch i)"
  using assms unfolding plan_as_asked_def PlanKvCache_def Let_def wanted_batch_def wanted_seq_def by simp_all

lemma PlanKvCache_planned:
  "planned_bytes (PlanKvCache i) =
     EstimateKvCacheBytes (plan_max_batch (PlanKvCache i)) (plan_max_seq (PlanKvCache i)) (bytes_per_token_per_sequence i)"
  "budget_bytes (PlanKvCache i) = plan_budget i"
  by (simp_all add: PlanKvCache_def Let_def)

lemma PlanKvCache_dims:
  assumes "plan_input_ok i"
  shows "min_max_batch i \<le> plan_max_batch (PlanKvCache i) \<and> plan_max_batch (PlanKvCache i) \<le> wanted_batch i"
    "cap_seq i (min_max_seq i) \<le> plan_max_seq (PlanKvCache i) \<and> plan_max_seq (PlanKvCache i) \<le> wanted_seq i"
proof -
  note wb = wanted_bounds [OF assms]
  show "cap_seq i (min_max_seq i) \<le> plan_max_seq (PlanKvCache i) \<and> plan_max_seq (PlanKvCache i) \<le> wanted_seq i"
    using wb tune_seq_bounds [of i "plan_budget i" "wanted_batch i" "wanted_seq i"]
    by (cases "plan_as_asked i") (auto simp: PlanKvCache_asked PlanKvCache_tuned(1))
  show "min_max_batch i \<le> plan_max_batch (PlanKvCache i) \<and> plan_max_batch (PlanKvCache i) \<le> wanted_batch i"
    using wb tune_batch_bounds [of i "plan_budget i" "plan_max_seq (PlanKvCache i)" "wanted_batch i"]
    by (cases "plan_as_asked i") (auto simp: PlanKvCache_asked PlanKvCache_tuned(2))
qed

text \<open>The two stages together reach the budget whenever the smallest allowed plan does.\<close>

lemma stages_fit:
  assumes "plan_input_ok i" "0 < unat w" "w = bytes_per_token_per_sequence i"
    "nat (min_max_batch i) * nat (cap_seq i (min_max_seq i)) * unat w \<le> unat m" "nat (wanted_batch i) * unat w < 2 ^ 64 - 1"
    "s1 = tune_seq i m (wanted_batch i) (wanted_seq i)" "m < EstimateKvCacheBytes (wanted_batch i) s1 w"
  shows "nat (tune_batch i m s1 (wanted_batch i)) * (nat s1 * unat w) \<le> unat m \<and> 1 \<le> s1"
proof -
  note wb = wanted_bounds [OF assms(1)]
  have s1: "1 \<le> s1" "s1 < 2 ^ 31"
    using wb tune_seq_bounds [of i m "wanted_batch i" "wanted_seq i"] unfolding assms(6) by auto
  have big: "unat m < min (2 ^ 64 - 1) (nat (wanted_batch i) * nat s1 * unat w)"
    using assms(7) wb s1 by (simp add: word_less_nat_alt unat_EstimateKvCacheBytes)
  then have "\<not> nat s1 * (nat (wanted_batch i) * unat w) \<le> unat m" by (simp add: mult.assoc mult.left_commute)
  then have low: "s1 \<le> cap_seq i (min_max_seq i)"
    using tune_seq_cases [of "wanted_batch i" i m "wanted_seq i"] wb assms(2,5) unfolding assms(3,6) by linarith
  have "1 * nat s1 \<le> nat (min_max_batch i) * nat (cap_seq i (min_max_seq i))"
    using low wb(1) by (intro mult_le_mono nat_mono) auto
  then have "nat s1 * unat w \<le> nat (min_max_batch i) * nat (cap_seq i (min_max_seq i)) * unat w" by simp
  then have "nat s1 * unat w < 2 ^ 64 - 1" using assms(4) big by linarith
  then consider "nat (tune_batch i m s1 (wanted_batch i)) * (nat s1 * unat w) \<le> unat m"
    | "tune_batch i m s1 (wanted_batch i) \<le> min_max_batch i"
    using tune_batch_cases [of s1 i m "wanted_batch i"] s1 assms(2) unfolding assms(3) by blast
  then show ?thesis
  proof cases
    case 2
    then have "nat (tune_batch i m s1 (wanted_batch i)) * (nat s1 * unat w)
        \<le> nat (min_max_batch i) * (nat (cap_seq i (min_max_seq i)) * unat w)"
      using low by (intro mult_le_mono nat_mono) auto
    then show ?thesis using assms(4) s1(1) le_trans unfolding mult.assoc by blast
  qed (use s1 in simp)
qed

section \<open>Properties\<close>

text \<open>
  C16: The planned size is the product of the planned dimensions and the bytes per token, saturated instead of
  wrapped; the plan never grows past what was asked nor shrinks below the minima (the context length of the
  model permitting), a pinned dimension is kept, and with neither dimension pinned the plan fits the budget
  whenever the smallest allowed plan does and the size of one position does not saturate.
\<close>
theorem kv_plan_fits_budget:
  assumes "plan_input_ok i"
  shows "unat (planned_bytes (PlanKvCache i)) =
      min (2 ^ 64 - 1) (nat (plan_max_batch (PlanKvCache i)) * nat (plan_max_seq (PlanKvCache i)) * unat (bytes_per_token_per_sequence i)) \<and>
    min_max_batch i \<le> plan_max_batch (PlanKvCache i) \<and> plan_max_batch (PlanKvCache i) \<le> wanted_batch i \<and>
    cap_seq i (min_max_seq i) \<le> plan_max_seq (PlanKvCache i) \<and> plan_max_seq (PlanKvCache i) \<le> wanted_seq i \<and>
    (max_seq_overridden i \<longrightarrow> plan_max_seq (PlanKvCache i) = wanted_seq i) \<and>
    (max_batch_overridden i \<longrightarrow> plan_max_batch (PlanKvCache i) = wanted_batch i) \<and>
    (auto_tune_enabled i \<and> \<not> max_seq_overridden i \<and> \<not> max_batch_overridden i \<and> 0 < plan_budget i \<and>
     nat (min_max_batch i) * nat (cap_seq i (min_max_seq i)) * unat (bytes_per_token_per_sequence i) \<le> unat (plan_budget i) \<and>
     nat (wanted_batch i) * unat (bytes_per_token_per_sequence i) < 2 ^ 64 - 1 \<longrightarrow>
       planned_bytes (PlanKvCache i) \<le> budget_bytes (PlanKvCache i))"
proof -
  note wb = wanted_bounds [OF assms] and dims = PlanKvCache_dims [OF assms]
  let ?b = "plan_max_batch (PlanKvCache i)" and ?s = "plan_max_seq (PlanKvCache i)" and ?w = "bytes_per_token_per_sequence i"
  have exact: "unat (planned_bytes (PlanKvCache i)) = min (2 ^ 64 - 1) (nat ?b * nat ?s * unat ?w)"
    unfolding PlanKvCache_planned(1) using wb dims by (intro unat_EstimateKvCacheBytes) auto
  have pinned: "max_seq_overridden i \<longrightarrow> ?s = wanted_seq i" "max_batch_overridden i \<longrightarrow> ?b = wanted_batch i"
    by (cases "plan_as_asked i"; simp add: PlanKvCache_asked PlanKvCache_tuned)+
  have fits: "planned_bytes (PlanKvCache i) \<le> budget_bytes (PlanKvCache i)"
    if free: "auto_tune_enabled i" "\<not> max_seq_overridden i" "\<not> max_batch_overridden i" "0 < plan_budget i"
      "nat (min_max_batch i) * nat (cap_seq i (min_max_seq i)) * unat ?w \<le> unat (plan_budget i)" "nat (wanted_batch i) * unat ?w < 2 ^ 64 - 1"
  proof (cases "plan_as_asked i \<or> EstimateKvCacheBytes (wanted_batch i) ?s ?w \<le> plan_budget i")
    case True
    have "EstimateKvCacheBytes (wanted_batch i) ?s ?w \<le> plan_budget i \<and> ?b = wanted_batch i"
    proof (cases "plan_as_asked i")
      case asked: True
      then show ?thesis
        using PlanKvCache_asked [OF asked] free(1,4) by (auto simp: plan_as_asked_def EstimateKvCacheBytes_zero)
    next
      case tuned: False
      then have le: "EstimateKvCacheBytes (wanted_batch i) ?s ?w \<le> plan_budget i" using True by blast
      then have "?b = wanted_batch i" unfolding PlanKvCache_tuned(2) [OF tuned] by (simp only: not_le [symmetric] if_False simp_thms)
      then show ?thesis using le by blast
    qed
    then show ?thesis unfolding PlanKvCache_planned by simp
  next
    case False
    then have w: "0 < unat ?w" by (auto simp: plan_as_asked_def unat_gt_0)
    have s: "?s = tune_seq i (plan_budget i) (wanted_batch i) (wanted_seq i)" using False free by (simp add: PlanKvCache_tuned)
    have "nat (tune_batch i (plan_budget i) ?s (wanted_batch i)) * (nat ?s * unat ?w) \<le> unat (plan_budget i) \<and> 1 \<le> ?s"
      by (rule stages_fit [OF assms w refl free(5,6) s]) (use False in \<open>simp add: not_le\<close>)
    moreover have "?b = tune_batch i (plan_budget i) ?s (wanted_batch i)"
      using False free calculation PlanKvCache_tuned(2) [of i] by (simp add: not_le)
    ultimately show ?thesis
      using exact by (simp add: PlanKvCache_planned(2) word_le_nat_alt mult.assoc min.coboundedI2)
  qed
  show ?thesis using exact dims pinned fits by blast
qed

definition example_plan :: KvCachePlanInput where
  "example_plan = \<lparr>requested_max_batch = 64, requested_max_seq = 4096, min_max_batch = 8, min_max_seq = 128,
     model_max_position_embeddings = 2048, bytes_per_token_per_sequence = 1000, auto_tune_enabled = True,
     max_seq_overridden = False, max_batch_overridden = False, explicit_budget_bytes = 5000000, plan_free_bytes = 0, budget_ratio = 0\<rparr>"

theorem kv_plan_fits_budget_witness:
  "plan_input_ok example_plan \<and> planned_bytes (PlanKvCache example_plan) \<le> budget_bytes (PlanKvCache example_plan) \<and>
   plan_max_batch (PlanKvCache example_plan) = 39 \<and> plan_max_seq (PlanKvCache example_plan) = 128"
proof -
  have ok: "plan_input_ok example_plan" by (simp add: plan_input_ok_def example_plan_def wanted_batch_def)
  have "planned_bytes (PlanKvCache example_plan) \<le> budget_bytes (PlanKvCache example_plan)"
    using kv_plan_fits_budget [OF ok] by (simp add: example_plan_def plan_budget_def wanted_batch_def cap_seq_def)
  moreover have "plan_max_batch (PlanKvCache example_plan) = 39 \<and> plan_max_seq (PlanKvCache example_plan) = 128" by code_simp
  ultimately show ?thesis using ok by simp
qed

end
