(* ===== verification/Policy_Store.thy ===== *)
theory Policy_Store
  imports String_Utils
begin

section \<open>The policy store\<close>

text \<open>
  \<open>policy/policy_store.{h,cpp}\<close>: API keys by hash, the guardrail word list, the rate limit and the
  routing policy, saved as an INI text and loaded again. The file system is a function from
  paths to contents; which of its operations fail is an argument of \<open>Save\<close>. SHA-256 and
  AES-256-GCM are library code: the hash of a key and the cipher are arguments. A text and its
  bytes are one type, since the cipher works on the bytes of the text.
\<close>

record RoutingPolicyEntry =
  allow_default_fallback :: bool
  rp_require_ready_backend :: bool
  fallback_scope :: string

definition default_routing :: RoutingPolicyEntry where
  "default_routing = \<lparr>allow_default_fallback = True, rp_require_ready_backend = False, fallback_scope = ''any_compatible''\<rparr>"

record PolicyStore =
  ps_path :: string
  ps_api_keys :: "(string \<times> string list) list"
  ps_guardrail_blocklist :: "string list"
  ps_rate_limit :: int
  ps_routing :: "RoutingPolicyEntry option"
  ps_encryption_enabled :: bool

definition PolicyStore_init :: "string \<Rightarrow> string \<Rightarrow> PolicyStore" where
  "PolicyStore_init path passphrase =
     \<lparr>ps_path = path, ps_api_keys = [], ps_guardrail_blocklist = [], ps_rate_limit = 0, ps_routing = None,
      ps_encryption_enabled = (passphrase \<noteq> [])\<rparr>"

text \<open>\<open>std::getline\<close> until the end of the stream.\<close>

function getlines :: "char \<Rightarrow> string \<Rightarrow> string list" where
  "getlines d s =
     (if s = [] then [] else takeWhile (\<lambda>c. c \<noteq> d) s # getlines d (drop 1 (dropWhile (\<lambda>c. c \<noteq> d) s)))"
  by pat_completeness auto
termination
proof (relation "measure (\<lambda>(d, s). length s)")
  fix d :: char and s :: string
  assume "s \<noteq> []"
  then have "0 < length s" by simp
  then have "length (drop 1 (dropWhile (\<lambda>c. c \<noteq> d) s)) < length s"
    unfolding length_drop using length_dropWhile_le [of "\<lambda>c. c \<noteq> d" s] by linarith
  then show "((d, drop 1 (dropWhile (\<lambda>c. c \<noteq> d) s)), (d, s)) \<in> measure (\<lambda>(d, s). length s)" by simp
qed simp

declare getlines.simps [simp del]

definition SplitCSV :: "string \<Rightarrow> string list" where
  "SplitCSV line = filter (\<lambda>v. v \<noteq> []) (map Trim (getlines CHR '','' line))"

fun JoinCSV :: "string list \<Rightarrow> string" where
  "JoinCSV [] = []"
| "JoinCSV [v] = v"
| "JoinCSV (v # w # vs) = v @ '','' @ JoinCSV (w # vs)"

definition ParseBoolValue :: "string \<Rightarrow> bool option" where
  "ParseBoolValue v =
     (let lowered = ToLower v in
      if lowered = ''true'' \<or> lowered = ''1'' \<or> lowered = ''yes'' then Some True
      else if lowered = ''false'' \<or> lowered = ''0'' \<or> lowered = ''no'' then Some False
      else None)"

text \<open>\<open>std::stoi\<close>; \<open>None\<close> where it throws.\<close>

definition stoi :: "string \<Rightarrow> int option" where
  "stoi v =
     (case strtol10 v of
        None \<Rightarrow> None
      | Some (n, rest) \<Rightarrow> if n < - (2 ^ 31) \<or> n > 2 ^ 31 - 1 then None else Some n)"

subsection \<open>Loading\<close>

record parse_state =
  pp_section :: string
  pp_api_keys :: "(string \<times> string list) list"
  pp_guardrail :: "string list"
  pp_rate_limit :: int
  pp_routing :: RoutingPolicyEntry
  pp_has_routing :: bool

definition parse_init :: parse_state where
  "parse_init = \<lparr>pp_section = [], pp_api_keys = [], pp_guardrail = [], pp_rate_limit = 0,
     pp_routing = default_routing, pp_has_routing = False\<rparr>"

definition parse_entry :: "string \<Rightarrow> string \<Rightarrow> parse_state \<Rightarrow> parse_state" where
  "parse_entry key v st =
     (if pp_section st = ''api_keys'' then st\<lparr>pp_api_keys := AList.update key (SplitCSV v) (pp_api_keys st)\<rparr>
      else if pp_section st = ''guardrail'' \<and> key = ''words'' then st\<lparr>pp_guardrail := SplitCSV v\<rparr>
      else if pp_section st = ''rate_limit'' \<and> key = ''tokens''
      then st\<lparr>pp_rate_limit := (case stoi v of Some n \<Rightarrow> n | None \<Rightarrow> 0)\<rparr>
      else if pp_section st = ''routing'' \<and> key = ''allow_default_fallback''
      then (case ParseBoolValue v of
              Some b \<Rightarrow> st\<lparr>pp_routing := (pp_routing st)\<lparr>allow_default_fallback := b\<rparr>, pp_has_routing := True\<rparr>
            | None \<Rightarrow> st\<lparr>pp_has_routing := True\<rparr>)
      else if pp_section st = ''routing'' \<and> key = ''require_ready_backend''
      then (case ParseBoolValue v of
              Some b \<Rightarrow> st\<lparr>pp_routing := (pp_routing st)\<lparr>rp_require_ready_backend := b\<rparr>, pp_has_routing := True\<rparr>
            | None \<Rightarrow> st\<lparr>pp_has_routing := True\<rparr>)
      else if pp_section st = ''routing'' \<and> key = ''fallback_scope''
      then (if v \<noteq> [] then st\<lparr>pp_routing := (pp_routing st)\<lparr>fallback_scope := v\<rparr>, pp_has_routing := True\<rparr>
            else st\<lparr>pp_has_routing := True\<rparr>)
      else st)"

definition parse_line :: "string \<Rightarrow> parse_state \<Rightarrow> parse_state" where
  "parse_line raw st =
     (let line = Trim raw in
      if line = [] \<or> hd line = CHR ''#'' then st
      else if hd line = CHR ''['' \<and> last line = CHR '']''
      then st\<lparr>pp_section := take (length line - 2) (tl line)\<rparr>
      else if CHR ''='' \<notin> set line then st
      else parse_entry (Trim (takeWhile (\<lambda>c. c \<noteq> CHR ''='') line))
             (Trim (tl (dropWhile (\<lambda>c. c \<noteq> CHR ''='') line))) st)"

definition parse_policy :: "string \<Rightarrow> parse_state" where
  "parse_policy plaintext = fold parse_line (getlines (CHR 0x0A) plaintext) parse_init"

subsection \<open>Encryption\<close>

text \<open>
  The cipher: nonce, tag and data for a text, or \<open>None\<close> when a library call fails; and the text
  for nonce, tag and data, or \<open>None\<close> when authentication fails.
\<close>

record crypto =
  aes_encrypt :: "string \<Rightarrow> (string \<times> string \<times> string) option"
  aes_decrypt :: "string \<Rightarrow> string \<Rightarrow> string \<Rightarrow> string option"

definition hex_digit :: "nat \<Rightarrow> char" where
  "hex_digit n = ''0123456789abcdef'' ! n"

definition HexEncode :: "string \<Rightarrow> string" where
  "HexEncode bytes = concat (map (\<lambda>b. [hex_digit (of_char b div 16), hex_digit (of_char b mod 16)]) bytes)"

definition hex_value :: "char \<Rightarrow> int" where
  "hex_value c0 =
     (let c = (of_char (to_lower c0) :: nat) in
      if 48 \<le> c \<and> c \<le> 57 then int c - 48 else if 97 \<le> c \<and> c \<le> 102 then int c - 97 + 10 else -1)"

fun hex_decode_loop :: "string \<Rightarrow> string option" where
  "hex_decode_loop (h # l # rest) =
     (if hex_value h < 0 \<or> hex_value l < 0 then None
      else map_option ((#) (char_of (nat (16 * hex_value h + hex_value l)))) (hex_decode_loop rest))"
| "hex_decode_loop _ = Some []"

definition HexDecode :: "string \<Rightarrow> string" where
  "HexDecode hex = (if length hex mod 2 \<noteq> 0 then [] else case hex_decode_loop hex of None \<Rightarrow> [] | Some bs \<Rightarrow> bs)"

definition Encrypt :: "crypto \<Rightarrow> string \<Rightarrow> string option" where
  "Encrypt cr plaintext =
     (case aes_encrypt cr plaintext of
        None \<Rightarrow> None
      | Some (nonce, tag, data) \<Rightarrow>
          Some (''ENC'' @ [CHR 0x0A] @ ''nonce='' @ HexEncode nonce @ [CHR 0x0A] @ ''tag='' @ HexEncode tag @ [CHR 0x0A]
                @ ''data='' @ HexEncode data @ [CHR 0x0A]))"

definition parse_hex_line :: "string \<Rightarrow> string \<Rightarrow> string option" where
  "parse_hex_line expected line =
     (if CHR ''='' \<notin> set line then None
      else if Trim (takeWhile (\<lambda>c. c \<noteq> CHR ''='') line) \<noteq> expected then None
      else let out = HexDecode (Trim (tl (dropWhile (\<lambda>c. c \<noteq> CHR ''='') line))) in if out = [] then None else Some out)"

definition Decrypt :: "crypto \<Rightarrow> string \<Rightarrow> string option" where
  "Decrypt cr encrypted =
     (case getlines (CHR 0x0A) encrypted of
        header # l1 # l2 # l3 # _ \<Rightarrow>
          if Trim header \<noteq> ''ENC'' then None
          else (case (parse_hex_line ''nonce'' l1, parse_hex_line ''tag'' l2, parse_hex_line ''data'' l3) of
                  (Some nonce, Some tag, Some data) \<Rightarrow> aes_decrypt cr nonce tag data
                | _ \<Rightarrow> None)
      | _ \<Rightarrow> None)"

subsection \<open>Loading from the file, or from the backup\<close>

definition parse_from_path ::
  "crypto \<Rightarrow> (string \<Rightarrow> string option) \<Rightarrow> string \<Rightarrow> PolicyStore \<Rightarrow> PolicyStore option" where
  "parse_from_path cr fs source_path store =
     (case fs source_path of
        None \<Rightarrow> None
      | Some raw \<Rightarrow>
          (case (if prefix ''ENC'' raw
                 then (if \<not> ps_encryption_enabled store then None else Decrypt cr raw)
                 else Some raw) of
             None \<Rightarrow> None
           | Some plaintext \<Rightarrow>
               let st = parse_policy plaintext
               in Some (store\<lparr>ps_api_keys := pp_api_keys st, ps_guardrail_blocklist := pp_guardrail st,
                              ps_rate_limit := pp_rate_limit st,
                              ps_routing := (if pp_has_routing st then Some (pp_routing st) else None)\<rparr>)))"

definition policy_Load :: "crypto \<Rightarrow> (string \<Rightarrow> string option) \<Rightarrow> PolicyStore \<Rightarrow> PolicyStore \<times> bool" where
  "policy_Load cr fs store =
     (let cleared = store\<lparr>ps_api_keys := [], ps_guardrail_blocklist := [], ps_rate_limit := 0, ps_routing := None\<rparr>
      in case parse_from_path cr fs (ps_path store) cleared of
          Some loaded \<Rightarrow> (loaded, True)
        | None \<Rightarrow>
            (case parse_from_path cr fs (ps_path store @ ''.bak'') cleared of
               Some loaded \<Rightarrow> (loaded, True)
             | None \<Rightarrow> (cleared, False)))"

subsection \<open>Saving\<close>

definition bool_string :: "bool \<Rightarrow> string" where
  "bool_string b = (if b then ''true'' else ''false'')"

definition policy_lines :: "PolicyStore \<Rightarrow> string list" where
  "policy_lines store =
     [''[api_keys]''] @ map (\<lambda>(key, scopes). key @ ''='' @ JoinCSV scopes) (ps_api_keys store) @
     [[], ''[guardrail]'', ''words='' @ JoinCSV (ps_guardrail_blocklist store),
      [], ''[rate_limit]'', ''tokens='' @ int_to_string (ps_rate_limit store)] @
     (case ps_routing store of
        None \<Rightarrow> []
      | Some r \<Rightarrow> [[], ''[routing]'', ''allow_default_fallback='' @ bool_string (allow_default_fallback r),
                   ''require_ready_backend='' @ bool_string (rp_require_ready_backend r),
                   ''fallback_scope='' @ fallback_scope r])"

definition serialize_policy :: "PolicyStore \<Rightarrow> string" where
  "serialize_policy store = concat (map (\<lambda>line. line @ [CHR 0x0A]) (policy_lines store))"

text \<open>Which file operations fail: opening or writing the temporary file, the backup, the two renames, the removal.\<close>

record save_faults =
  open_fails :: bool
  write_fails :: bool
  copy_fails :: bool
  rename_fails :: bool
  remove_fails :: bool
  retry_fails :: bool

definition write_policy_file ::
  "save_faults \<Rightarrow> string \<Rightarrow> string \<Rightarrow> (string \<Rightarrow> string option) \<Rightarrow> (string \<Rightarrow> string option) \<times> bool" where
  "write_policy_file faults path serialized fs =
     (let temp = path @ ''.tmp''; backup = path @ ''.bak'' in
      if open_fails faults then (fs, False)
      else if write_fails faults then (fs(temp := None), False)
      else
        let fs1 = fs(temp \<mapsto> serialized);
            fs2 = (case fs1 path of
                     None \<Rightarrow> fs1
                   | Some old \<Rightarrow> if copy_fails faults then fs1 else fs1(backup \<mapsto> old))
        in if \<not> rename_fails faults then (fs2(path \<mapsto> serialized, temp := None), True)
           else
             let fs3 = (if remove_fails faults then fs2 else fs2(path := None))
             in if \<not> retry_fails faults then (fs3(path \<mapsto> serialized, temp := None), True)
                else (fs3(temp := None), False))"

definition policy_Save ::
  "crypto \<Rightarrow> save_faults \<Rightarrow> (string \<Rightarrow> string option) \<Rightarrow> PolicyStore \<Rightarrow> (string \<Rightarrow> string option) \<times> bool" where
  "policy_Save cr faults fs store =
     (let plaintext = serialize_policy store in
      case (if ps_encryption_enabled store then Encrypt cr plaintext else Some plaintext) of
        None \<Rightarrow> (fs, False)
      | Some serialized \<Rightarrow> write_policy_file faults (ps_path store) serialized fs)"

subsection \<open>Accessors\<close>

definition ApiKeys :: "PolicyStore \<Rightarrow> (string \<times> string list) list" where
  "ApiKeys store = ps_api_keys store"

definition SetApiKey :: "(string \<Rightarrow> string) \<Rightarrow> string \<Rightarrow> string list \<Rightarrow> PolicyStore \<Rightarrow> PolicyStore" where
  "SetApiKey HashKey key scopes store =
     store\<lparr>ps_api_keys := AList.update (HashKey key) scopes (ps_api_keys store)\<rparr>"

definition RemoveApiKey :: "(string \<Rightarrow> string) \<Rightarrow> string \<Rightarrow> PolicyStore \<Rightarrow> PolicyStore \<times> bool" where
  "RemoveApiKey HashKey key store =
     (store\<lparr>ps_api_keys := AList.delete (HashKey key) (ps_api_keys store)\<rparr>,
      map_of (ps_api_keys store) (HashKey key) \<noteq> None)"

definition SetGuardrailBlocklist :: "string list \<Rightarrow> PolicyStore \<Rightarrow> PolicyStore" where
  "SetGuardrailBlocklist blocklist store = store\<lparr>ps_guardrail_blocklist := blocklist\<rparr>"

definition SetRateLimitPerMinute :: "int \<Rightarrow> PolicyStore \<Rightarrow> PolicyStore" where
  "SetRateLimitPerMinute limit store = store\<lparr>ps_rate_limit := limit\<rparr>"

definition SetRoutingPolicy :: "RoutingPolicyEntry \<Rightarrow> PolicyStore \<Rightarrow> PolicyStore" where
  "SetRoutingPolicy policy store = store\<lparr>ps_routing := Some policy\<rparr>"

definition ClearRoutingPolicy :: "PolicyStore \<Rightarrow> PolicyStore" where
  "ClearRoutingPolicy store = store\<lparr>ps_routing := None\<rparr>"

subsection \<open>Loading what was saved\<close>

text \<open>
  The texts the format can represent: no separator inside, no white space at the ends, and
  for a key no character that starts a comment or a section.
\<close>

definition no_margin :: "string \<Rightarrow> bool" where
  "no_margin s \<longleftrightarrow> s \<noteq> [] \<and> \<not> trim_char (hd s) \<and> \<not> trim_char (last s)"

definition csv_safe :: "string \<Rightarrow> bool" where
  "csv_safe v \<longleftrightarrow> no_margin v \<and> CHR '','' \<notin> set v \<and> CHR 0x0A \<notin> set v"

definition key_safe :: "string \<Rightarrow> bool" where
  "key_safe k \<longleftrightarrow> no_margin k \<and> CHR ''='' \<notin> set k \<and> CHR 0x0A \<notin> set k \<and> hd k \<noteq> CHR ''#'' \<and> hd k \<noteq> CHR ''[''"

definition policy_safe :: "PolicyStore \<Rightarrow> bool" where
  "policy_safe store \<longleftrightarrow>
     distinct (map fst (ps_api_keys store)) \<and>
     list_all (\<lambda>(k, scopes). key_safe k \<and> list_all csv_safe scopes) (ps_api_keys store) \<and>
     list_all csv_safe (ps_guardrail_blocklist store) \<and>
     - (2 ^ 31) \<le> ps_rate_limit store \<and> ps_rate_limit store < 2 ^ 31 \<and>
     (case ps_routing store of None \<Rightarrow> True
      | Some r \<Rightarrow> no_margin (fallback_scope r) \<and> CHR 0x0A \<notin> set (fallback_scope r))"

lemma dropWhile_hd: "xs \<noteq> [] \<Longrightarrow> \<not> P (hd xs) \<Longrightarrow> dropWhile P xs = xs"
  by (cases xs) auto

lemma Trim_no_margin [simp]: "no_margin s \<Longrightarrow> Trim s = s"
  by (auto simp: no_margin_def Trim_def dropWhile_hd hd_rev)

lemma Trim_Nil [simp]: "Trim [] = []"
  by (simp add: Trim_def)

lemma getlines_Nil [simp]: "getlines d [] = []"
  by (simp add: getlines.simps)

lemma getlines_line: "d \<notin> set line \<Longrightarrow> getlines d (line @ d # rest) = line # getlines d rest"
  by (subst getlines.simps) (auto simp: takeWhile_append dropWhile_append)

lemma getlines_last: "d \<notin> set line \<Longrightarrow> line \<noteq> [] \<Longrightarrow> getlines d line = [line]"
proof -
  assume line: "d \<notin> set line" "line \<noteq> []"
  then have cut: "dropWhile (\<lambda>c. c \<noteq> d) line = []" "takeWhile (\<lambda>c. c \<noteq> d) line = line"
    by (auto simp: dropWhile_eq_Nil_conv takeWhile_eq_all_conv)
  have "getlines d line = takeWhile (\<lambda>c. c \<noteq> d) line # getlines d (drop 1 (dropWhile (\<lambda>c. c \<noteq> d) line))"
    using line(2) by (simp only: getlines.simps [of d line] if_False)
  then show ?thesis unfolding cut by simp
qed

lemma getlines_concat:
  "list_all (\<lambda>line. d \<notin> set line) ls \<Longrightarrow> getlines d (concat (map (\<lambda>line. line @ [d]) ls)) = ls"
  by (induction ls) (simp_all add: getlines_line)

lemma SplitCSV_Join: "list_all csv_safe vs \<Longrightarrow> SplitCSV (JoinCSV vs) = vs"
proof (induction vs rule: JoinCSV.induct)
  case (2 v)
  then show ?case by (auto simp: SplitCSV_def getlines_last csv_safe_def no_margin_def)
next
  case (3 v w vs)
  then have "CHR '','' \<notin> set v" by (simp add: csv_safe_def)
  then have "getlines (CHR '','') (JoinCSV (v # w # vs)) = v # getlines (CHR '','') (JoinCSV (w # vs))"
    by (simp add: getlines_line)
  then show ?case using 3 by (auto simp: SplitCSV_def csv_safe_def no_margin_def)
qed (simp add: SplitCSV_def)

lemma JoinCSV_empty: "list_all csv_safe vs \<Longrightarrow> JoinCSV vs = [] \<longleftrightarrow> vs = []"
  by (induction vs rule: JoinCSV.induct) (auto simp: csv_safe_def no_margin_def)

lemma JoinCSV_margin: "list_all csv_safe vs \<Longrightarrow> vs \<noteq> [] \<Longrightarrow> no_margin (JoinCSV vs)"
proof (induction vs rule: JoinCSV.induct)
  case (3 v w vs)
  then have "no_margin (JoinCSV (w # vs))" "no_margin v" by (auto simp: csv_safe_def)
  then show ?case by (auto simp: no_margin_def)
qed (auto simp: csv_safe_def)

lemma JoinCSV_newline: "list_all csv_safe vs \<Longrightarrow> CHR 0x0A \<notin> set (JoinCSV vs)"
  by (induction vs rule: JoinCSV.induct) (auto simp: csv_safe_def)

text \<open>A line of key and value is parsed into them.\<close>

lemma parse_line_entry:
  assumes "key_safe k" "v = [] \<or> no_margin v"
  shows "parse_line (k @ ''='' @ v) st = parse_entry k v st"
proof -
  have k: "k \<noteq> []" "\<not> trim_char (hd k)" "CHR ''='' \<notin> set k" "hd k \<noteq> CHR ''#''" "hd k \<noteq> CHR ''[''" "no_margin k"
    using assms(1) by (auto simp: key_safe_def no_margin_def)
  have "\<not> trim_char (CHR ''='')" by code_simp
  then have line: "no_margin (k @ ''='' @ v)" using k assms(2) by (auto simp: no_margin_def)
  have "takeWhile (\<lambda>c. c \<noteq> CHR ''='') (k @ ''='' @ v) = k" using k(3) by (induction k) auto
  moreover have "dropWhile (\<lambda>c. c \<noteq> CHR ''='') (k @ ''='' @ v) = ''='' @ v" using k(3) by (induction k) auto
  moreover have "Trim v = v" using assms(2) by auto
  ultimately show ?thesis using line k by (simp add: parse_line_def Let_def)
qed

lemma parse_line_section:
  assumes "no_margin name" "CHR ''['' \<notin> set name"
  shows "parse_line (''['' @ name @ '']'') st = st\<lparr>pp_section := name\<rparr>"
proof -
  have "\<not> trim_char (CHR ''['')" "\<not> trim_char (CHR '']'')" by code_simp+
  then have "no_margin (''['' @ name @ '']'')" by (simp add: no_margin_def)
  then show ?thesis by (simp add: parse_line_def Let_def)
qed

lemma parse_line_empty [simp]: "parse_line [] st = st"
  by (simp add: parse_line_def)

subsection \<open>Numbers\<close>

lemma digit_chars: "ch \<in> set ''0123456789'' \<Longrightarrow> is_digit ch \<and> \<not> is_space ch \<and> ch \<noteq> CHR ''-'' \<and> ch \<noteq> CHR ''+'' \<and> \<not> trim_char ch \<and> ch \<noteq> CHR 0x0A"
  by (auto simp: is_digit_def is_space_def trim_char_def)

lemmas nat_string_chars = digit_chars [OF nat_to_string_digits]

lemma digits_value_nat:
  "list_all is_digit ds \<Longrightarrow> digits_value ds = int (string_to_nat ds)"
proof -
  have "list_all is_digit ds \<Longrightarrow> foldl (\<lambda>n c. 10 * n + (int (of_char c) - 48)) (int a) ds
        = int (foldl (\<lambda>n c. 10 * n + (of_char c - 48)) a ds)" for a
  proof (induction ds arbitrary: a)
    case (Cons c ds)
    have step: "10 * int a + (int k - 48) = int (10 * a + (k - 48))" if "48 \<le> k" for k :: nat
      using that by simp
    have "48 \<le> (of_char c :: nat)" using Cons.prems by (simp add: is_digit_def)
    from step [OF this] Cons show ?case by (simp only: foldl_Cons list.pred_inject)
  qed simp
  from this [of 0] show "list_all is_digit ds \<Longrightarrow> ?thesis"
    by (simp add: digits_value_def string_to_nat_def)
qed

lemma strtol10_nat:
  assumes "int n < 2 ^ 63"
  shows "strtol10 (nat_to_string n) = Some (int n, [])" "strtol10 (CHR ''-'' # nat_to_string n) = Some (- int n, [])"
proof -
  let ?s = "nat_to_string n"
  obtain c cs where s: "?s = c # cs" by (cases ?s) auto
  have c: "is_digit c" "\<not> is_space c" "c \<noteq> CHR ''-''" "c \<noteq> CHR ''+''" using nat_string_chars [of c n] s by auto
  have digs: "takeWhile is_digit ?s = ?s" "dropWhile is_digit ?s = []"
    using nat_string_chars by (auto simp: takeWhile_eq_all_conv dropWhile_eq_Nil_conv)
  have val: "digits_value ?s = int n"
    using digits_value_nat [of ?s] nat_string_chars by (auto simp: list_all_iff)
  have sat: "saturate_long (int n) = int n" "saturate_long (- int n) = - int n"
    using assms by (simp_all add: saturate_long_def)
  have "strtol10 ?s = Some (saturate_long (digits_value (takeWhile is_digit ?s)), dropWhile is_digit ?s)"
    using c s by (simp add: strtol10_def Let_def)
  then show "strtol10 ?s = Some (int n, [])" unfolding digs val sat .
  have "\<not> is_space (CHR ''-'')" by code_simp
  then have "strtol10 (CHR ''-'' # ?s) = Some (saturate_long (- digits_value (takeWhile is_digit ?s)), dropWhile is_digit ?s)"
    using c s by (simp add: strtol10_def Let_def)
  then show "strtol10 (CHR ''-'' # ?s) = Some (- int n, [])" unfolding digs val sat .
qed

lemma stoi_int_to_string:
  assumes "- (2 ^ 31) \<le> n" "n < 2 ^ 31"
  shows "stoi (int_to_string n) = Some n"
proof (cases "n < 0")
  case True
  then show ?thesis using assms strtol10_nat(2) [of "nat (- n)"] by (simp add: stoi_def int_to_string_def)
next
  case False
  then show ?thesis using assms strtol10_nat(1) [of "nat n"] by (simp add: stoi_def int_to_string_def)
qed

lemma int_to_string_margin: "no_margin (int_to_string n)" "CHR 0x0A \<notin> set (int_to_string n)"
proof -
  have last: "\<not> trim_char (last (nat_to_string k))" "\<not> trim_char (hd (nat_to_string k))" for k
    using nat_string_chars [of "last (nat_to_string k)" k] nat_string_chars [of "hd (nat_to_string k)" k] by auto
  have "\<not> trim_char (CHR ''-'')" by code_simp
  then show "no_margin (int_to_string n)" using last by (simp add: no_margin_def int_to_string_def)
  show "CHR 0x0A \<notin> set (int_to_string n)" using nat_string_chars by (auto simp: int_to_string_def)
qed

subsection \<open>The round trip\<close>

lemma update_append: "k \<notin> fst ` set es \<Longrightarrow> AList.update k v es = es @ [(k, v)]"
  by (induction es) auto

lemma parse_api_keys:
  assumes "pp_section st = ''api_keys''" "list_all (\<lambda>(k, scopes). key_safe k \<and> list_all csv_safe scopes) ks"
    "distinct (map fst (pp_api_keys st @ ks))"
  shows "fold parse_line (map (\<lambda>(key, scopes). key @ ''='' @ JoinCSV scopes) ks) st = st\<lparr>pp_api_keys := pp_api_keys st @ ks\<rparr>"
  using assms
proof (induction ks arbitrary: st)
  case (Cons e ks)
  obtain k scopes where e: "e = (k, scopes)" by fastforce
  have safe: "key_safe k" "list_all csv_safe scopes" using Cons.prems(2) e by auto
  have "JoinCSV scopes = [] \<or> no_margin (JoinCSV scopes)"
    using JoinCSV_margin [OF safe(2)] by (cases "scopes = []") auto
  then have "parse_line (k @ ''='' @ JoinCSV scopes) st = st\<lparr>pp_api_keys := pp_api_keys st @ [(k, scopes)]\<rparr>"
    using parse_line_entry [OF safe(1)] Cons.prems(1,3) e
    by (simp add: parse_entry_def SplitCSV_Join [OF safe(2)] update_append)
  then show ?case
    using Cons.IH [of "st\<lparr>pp_api_keys := pp_api_keys st @ [(k, scopes)]\<rparr>"] Cons.prems e by auto
qed simp

lemma known_keys_safe:
  "key_safe ''words''" "key_safe ''tokens''" "key_safe ''allow_default_fallback''" "key_safe ''require_ready_backend''"
  "key_safe ''fallback_scope''"
  by code_simp+

lemma parse_known_sections:
  "parse_line ''[api_keys]'' st = st\<lparr>pp_section := ''api_keys''\<rparr>"
  "parse_line ''[guardrail]'' st = st\<lparr>pp_section := ''guardrail''\<rparr>"
  "parse_line ''[rate_limit]'' st = st\<lparr>pp_section := ''rate_limit''\<rparr>"
  "parse_line ''[routing]'' st = st\<lparr>pp_section := ''routing''\<rparr>"
proof -
  have "no_margin ''api_keys''" "no_margin ''guardrail''" "no_margin ''rate_limit''" "no_margin ''routing''" by code_simp+
  then show "parse_line ''[api_keys]'' st = st\<lparr>pp_section := ''api_keys''\<rparr>"
    "parse_line ''[guardrail]'' st = st\<lparr>pp_section := ''guardrail''\<rparr>"
    "parse_line ''[rate_limit]'' st = st\<lparr>pp_section := ''rate_limit''\<rparr>"
    "parse_line ''[routing]'' st = st\<lparr>pp_section := ''routing''\<rparr>"
    using parse_line_section [of "''api_keys''" st] parse_line_section [of "''guardrail''" st]
      parse_line_section [of "''rate_limit''" st] parse_line_section [of "''routing''" st] by simp_all
qed

lemma parse_words:
  assumes "pp_section st = ''guardrail''" "list_all csv_safe ws"
  shows "parse_line (''words='' @ JoinCSV ws) st = st\<lparr>pp_guardrail := ws\<rparr>"
proof -
  have "JoinCSV ws = [] \<or> no_margin (JoinCSV ws)" using JoinCSV_margin [OF assms(2)] by (cases "ws = []") auto
  then show ?thesis
    using parse_line_entry [OF known_keys_safe(1), of "JoinCSV ws" st] assms by (simp add: parse_entry_def SplitCSV_Join)
qed

lemma parse_tokens:
  assumes "pp_section st = ''rate_limit''" "- (2 ^ 31) \<le> n" "n < 2 ^ 31"
  shows "parse_line (''tokens='' @ int_to_string n) st = st\<lparr>pp_rate_limit := n\<rparr>"
  using parse_line_entry [OF known_keys_safe(2), of "int_to_string n" st] int_to_string_margin(1) [of n]
    stoi_int_to_string [OF assms(2,3)] assms(1) by (simp add: parse_entry_def)

lemma bool_string_parse: "no_margin (bool_string b)" "ParseBoolValue (bool_string b) = Some b"
proof -
  have "no_margin ''true''" "no_margin ''false''" "ParseBoolValue ''true'' = Some True" "ParseBoolValue ''false'' = Some False"
    by code_simp+
  then show "no_margin (bool_string b)" "ParseBoolValue (bool_string b) = Some b" by (simp_all add: bool_string_def)
qed

lemma parse_routing:
  assumes "pp_section st = ''routing''" "no_margin (fallback_scope r)"
  shows "parse_line (''fallback_scope='' @ fallback_scope r)
          (parse_line (''require_ready_backend='' @ bool_string (rp_require_ready_backend r))
            (parse_line (''allow_default_fallback='' @ bool_string (allow_default_fallback r)) st))
         = st\<lparr>pp_routing := r, pp_has_routing := True\<rparr>"
proof -
  have ne: "fallback_scope r \<noteq> []" using assms(2) by (simp add: no_margin_def)
  note b = bool_string_parse
  have 1: "parse_line (''allow_default_fallback='' @ bool_string x) s
      = s\<lparr>pp_routing := (pp_routing s)\<lparr>allow_default_fallback := x\<rparr>, pp_has_routing := True\<rparr>"
    if "pp_section s = ''routing''" for x s
    using parse_line_entry [OF known_keys_safe(3), of "bool_string x" s] b [of x] that by (simp add: parse_entry_def)
  have 2: "parse_line (''require_ready_backend='' @ bool_string x) s
      = s\<lparr>pp_routing := (pp_routing s)\<lparr>rp_require_ready_backend := x\<rparr>, pp_has_routing := True\<rparr>"
    if "pp_section s = ''routing''" for x s
    using parse_line_entry [OF known_keys_safe(4), of "bool_string x" s] b [of x] that by (simp add: parse_entry_def)
  have 3: "parse_line (''fallback_scope='' @ fallback_scope r) s
      = s\<lparr>pp_routing := (pp_routing s)\<lparr>fallback_scope := fallback_scope r\<rparr>, pp_has_routing := True\<rparr>"
    if "pp_section s = ''routing''" for s
    using parse_line_entry [OF known_keys_safe(5), of "fallback_scope r" s] assms(2) ne that by (simp add: parse_entry_def)
  show ?thesis using assms(1) by (simp add: 1 2 3 del: append_Cons)
qed

lemma policy_lines_no_newline:
  assumes "policy_safe store"
  shows "list_all (\<lambda>line. CHR 0x0A \<notin> set line) (policy_lines store)"
proof -
  have keys: "list_all (\<lambda>line. CHR 0x0A \<notin> set line) (map (\<lambda>(key, scopes). key @ ''='' @ JoinCSV scopes) (ps_api_keys store))"
    using assms JoinCSV_newline by (fastforce simp: policy_safe_def list_all_iff key_safe_def)
  have "CHR 0x0A \<notin> set (JoinCSV (ps_guardrail_blocklist store))" "CHR 0x0A \<notin> set (bool_string b)" for b
    using assms JoinCSV_newline by (auto simp: policy_safe_def bool_string_def)
  then show ?thesis
    using assms keys int_to_string_margin(2)
    by (cases "ps_routing store") (simp_all add: policy_safe_def policy_lines_def)
qed

lemma parse_serialized:
  assumes safe: "policy_safe store"
  shows "pp_api_keys (parse_policy (serialize_policy store)) = ps_api_keys store \<and>
         pp_guardrail (parse_policy (serialize_policy store)) = ps_guardrail_blocklist store \<and>
         pp_rate_limit (parse_policy (serialize_policy store)) = ps_rate_limit store \<and>
         (if pp_has_routing (parse_policy (serialize_policy store))
          then Some (pp_routing (parse_policy (serialize_policy store))) else None) = ps_routing store"
proof -
  have "parse_policy (serialize_policy store) = fold parse_line (policy_lines store) parse_init"
    unfolding parse_policy_def serialize_policy_def getlines_concat [OF policy_lines_no_newline [OF safe]] ..
  moreover have "fold parse_line (map (\<lambda>(key, scopes). key @ ''='' @ JoinCSV scopes) (ps_api_keys store))
      (parse_init\<lparr>pp_section := ''api_keys''\<rparr>) = parse_init\<lparr>pp_section := ''api_keys'', pp_api_keys := ps_api_keys store\<rparr>"
    using parse_api_keys [of "parse_init\<lparr>pp_section := ''api_keys''\<rparr>" "ps_api_keys store"] safe
    by (simp add: policy_safe_def parse_init_def)
  ultimately have "parse_policy (serialize_policy store) =
      (case ps_routing store of
         None \<Rightarrow> parse_init\<lparr>pp_section := ''rate_limit'', pp_api_keys := ps_api_keys store,
                   pp_guardrail := ps_guardrail_blocklist store, pp_rate_limit := ps_rate_limit store\<rparr>
       | Some r \<Rightarrow> parse_init\<lparr>pp_section := ''routing'', pp_api_keys := ps_api_keys store,
                   pp_guardrail := ps_guardrail_blocklist store, pp_rate_limit := ps_rate_limit store,
                   pp_routing := r, pp_has_routing := True\<rparr>)"
    using safe
    by (cases "ps_routing store")
       (simp_all add: policy_lines_def parse_known_sections parse_words [unfolded append_Cons append_Nil]
          parse_tokens [unfolded append_Cons append_Nil] parse_routing [unfolded append_Cons append_Nil] policy_safe_def)
  then show ?thesis by (simp add: parse_init_def split: option.split)
qed

subsection \<open>The encrypted frame\<close>

lemma hex_digit_facts:
  assumes "n < 16"
  shows "hex_value (hex_digit n) = int n" "\<not> trim_char (hex_digit n)" "hex_digit n \<noteq> CHR 0x0A" "hex_digit n \<noteq> CHR ''=''"
proof -
  have all: "list_all (\<lambda>n. hex_value (hex_digit n) = int n \<and> \<not> trim_char (hex_digit n) \<and>
               hex_digit n \<noteq> CHR 0x0A \<and> hex_digit n \<noteq> CHR ''='') [0, 1, 2, 3, 4, 5, 6, 7, 8, 9, 10, 11, 12, 13, 14, 15]"
    by (simp add: hex_digit_def hex_value_def to_lower_def is_upper_def trim_char_def)
  have upt: "[0..<16] = [0, 1, 2, 3, 4, 5, 6, 7, 8, 9, 10, 11, 12, 13, 14, 15 :: nat]" by (simp add: upt_rec)
  have "n \<in> set [0, 1, 2, 3, 4, 5, 6, 7, 8, 9, 10, 11, 12, 13, 14, 15]" unfolding upt [symmetric] using assms by simp
  from all [unfolded list_all_iff, rule_format, OF this]
  show "hex_value (hex_digit n) = int n" "\<not> trim_char (hex_digit n)" "hex_digit n \<noteq> CHR 0x0A" "hex_digit n \<noteq> CHR ''=''"
    by blast+
qed

lemma byte_nibbles: "(of_char b :: nat) div 16 < 16" "(of_char b :: nat) mod 16 < 16"
proof -
  have "(of_char b :: nat) < 256" by simp
  then show "(of_char b :: nat) div 16 < 16" "(of_char b :: nat) mod 16 < 16" by linarith simp
qed

lemma HexEncode_simps [simp]:
  "HexEncode [] = []"
  "HexEncode (b # bs) = hex_digit (of_char b div 16) # hex_digit (of_char b mod 16) # HexEncode bs"
  by (simp_all add: HexEncode_def)

lemma hex_decode_encode: "hex_decode_loop (HexEncode bs) = Some bs \<and> even (length (HexEncode bs))"
proof (induction bs)
  case (Cons b bs)
  let ?n = "of_char b :: nat"
  have nib: "hex_value (hex_digit (?n div 16)) = int (?n div 16)" "hex_value (hex_digit (?n mod 16)) = int (?n mod 16)"
    using hex_digit_facts(1) byte_nibbles by blast+
  have "16 * int (k div 16) + int (k mod 16) = int k" for k :: nat
    by (metis mult_div_mod_eq of_nat_add of_nat_mult of_nat_numeral)
  then have "char_of (nat (16 * int (?n div 16) + int (?n mod 16))) = b" by simp
  then show ?case using Cons by (simp add: nib del: of_nat_div of_nat_mod)
qed simp

lemma HexDecode_HexEncode [simp]: "HexDecode (HexEncode bs) = bs"
  using hex_decode_encode [of bs] by (simp add: HexDecode_def even_iff_mod_2_eq_zero)

lemma HexEncode_chars: "c \<in> set (HexEncode bs) \<Longrightarrow> \<not> trim_char c \<and> c \<noteq> CHR 0x0A \<and> c \<noteq> CHR ''=''"
proof (induction bs)
  case (Cons b bs)
  then show ?case using hex_digit_facts(2-4) [OF byte_nibbles(1)] hex_digit_facts(2-4) [OF byte_nibbles(2)] by auto
qed simp

lemma HexEncode_margin: "bs \<noteq> [] \<Longrightarrow> no_margin (HexEncode bs)"
  using HexEncode_chars [of "hd (HexEncode bs)" bs] HexEncode_chars [of "last (HexEncode bs)" bs]
  by (cases bs) (auto simp: no_margin_def)

lemma parse_hex_line_frame:
  assumes "no_margin k" "CHR ''='' \<notin> set k" "bs \<noteq> []"
  shows "parse_hex_line k (k @ ''='' @ HexEncode bs) = Some bs"
proof -
  have "takeWhile (\<lambda>c. c \<noteq> CHR ''='') (k @ ''='' @ HexEncode bs) = k" using assms(2) by (induction k) auto
  moreover have "dropWhile (\<lambda>c. c \<noteq> CHR ''='') (k @ ''='' @ HexEncode bs) = ''='' @ HexEncode bs" using assms(2) by (induction k) auto
  ultimately show ?thesis using assms HexEncode_margin [OF assms(3)] by (simp add: parse_hex_line_def)
qed

text \<open>What the store relies on of the cipher: it decrypts what it encrypted, and its outputs are not empty.\<close>

definition cipher_ok :: "crypto \<Rightarrow> bool" where
  "cipher_ok cr \<longleftrightarrow>
     (\<forall>p nonce tag data. aes_encrypt cr p = Some (nonce, tag, data) \<longrightarrow>
        nonce \<noteq> [] \<and> tag \<noteq> [] \<and> (p \<noteq> [] \<longrightarrow> data \<noteq> []) \<and> aes_decrypt cr nonce tag data = Some p)"

lemma Decrypt_Encrypt:
  assumes "cipher_ok cr" "Encrypt cr p = Some c" "p \<noteq> []"
  shows "prefix ''ENC'' c \<and> Decrypt cr c = Some p"
proof -
  obtain nonce tag data where e: "aes_encrypt cr p = Some (nonce, tag, data)"
    and c: "c = concat (map (\<lambda>line. line @ [CHR 0x0A])
        [''ENC'', ''nonce='' @ HexEncode nonce, ''tag='' @ HexEncode tag, ''data='' @ HexEncode data])"
    using assms(2) by (auto simp: Encrypt_def split: option.splits)
  have ok: "nonce \<noteq> []" "tag \<noteq> []" "data \<noteq> []" "aes_decrypt cr nonce tag data = Some p"
    using assms e by (auto simp: cipher_ok_def)
  have names: "no_margin ''nonce''" "no_margin ''tag''" "no_margin ''data''" "no_margin ''ENC''" by code_simp+
  have "CHR 0x0A \<notin> set (HexEncode bs)" for bs using HexEncode_chars by blast
  then have "getlines (CHR 0x0A) c = [''ENC'', ''nonce='' @ HexEncode nonce, ''tag='' @ HexEncode tag, ''data='' @ HexEncode data]"
    unfolding c by (intro getlines_concat) simp
  moreover have "parse_hex_line ''nonce'' (''nonce='' @ HexEncode nonce) = Some nonce"
    "parse_hex_line ''tag'' (''tag='' @ HexEncode tag) = Some tag"
    "parse_hex_line ''data'' (''data='' @ HexEncode data) = Some data"
    using parse_hex_line_frame [OF names(1), of nonce] parse_hex_line_frame [OF names(2), of tag]
      parse_hex_line_frame [OF names(3), of data] ok by simp_all
  ultimately have "Decrypt cr c = Some p" using names(4) ok(4) by (simp add: Decrypt_def)
  then show ?thesis using c by simp
qed

subsection \<open>Files\<close>

definition policy_contents :: "PolicyStore \<Rightarrow> (string \<times> string list) list \<times> string list \<times> int \<times> RoutingPolicyEntry option" where
  "policy_contents store = (ps_api_keys store, ps_guardrail_blocklist store, ps_rate_limit store, ps_routing store)"

lemma serialize_plain: "serialize_policy store \<noteq> []" "\<not> prefix ''ENC'' (serialize_policy store)"
  by (simp_all add: serialize_policy_def policy_lines_def)

lemma write_policy_file_success:
  "write_policy_file faults path serialized fs = (fs', True) \<Longrightarrow> fs' path = Some serialized"
  by (auto simp: write_policy_file_def Let_def split: if_splits option.splits)

lemma write_policy_file_failure:
  assumes "write_policy_file faults path serialized fs = (fs', False)" "\<not> copy_fails faults" "fs path = Some raw"
  shows "fs' path = Some raw \<or> fs' path = None \<and> fs' (path @ ''.bak'') = Some raw"
  using assms by (auto simp: write_policy_file_def Let_def split: if_splits)

lemma parse_from_path_saved:
  assumes "policy_safe store" "cipher_ok cr"
    "(if ps_encryption_enabled store then Encrypt cr (serialize_policy store) else Some (serialize_policy store)) = Some serialized"
    "fs path = Some serialized" "ps_encryption_enabled s0 = ps_encryption_enabled store"
  shows "\<exists>loaded. parse_from_path cr fs path s0 = Some loaded \<and> policy_contents loaded = policy_contents store"
proof -
  have "(if prefix ''ENC'' serialized then (if \<not> ps_encryption_enabled s0 then None else Decrypt cr serialized) else Some serialized)
        = Some (serialize_policy store)"
    using assms Decrypt_Encrypt [OF assms(2), of "serialize_policy store"] serialize_plain [of store]
    by (cases "ps_encryption_enabled store") auto
  then show ?thesis
    using parse_serialized [OF assms(1)] assms(4) by (simp add: parse_from_path_def Let_def policy_contents_def)
qed

lemma parse_from_path_missing: "fs p = None \<Longrightarrow> parse_from_path cr fs p s = None"
  by (simp add: parse_from_path_def)

lemma parse_from_path_raw: "fs p = fs' p' \<Longrightarrow> parse_from_path cr fs p s = parse_from_path cr fs' p' s"
  by (simp add: parse_from_path_def)

text \<open>
  C10: A saved policy is loaded back. If \<open>Save\<close> reports success, \<open>Load\<close> returns the keys, the word
  list, the rate limit and the routing policy that were saved, encrypted or not. If \<open>Save\<close> reports
  failure, whatever file operations failed apart from the backup copy, a policy file that could be
  loaded before is still loaded, from the file or from its backup. The texts are those the INI
  format can represent.
\<close>
theorem policy_save_load:
  assumes "policy_safe store" "cipher_ok cr" "policy_Save cr faults fs store = (fs', ok)"
    "ps_path s0 = ps_path store" "ps_encryption_enabled s0 = ps_encryption_enabled store"
  shows "if ok then snd (policy_Load cr fs' s0) \<and> policy_contents (fst (policy_Load cr fs' s0)) = policy_contents store
         else \<not> copy_fails faults \<and> (\<exists>raw. fs (ps_path store) = Some raw) \<and>
                parse_from_path cr fs (ps_path s0) (s0\<lparr>ps_api_keys := [], ps_guardrail_blocklist := [], ps_rate_limit := 0, ps_routing := None\<rparr>) \<noteq> None
              \<longrightarrow> policy_Load cr fs' s0 = policy_Load cr fs s0"
proof -
  let ?s = "s0\<lparr>ps_api_keys := [], ps_guardrail_blocklist := [], ps_rate_limit := 0, ps_routing := None\<rparr>"
  let ?enc = "if ps_encryption_enabled store then Encrypt cr (serialize_policy store) else Some (serialize_policy store)"
  show ?thesis
  proof (cases ok)
    case True
    then obtain serialized where s: "?enc = Some serialized" "write_policy_file faults (ps_path store) serialized fs = (fs', True)"
      using assms(3) by (auto simp: policy_Save_def Let_def split: option.splits)
    then have "\<exists>loaded. parse_from_path cr fs' (ps_path s0) ?s = Some loaded \<and> policy_contents loaded = policy_contents store"
      using parse_from_path_saved [OF assms(1,2) s(1), of fs' "ps_path s0" ?s] write_policy_file_success [OF s(2)] assms(4,5)
      by simp
    then show ?thesis using True by (auto simp: policy_Load_def Let_def)
  next
    case False
    have "policy_Load cr fs' s0 = policy_Load cr fs s0"
      if prem: "\<not> copy_fails faults" "fs (ps_path store) = Some raw" "parse_from_path cr fs (ps_path s0) ?s = Some loaded" for raw loaded
    proof (cases ?enc)
      case None
      then show ?thesis using assms(3) by (auto simp: policy_Save_def Let_def)
    next
      case (Some serialized)
      then have "write_policy_file faults (ps_path store) serialized fs = (fs', False)"
        using assms(3) False by (auto simp: policy_Save_def Let_def)
      from write_policy_file_failure [OF this prem(1,2)]
      have "parse_from_path cr fs' (ps_path s0) ?s = Some loaded \<or>
            parse_from_path cr fs' (ps_path s0) ?s = None \<and> parse_from_path cr fs' (ps_path s0 @ ''.bak'') ?s = Some loaded"
        using prem(2,3) assms(4) parse_from_path_raw [of fs "ps_path s0" fs' "ps_path s0" cr ?s]
          parse_from_path_raw [of fs "ps_path s0" fs' "ps_path s0 @ ''.bak''" cr ?s]
          parse_from_path_missing [of fs' "ps_path s0" cr ?s]
        by auto
      then show ?thesis using prem(3) by (auto simp: policy_Load_def Let_def)
    qed
    then show ?thesis using False by auto
  qed
qed

definition example_store :: PolicyStore where
  "example_store = \<lparr>ps_path = ''p.ini'', ps_api_keys = [(''ab12'', [''read'', ''admin'']), (''cd34'', [])],
     ps_guardrail_blocklist = [''bad word''], ps_rate_limit = -5, ps_routing = Some default_routing, ps_encryption_enabled = False\<rparr>"

definition example_crypto :: crypto where
  "example_crypto = \<lparr>aes_encrypt = (\<lambda>p. Some (''n'', ''t'', rev p)), aes_decrypt = (\<lambda>n t d. Some (rev d))\<rparr>"

definition no_faults :: save_faults where
  "no_faults = \<lparr>open_fails = False, write_fails = False, copy_fails = False, rename_fails = False, remove_fails = False, retry_fails = False\<rparr>"

text \<open>Both without and with encryption, by a cipher that reverses the text.\<close>

theorem policy_save_load_witness:
  "(let (fs, ok) = policy_Save example_crypto no_faults (\<lambda>_. None) example_store
    in ok \<and> policy_contents (fst (policy_Load example_crypto fs (PolicyStore_init ''p.ini'' []))) = policy_contents example_store) \<and>
   (let (fs, ok) = policy_Save example_crypto no_faults (\<lambda>_. None) (example_store\<lparr>ps_encryption_enabled := True\<rparr>)
    in ok \<and> policy_contents (fst (policy_Load example_crypto fs (PolicyStore_init ''p.ini'' ''secret''))) = policy_contents example_store)"
proof -
  have cr: "cipher_ok example_crypto" by (simp add: cipher_ok_def example_crypto_def)
  have safe: "policy_safe example_store" by code_simp
  then have safe': "policy_safe (example_store\<lparr>ps_encryption_enabled := True\<rparr>)" by (simp add: policy_safe_def)
  let ?p = "policy_Save example_crypto no_faults (\<lambda>_. None) example_store"
  let ?e = "policy_Save example_crypto no_faults (\<lambda>_. None) (example_store\<lparr>ps_encryption_enabled := True\<rparr>)"
  have ok: "snd ?p" "snd ?e"
    by (simp_all add: policy_Save_def write_policy_file_def no_faults_def Encrypt_def example_crypto_def Let_def example_store_def)
  have "policy_contents (fst (policy_Load example_crypto (fst ?p) (PolicyStore_init ''p.ini'' []))) = policy_contents example_store"
    using policy_save_load [OF safe cr prod.collapse [of ?p, symmetric], of "PolicyStore_init ''p.ini'' []"] ok(1)
    by (simp add: PolicyStore_init_def example_store_def)
  moreover have "policy_contents (fst (policy_Load example_crypto (fst ?e) (PolicyStore_init ''p.ini'' ''secret''))) =
      policy_contents (example_store\<lparr>ps_encryption_enabled := True\<rparr>)"
    using policy_save_load [OF safe' cr prod.collapse [of ?e, symmetric], of "PolicyStore_init ''p.ini'' ''secret''"] ok(2)
    by (simp add: PolicyStore_init_def example_store_def)
  moreover have "policy_contents (example_store\<lparr>ps_encryption_enabled := True\<rparr>) = policy_contents example_store"
    by (simp add: policy_contents_def)
  ultimately show ?thesis using ok unfolding case_prod_beta Let_def by simp
qed

text \<open>
  The INI text is written without escaping. A guardrail word that contains line breaks adds
  sections and entries of its own when the file is loaded again, here an API key with the
  scope \<open>admin\<close>.
\<close>

theorem blocklist_word_injects_key:
  "let word = ''x'' @ [CHR 0x0A] @ ''[api_keys]'' @ [CHR 0x0A] @ ''beef=admin'' @ [CHR 0x0A] @ ''[guardrail]'';
       store = SetGuardrailBlocklist [word] (PolicyStore_init ''p.ini'' []);
       (fs, ok) = policy_Save example_crypto no_faults (\<lambda>_. None) store
   in ok \<and> ApiKeys (fst (policy_Load example_crypto fs (PolicyStore_init ''p.ini'' []))) = [(''beef'', [''admin''])]"
  by code_simp

end
