(* ===== verification/Image_Content.thy ===== *)
theory Image_Content
  imports Policy_Store Marker_Scan
begin

unbundle bit_operations_syntax

section \<open>Images in message contents\<close>

text \<open>
  \<open>runtime/multimodal/image_preprocessor.{h,cpp}\<close>: decoding of base64 data URIs and of the content arrays of
  chat messages. The accumulator of the decoder is an \<open>int\<close> that is shifted without limit; it is a
  32-bit word here, so the shifts wrap as they do on the supported compilers. The JSON parser, the HTTP
  client and the digest are arguments; a JSON value is a datatype with the cases the code distinguishes.
\<close>

definition kBase64Table :: string where
  "kBase64Table = ''ABCDEFGHIJKLMNOPQRSTUVWXYZabcdefghijklmnopqrstuvwxyz0123456789+/''"

definition Base64CharValue :: "char \<Rightarrow> int" where
  "Base64CharValue ch =
     (let c = (of_char ch :: int) in
      if c \<ge> 65 \<and> c \<le> 90 then c - 65
      else if c \<ge> 97 \<and> c \<le> 122 then 26 + (c - 97)
      else if c \<ge> 48 \<and> c \<le> 57 then 52 + (c - 48)
      else if ch = CHR ''+'' \<or> ch = CHR ''-'' then 62
      else if ch = CHR ''/'' \<or> ch = CHR ''_'' then 63
      else -1)"

definition base64_stop :: "char \<Rightarrow> bool" where
  "base64_stop c \<longleftrightarrow> c = CHR ''='' \<or> c = CHR 0x0A \<or> c = CHR 0x0D"

text \<open>The body of the loop for the value of one character: the new accumulator and bit count, and the byte pushed.\<close>

definition base64_step :: "int \<Rightarrow> 32 word \<times> int \<Rightarrow> (32 word \<times> int) \<times> byte list" where
  "base64_step v = (\<lambda>(val, valb).
     let val' = push_bit 6 val + word_of_int v;
         valb' = valb + 6
     in if valb' \<ge> 0 then ((val', valb' - 8), [ucast (and (signed_drop_bit (nat valb') val') 0xFF)])
        else ((val', valb'), []))"

fun base64_loop :: "string \<Rightarrow> 32 word \<times> int \<Rightarrow> byte list" where
  "base64_loop [] st = []"
| "base64_loop (c # cs) st =
     (if base64_stop c then []
      else if Base64CharValue c < 0 then base64_loop cs st
      else let (st', out) = base64_step (Base64CharValue c) st in out @ base64_loop cs st')"

definition Base64Decode :: "string \<Rightarrow> byte list" where
  "Base64Decode b64 = base64_loop b64 (0, -8)"

definition kMediaMarker :: string where
  "kMediaMarker = ''<__media__>''"

text \<open>The bytes and the error text, empty without an error.\<close>

definition DecodeBase64DataUri :: "string \<Rightarrow> byte list \<times> string" where
  "DecodeBase64DataUri data_uri =
     (if take 5 data_uri \<noteq> ''data:'' then ([], ''not a data URI'')
      else case str_find data_uri '','' of
          None \<Rightarrow> ([], ''malformed data URI: missing comma'')
        | Some comma \<Rightarrow>
            if str_find (take comma data_uri) ''base64'' = None then ([], ''data URI is not base64 encoded'')
            else
              let bytes = Base64Decode (drop (comma + 1) data_uri)
              in if bytes = [] then ([], ''base64 decode produced empty result'') else (bytes, []))"

text \<open>An exception with its text, or status and body of a response.\<close>

type_synonym http_get = "string \<Rightarrow> string + (int \<times> string)"

definition FetchUrl :: "http_get \<Rightarrow> string \<Rightarrow> byte list \<times> string" where
  "FetchUrl get url =
     (if url = [] then ([], ''empty URL'')
      else case get url of
          Inl what \<Rightarrow> ([], ''HTTP fetch error: '' @ what)
        | Inr (status, body) \<Rightarrow>
            if status < 200 \<or> status \<ge> 300 then ([], ''HTTP '' @ int_to_string status @ '' fetching image'')
            else (map of_char body, []))"

text \<open>\<open>None\<close> where the digest library fails.\<close>

definition ComputeSha256Hex :: "(byte list \<Rightarrow> byte list option) \<Rightarrow> byte list \<Rightarrow> string" where
  "ComputeSha256Hex sha256 bytes =
     (case sha256 bytes of
        None \<Rightarrow> []
      | Some digest \<Rightarrow> concat (map (\<lambda>b. [hex_digit (unat b div 16), hex_digit (unat b mod 16)]) digest))"

datatype json = JNull | JBool bool | JNumber real | JString string | JArray "json list" | JObject "(string \<times> json) list"

fun json_string :: "json option \<Rightarrow> string option" where
  "json_string (Some (JString s)) = Some s"
| "json_string _ = None"

record DecodedImage =
  raw_bytes :: "byte list"
  source_uri :: string
  image_id :: string

record ContentArrayResult =
  cr_text :: string
  cr_images :: "DecodedImage list"
  cr_message :: string

definition image_part_url :: "(string \<times> json) list \<Rightarrow> string" where
  "image_part_url part =
     (case map_of part ''image_url'' of
        Some (JObject img) \<Rightarrow> (case json_string (map_of img ''url'') of None \<Rightarrow> [] | Some u \<Rightarrow> u)
      | _ \<Rightarrow> (case json_string (map_of part ''url'') of None \<Rightarrow> [] | Some u \<Rightarrow> u))"

definition decode_image :: "http_get \<Rightarrow> (byte list \<Rightarrow> byte list option) \<Rightarrow> string \<Rightarrow> DecodedImage \<times> string" where
  "decode_image get sha256 url =
     (let (bytes, decode_error) = (if take 5 url = ''data:'' then DecodeBase64DataUri url else FetchUrl get url)
      in (\<lparr>raw_bytes = bytes, source_uri = url, image_id = (if bytes \<noteq> [] then ComputeSha256Hex sha256 bytes else [])\<rparr>, decode_error))"

definition content_part :: "http_get \<Rightarrow> (byte list \<Rightarrow> byte list option) \<Rightarrow> json \<Rightarrow> ContentArrayResult \<Rightarrow> ContentArrayResult" where
  "content_part get sha256 p result =
     (case p of
        JObject part \<Rightarrow>
          let type = (case json_string (map_of part ''type'') of None \<Rightarrow> [] | Some t \<Rightarrow> t)
          in if type = ''text'' then
               (case json_string (map_of part ''text'') of
                  None \<Rightarrow> result
                | Some t \<Rightarrow> result\<lparr>cr_text := cr_text result @ t\<rparr>)
             else if type = ''image_url'' then
               let url = image_part_url part
               in if url = [] then result\<lparr>cr_message := ''image_url part missing url field'', cr_text := cr_text result @ kMediaMarker\<rparr>
                  else
                    let (img, decode_error) = decode_image get sha256 url
                    in result\<lparr>cr_text := cr_text result @ kMediaMarker,
                              cr_message := (if decode_error \<noteq> [] then ''image decode error: '' @ decode_error else cr_message result),
                              cr_images := cr_images result @ [img]\<rparr>
             else result
      | _ \<Rightarrow> result)"

definition ProcessContentArray ::
  "(string \<Rightarrow> string + json) \<Rightarrow> http_get \<Rightarrow> (byte list \<Rightarrow> byte list option) \<Rightarrow> string \<Rightarrow> ContentArrayResult" where
  "ProcessContentArray parse get sha256 content_array_json =
     (let result = \<lparr>cr_text = [], cr_images = [], cr_message = []\<rparr>
      in if content_array_json = [] then result
         else case parse content_array_json of
             Inl what \<Rightarrow> result\<lparr>cr_message := ''JSON parse error: '' @ what\<rparr>
           | Inr (JArray arr) \<Rightarrow> fold (content_part get sha256) arr result
           | Inr _ \<Rightarrow> result\<lparr>cr_message := ''content is not a JSON array''\<rparr>)"

section \<open>Base64 after RFC 4648\<close>

subsection \<open>The reference encoding\<close>

fun sextets :: "byte list \<Rightarrow> nat list" where
  "sextets [] = []"
| "sextets [a] = [unat a div 4, unat a mod 4 * 16]"
| "sextets [a, b] = [unat a div 4, unat a mod 4 * 16 + unat b div 16, unat b mod 16 * 4]"
| "sextets (a # b # c # bytes) =
     [unat a div 4, unat a mod 4 * 16 + unat b div 16, unat b mod 16 * 4 + unat c div 64, unat c mod 64] @ sextets bytes"

definition base64_padding :: "byte list \<Rightarrow> string" where
  "base64_padding bytes = (if length bytes mod 3 = 1 then ''=='' else if length bytes mod 3 = 2 then ''='' else [])"

definition base64_encode :: "string \<Rightarrow> byte list \<Rightarrow> string" where
  "base64_encode table bytes = map ((!) table) (sextets bytes) @ base64_padding bytes"

subsection \<open>The accumulator\<close>

lemma signed_drop_low:
  assumes "k + 8 \<le> 32"
  shows "and (signed_drop_bit k w) 0xFF = take_bit 8 (drop_bit k (w :: 32 word))"
proof -
  have m: "(0xFF :: 32 word) = mask 8" by (simp add: mask_eq_exp_minus_1)
  show ?thesis
    unfolding m take_bit_eq_mask [symmetric]
    by (rule bit_word_eqI) (use assms in \<open>auto simp: bit_take_bit_iff bit_drop_bit_eq bit_signed_drop_bit_iff\<close>)
qed

lemma pushed_byte:
  assumes "k + 8 \<le> 32"
  shows "(ucast (and (signed_drop_bit k w) 0xFF) :: byte) = word_of_nat (unat (w :: 32 word) div 2 ^ k mod 256)"
proof (rule unsigned_word_eqI)
  have "unat (take_bit 8 (drop_bit k w)) = take_bit 8 (drop_bit k (unat w))"
    by (simp only: unsigned_take_bit_eq unat_drop_bit_eq)
  then show "unat (ucast (and (signed_drop_bit k w) 0xFF) :: byte) = unat (word_of_nat (unat w div 2 ^ k mod 256) :: byte)"
    unfolding signed_drop_low [OF assms] by (simp add: unsigned_ucast_eq unsigned_of_nat take_bit_eq_mod drop_bit_eq_div)
qed

text \<open>Only the last two values reach a byte.\<close>

lemma div_mod_low: "k \<le> 4 \<Longrightarrow> (n :: nat) div 2 ^ k mod 256 = n mod 2 ^ 12 div 2 ^ k mod 256"
proof -
  assume "k \<le> 4"
  then have "take_bit 8 (drop_bit k n) = take_bit 8 (drop_bit k (take_bit 12 n))"
    by (intro bit_eqI) (auto simp: bit_take_bit_iff bit_drop_bit_eq)
  then show ?thesis by (simp add: take_bit_eq_mod drop_bit_eq_div)
qed

lemma unat_word32: "unat (word_of_nat n :: 32 word) = n mod 2 ^ 32"
  by (simp add: unsigned_of_nat take_bit_eq_mod)

lemma low_bits:
  assumes "s < 64" "t < 64" "k \<le> 4"
  shows "unat (push_bit 6 (push_bit 6 x + word_of_nat s) + word_of_nat t :: 32 word) div 2 ^ k mod 256 = (s * 64 + t) div 2 ^ k mod 256"
proof -
  let ?w = "push_bit 6 (push_bit 6 x + word_of_nat s) + word_of_nat t :: 32 word"
  have w: "?w = word_of_nat ((unat x * 64 + s) * 64 + t)" by (simp add: push_bit_eq_mult)
  have "unat ?w mod 2 ^ 12 = ((unat x * 64 + s) * 64 + t) mod 2 ^ 32 mod 2 ^ 12"
    unfolding w unat_word32 ..
  also have "\<dots> = (unat x * 2 ^ 12 + (s * 64 + t)) mod 2 ^ 12" by (subst mod_mod_cancel) (simp_all add: algebra_simps)
  also have "\<dots> = (s * 64 + t) mod 2 ^ 12" by simp
  finally have "unat ?w mod 2 ^ 12 = (s * 64 + t) mod 2 ^ 12" .
  then show ?thesis using div_mod_low [OF assms(3)] by metis
qed

fun run_values :: "int list \<Rightarrow> 32 word \<times> int \<Rightarrow> byte list" where
  "run_values [] st = []"
| "run_values (v # vs) st = (let (st', out) = base64_step v st in out @ run_values vs st')"

lemma base64_loop_values:
  assumes "\<forall>c \<in> set str. \<not> base64_stop c" "rest = [] \<or> base64_stop (hd rest)"
  shows "base64_loop (str @ rest) st = run_values (filter (\<lambda>v. 0 \<le> v) (map Base64CharValue str)) st"
  using assms(1)
proof (induction str arbitrary: st)
  case Nil
  then show ?case using assms(2) by (cases rest) auto
qed (auto split: prod.split)

lemma step_hold: "base64_step (int s) (x, -8) = ((push_bit 6 x + word_of_nat s, -2), [])"
  by (simp add: base64_step_def)

lemma step_push:
  assumes "s < 64" "t < 64" "b \<in> {-2, -4, -6}"
  shows "base64_step (int t) (push_bit 6 x + word_of_nat s, b) =
    ((push_bit 6 (push_bit 6 x + word_of_nat s) + word_of_nat t, b - 2), [word_of_nat ((s * 64 + t) div 2 ^ nat (b + 6) mod 256)])"
proof -
  have "nat (b + 6) \<le> 4" "0 \<le> b + 6" using assms(3) by auto
  then show ?thesis
    using assms(1,2) by (simp add: base64_step_def Let_def pushed_byte low_bits)
qed

lemma sextet_arith:
  fixes a b c p q e :: nat
  shows "a < 256 \<Longrightarrow> e < 16 \<Longrightarrow> (a div 4 * 64 + (a mod 4 * 16 + e)) div 16 mod 256 = a"
    "b < 256 \<Longrightarrow> e < 4 \<Longrightarrow> ((p * 16 + b div 16) * 64 + (b mod 16 * 4 + e)) div 4 mod 256 = b"
    "c < 256 \<Longrightarrow> ((q * 4 + c div 64) * 64 + c mod 64) mod 256 = c"
proof -
  have n1: "a div 4 * 64 + (a mod 4 * 16 + e) = e + a * 16" using mult_div_mod_eq [of 4 a] by linarith
  show "a < 256 \<Longrightarrow> e < 16 \<Longrightarrow> (a div 4 * 64 + (a mod 4 * 16 + e)) div 16 mod 256 = a" unfolding n1 by simp
  have n2: "(p * 16 + b div 16) * 64 + (b mod 16 * 4 + e) = e + (b + p * 256) * 4" unfolding distrib_right mult.assoc using mult_div_mod_eq [of 16 b] by linarith
  show "b < 256 \<Longrightarrow> e < 4 \<Longrightarrow> ((p * 16 + b div 16) * 64 + (b mod 16 * 4 + e)) div 4 mod 256 = b" unfolding n2 by (subst div_mult_self1) simp_all
  have n3: "(q * 4 + c div 64) * 64 + c mod 64 = c + q * 256" unfolding distrib_right mult.assoc using mult_div_mod_eq [of 64 c] by linarith
  show "c < 256 \<Longrightarrow> ((q * 4 + c div 64) * 64 + c mod 64) mod 256 = c" unfolding n3 by simp
qed

lemma byte_less: "unat (a :: byte) < 256"
  using unsigned_less [of a] by simp

lemma word_unat_eq: "word_of_nat (unat a) = (a :: byte)"
  by simp

lemma sextet_bytes:
  fixes a b c :: byte
  shows "e < 16 \<Longrightarrow> word_of_nat ((unat a div 4 * 64 + (unat a mod 4 * 16 + e)) div 16 mod 256) = a"
    "e < 4 \<Longrightarrow> word_of_nat (((p * 16 + unat b div 16) * 64 + (unat b mod 16 * 4 + e)) div 4 mod 256) = b"
    "word_of_nat (((q * 4 + unat c div 64) * 64 + unat c mod 64) mod 256) = c"
  by (simp_all only: sextet_arith byte_less word_unat_eq)

lemma run_group:
  assumes "s < 64" "t < 64" "u < 64" "v < 64"
  shows "run_values [int s, int t] (x, -8) = [word_of_nat ((s * 64 + t) div 16 mod 256)]"
    "run_values [int s, int t, int u] (x, -8) = [word_of_nat ((s * 64 + t) div 16 mod 256), word_of_nat ((t * 64 + u) div 4 mod 256)]"
    "\<exists>y. run_values ([int s, int t, int u, int v] @ vs) (x, -8) =
       [word_of_nat ((s * 64 + t) div 16 mod 256), word_of_nat ((t * 64 + u) div 4 mod 256), word_of_nat ((u * 64 + v) mod 256)] @
       run_values vs (y, -8)"
  using assms by (simp_all add: step_hold step_push del: of_nat_add of_nat_mult) blast

lemma run_sextets: "run_values (map int (sextets bytes)) (x, -8) = bytes"
proof (induction bytes arbitrary: x rule: sextets.induct)
  case (2 a)
  have "unat a div 4 < 64" "unat a mod 4 * 16 + 0 < 64" using byte_less [of a] by linarith+
  then have "run_values (map int [unat a div 4, unat a mod 4 * 16 + 0]) (x, -8) = [a]"
    by (simp only: list.map run_group(1) sextet_bytes(1) [of 0, simplified]) (simp only: sextet_bytes(1) zero_less_numeral)
  then show ?case by simp
next
  case (3 a b)
  have l: "unat b div 16 < 16" "unat a div 4 < 64" "unat a mod 4 * 16 + unat b div 16 < 64" "unat b mod 16 * 4 + 0 < 64"
    using byte_less [of a] byte_less [of b] by linarith+
  then have "run_values (map int [unat a div 4, unat a mod 4 * 16 + unat b div 16, unat b mod 16 * 4 + 0]) (x, -8) = [a, b]"
    by (simp only: list.map run_group(2) sextet_bytes(1,2) zero_less_numeral)
  then show ?case by simp
next
  case (4 a b c bytes)
  have l: "unat b div 16 < 16" "unat c div 64 < 4" "unat a div 4 < 64" "unat a mod 4 * 16 + unat b div 16 < 64"
    "unat b mod 16 * 4 + unat c div 64 < 64" "unat c mod 64 < 64"
    using byte_less [of a] byte_less [of b] byte_less [of c] by linarith+
  obtain y where "run_values (map int (sextets (a # b # c # bytes))) (x, -8) = [a, b, c] @ run_values (map int (sextets bytes)) (y, -8)"
    using run_group(3) [OF l(3-6), of "map int (sextets bytes)" x] l(1,2)
    by (auto simp only: sextet_bytes sextets.simps map_append list.map)
  then show ?case using "4.IH" by simp
qed simp

subsection \<open>The two alphabets\<close>

definition url_safe_table :: string where
  "url_safe_table = take 62 kBase64Table @ ''-_''"

definition alphabet_ok :: "string \<Rightarrow> bool" where
  "alphabet_ok table \<longleftrightarrow>
     list_all (\<lambda>i. Base64CharValue (table ! i) = int i \<and> \<not> base64_stop (table ! i)) [0..<64]"

lemma alphabets_ok: "alphabet_ok kBase64Table" "alphabet_ok url_safe_table"
  by code_simp+

lemma sextets_less: "i \<in> set (sextets bytes) \<Longrightarrow> i < 64"
proof (induction bytes rule: sextets.induct)
  case (2 a)
  then show ?case using byte_less [of a] by auto
next
  case (3 a b)
  then show ?case using byte_less [of a] byte_less [of b] by auto
next
  case (4 a b c bytes)
  then show ?case using byte_less [of a] byte_less [of b] byte_less [of c] by auto
qed simp

lemma alphabet_values:
  assumes "alphabet_ok table"
  shows "map Base64CharValue (map ((!) table) (sextets bytes)) = map int (sextets bytes)"
  using assms sextets_less unfolding alphabet_ok_def list_all_iff by (auto simp: comp_def)

text \<open>What the decoder makes of an encoding with foreign characters in between and anything behind a stop character.\<close>

lemma Base64Decode_encoded:
  assumes "alphabet_ok table" "filter (\<lambda>c. 0 \<le> Base64CharValue c) body = map ((!) table) (sextets bytes)"
    "\<forall>c \<in> set body. \<not> base64_stop c" "rest = [] \<or> base64_stop (hd rest)"
  shows "Base64Decode (body @ rest) = bytes"
proof -
  have "filter (\<lambda>v. 0 \<le> v) (map Base64CharValue body) = map Base64CharValue (filter (\<lambda>c. 0 \<le> Base64CharValue c) body)"
    by (simp add: filter_map comp_def)
  also have "\<dots> = map int (sextets bytes)" unfolding assms(2) by (rule alphabet_values [OF assms(1)])
  finally show ?thesis
    unfolding Base64Decode_def by (simp add: base64_loop_values [OF assms(3,4)] run_sextets)
qed

lemma Base64Decode_encode:
  assumes "alphabet_ok table"
  shows "Base64Decode (base64_encode table bytes) = bytes"
  unfolding base64_encode_def
proof (rule Base64Decode_encoded [OF assms])
  have v: "\<forall>i \<in> set (sextets bytes). Base64CharValue (table ! i) = int i \<and> \<not> base64_stop (table ! i)"
    using assms sextets_less by (auto simp: alphabet_ok_def list_all_iff)
  then show "filter (\<lambda>c. 0 \<le> Base64CharValue c) (map ((!) table) (sextets bytes)) = map ((!) table) (sextets bytes)"
    by (auto simp: filter_id_conv)
  show "\<forall>c \<in> set (map ((!) table) (sextets bytes)). \<not> base64_stop c" using v by auto
qed (simp add: base64_padding_def base64_stop_def)

lemma str_find_from_char: "c \<notin> set xs \<Longrightarrow> str_find_from k (xs @ c # ys) [c] = Some (k + length xs)"
  by (induction xs arbitrary: k) auto

section \<open>Content arrays\<close>

text \<open>What one part contributes to the text, the images and the errors.\<close>

definition part_type :: "json \<Rightarrow> string" where
  "part_type p = (case p of JObject part \<Rightarrow> (case json_string (map_of part ''type'') of None \<Rightarrow> [] | Some t \<Rightarrow> t) | _ \<Rightarrow> [])"

definition part_url :: "json \<Rightarrow> string" where
  "part_url p = (case p of JObject part \<Rightarrow> image_part_url part | _ \<Rightarrow> [])"

definition is_image :: "json \<Rightarrow> bool" where
  "is_image p \<longleftrightarrow> part_type p = ''image_url''"

definition part_text :: "json \<Rightarrow> string" where
  "part_text p = (if is_image p then kMediaMarker
     else case p of JObject part \<Rightarrow> (if part_type p = ''text'' then (case json_string (map_of part ''text'') of None \<Rightarrow> [] | Some t \<Rightarrow> t) else []) | _ \<Rightarrow> [])"

definition part_images :: "http_get \<Rightarrow> (byte list \<Rightarrow> byte list option) \<Rightarrow> json \<Rightarrow> DecodedImage list" where
  "part_images get sha256 p = (if is_image p \<and> part_url p \<noteq> [] then [fst (decode_image get sha256 (part_url p))] else [])"

definition part_failed :: "http_get \<Rightarrow> (byte list \<Rightarrow> byte list option) \<Rightarrow> json \<Rightarrow> bool" where
  "part_failed get sha256 p \<longleftrightarrow> is_image p \<and> (part_url p = [] \<or> snd (decode_image get sha256 (part_url p)) \<noteq> [])"

lemmas part_defs = content_part_def part_text_def part_images_def part_failed_def is_image_def part_type_def part_url_def

lemma content_part_eq:
  "cr_text (content_part get sha256 p r) = cr_text r @ part_text p \<and>
   cr_images (content_part get sha256 p r) = cr_images r @ part_images get sha256 p \<and>
   (cr_message (content_part get sha256 p r) = [] \<longleftrightarrow> cr_message r = [] \<and> \<not> part_failed get sha256 p)"
proof (cases p)
  case (JObject part)
  define ty where "ty = (case json_string (map_of part ''type'') of None \<Rightarrow> [] | Some t \<Rightarrow> t)"
  consider "ty = ''text''" | "ty = ''image_url''" "image_part_url part = []" | "ty = ''image_url''" "image_part_url part \<noteq> []"
    | "ty \<noteq> ''text''" "ty \<noteq> ''image_url''" by blast
  then show ?thesis
  proof cases
    case 1
    then show ?thesis by (cases "json_string (map_of part ''text'')") (simp_all add: part_defs JObject flip: ty_def)
  next
    case 2
    then show ?thesis by (simp add: part_defs JObject flip: ty_def)
  next
    case 3
    then show ?thesis
      by (cases "decode_image get sha256 (image_part_url part)") (simp add: part_defs JObject flip: ty_def)
  next
    case 4
    then show ?thesis by (simp add: part_defs JObject flip: ty_def)
  qed
qed (simp_all add: part_defs)

lemma content_fold:
  "cr_text (fold (content_part get sha256) arr r) = cr_text r @ concat (map part_text arr) \<and>
   cr_images (fold (content_part get sha256) arr r) = cr_images r @ concat (map (part_images get sha256) arr) \<and>
   (cr_message (fold (content_part get sha256) arr r) = [] \<longleftrightarrow> cr_message r = [] \<and> (\<forall>p \<in> set arr. \<not> part_failed get sha256 p))"
proof (induction arr arbitrary: r)
  case (Cons p arr)
  then show ?case using content_part_eq [of get sha256 p r] by simp
qed simp

lemma image_count:
  "length (filter is_image arr) = length (concat (map (part_images get sha256) arr)) + length (filter (\<lambda>p. is_image p \<and> part_url p = []) arr)"
  by (induction arr) (auto simp: part_images_def)

section \<open>Properties\<close>

text \<open>
  C17: A data URI yields the bytes that were encoded, in the standard and in the URL-safe alphabet of RFC 4648, with
  or without padding, also when foreign characters are mixed into the data; everything from the first
  padding character or line break on is ignored.
\<close>
theorem data_uri_round_trip:
  assumes "take 5 header = ''data:''" "CHR '','' \<notin> set header" "str_find header ''base64'' \<noteq> None" "bytes \<noteq> []"
    "table = kBase64Table \<or> table = url_safe_table"
    "filter (\<lambda>c. 0 \<le> Base64CharValue c) body = map ((!) table) (sextets bytes)"
    "\<forall>c \<in> set body. \<not> base64_stop c" "rest = [] \<or> base64_stop (hd rest)"
  shows "DecodeBase64DataUri (header @ '','' @ body @ rest) = (bytes, []) \<and> Base64Decode (base64_encode table bytes) = bytes"
proof -
  have ok: "alphabet_ok table" using assms(5) alphabets_ok by blast
  have "str_find (header @ '','' @ body @ rest) '','' = Some (length header)"
    using str_find_from_char [OF assms(2)] by (simp add: str_find_def)
  moreover have "length header \<ge> 5" using arg_cong [OF assms(1), of length] by simp
  ultimately have "DecodeBase64DataUri (header @ '','' @ body @ rest) = (bytes, [])"
    using assms(1,3,4) Base64Decode_encoded [OF ok assms(6-8)] by (auto simp: DecodeBase64DataUri_def Let_def)
  then show ?thesis using Base64Decode_encode [OF ok] by blast
qed

theorem data_uri_round_trip_witness:
  "DecodeBase64DataUri (''data:image/png;base64'' @ '','' @ ''/ wD+'' @ ''==ignored'') = ([255, 0, 254], []) \<and>
   DecodeBase64DataUri (''data:;base64'' @ '','' @ ''_wD-'' @ []) = ([255, 0, 254], [])"
proof -
  have v: "filter (\<lambda>c. 0 \<le> Base64CharValue c) ''/ wD+'' = map ((!) kBase64Table) (sextets [255, 0, 254])"
    "filter (\<lambda>c. 0 \<le> Base64CharValue c) ''_wD-'' = map ((!) url_safe_table) (sextets [255, 0, 254])"
    by code_simp+
  have "\<forall>c \<in> set ''/ wD+''. \<not> base64_stop c" "base64_stop (hd ''==ignored'')"
    "str_find ''data:image/png;base64'' ''base64'' \<noteq> None" "CHR '','' \<notin> set ''data:image/png;base64''" by code_simp+
  then have 1: "DecodeBase64DataUri (''data:image/png;base64'' @ '','' @ ''/ wD+'' @ ''==ignored'') = ([255, 0, 254], [])"
    using data_uri_round_trip [of "''data:image/png;base64''" "[255, 0, 254]" kBase64Table "''/ wD+''" "''==ignored''"] v(1)
    by (simp del: append.simps)
  have "\<forall>c \<in> set ''_wD-''. \<not> base64_stop c" "str_find ''data:;base64'' ''base64'' \<noteq> None" "CHR '','' \<notin> set ''data:;base64''" by code_simp+
  then have "DecodeBase64DataUri (''data:;base64'' @ '','' @ ''_wD-'' @ []) = ([255, 0, 254], [])"
    using data_uri_round_trip [of "''data:;base64''" "[255, 0, 254]" url_safe_table "''_wD-''" "[]"] v(2)
    by (simp del: append.simps)
  with 1 show ?thesis by blast
qed

text \<open>
  C28: For every array of message parts the text is the concatenation of the text parts with one marker per image part, and the
  images are the decoded image parts, both in order. The error is empty exactly when every image part has a URL and
  decodes, and the markers outnumber the images by the image parts without a URL, which get a marker but no image.
\<close>
theorem content_array_parts:
  assumes "parse s = Inr (JArray arr)" "s \<noteq> []"
  shows "cr_text (ProcessContentArray parse get sha256 s) = concat (map part_text arr) \<and>
    cr_images (ProcessContentArray parse get sha256 s) = concat (map (part_images get sha256) arr) \<and>
    (cr_message (ProcessContentArray parse get sha256 s) = [] \<longleftrightarrow> (\<forall>p \<in> set arr. \<not> part_failed get sha256 p)) \<and>
    length (filter is_image arr) =
      length (cr_images (ProcessContentArray parse get sha256 s)) + length (filter (\<lambda>p. is_image p \<and> part_url p = []) arr)"
  using assms content_fold [of get sha256 arr "\<lparr>cr_text = [], cr_images = [], cr_message = []\<rparr>"] image_count [of arr get sha256]
  by (simp add: ProcessContentArray_def Let_def)

text \<open>A message whose second image lacks its URL: two markers, one image.\<close>

definition example_parts :: "json list" where
  "example_parts = [JObject [(''type'', JString ''text''), (''text'', JString ''look: '')],
     JObject [(''type'', JString ''image_url''), (''image_url'', JObject [(''url'', JString ''http://h/a.png'')])],
     JObject [(''type'', JString ''image_url''), (''image_url'', JString ''http://h/b.png'')]]"

definition example_get :: http_get where
  "example_get url = Inr (200, ''png'')"

theorem content_array_parts_witness:
  "cr_text (ProcessContentArray (\<lambda>_. Inr (JArray example_parts)) example_get (\<lambda>_. None) ''x'') = ''look: <__media__><__media__>'' \<and>
   length (cr_images (ProcessContentArray (\<lambda>_. Inr (JArray example_parts)) example_get (\<lambda>_. None) ''x'')) = 1"
proof -
  have c: "concat (map part_text example_parts) = ''look: <__media__><__media__>'' \<and>
    length (filter is_image example_parts) = 2 \<and> length (filter (\<lambda>p. is_image p \<and> part_url p = []) example_parts) = 1" by code_simp
  show ?thesis
    using content_array_parts [of "\<lambda>_. Inr (JArray example_parts)" "''x''" example_parts example_get "\<lambda>_. None"] c by simp
qed

end
