(* ===== verification/Speculative.thy ===== *)
theory Speculative
  imports Simple_Tokenizer
begin

section \<open>Speculative decoding\<close>

text \<open>
  \<open>runtime/speculative/speculative_decoder.{h,cpp}\<close>: a draft of the completion, cut into chunks, is
  compared with the tokens of the target model. A backend is the virtual interface the source
  calls: whether it is ready, and the text it generates for a prompt and a number of tokens.
  The device is the one of \<open>runtime/backends/cpu/cpu_backend.cpp\<close>.
\<close>

record SpeculativeConfig =
  sc_enabled :: bool
  sc_max_prefill_tokens :: int
  sc_chunk_size :: int
  sc_draft_model :: string

type_synonym SpeculativeChunk = "nat \<times> nat"

record SpeculativeDraft =
  sd_completion_tokens :: "int list"
  sd_chunks :: "SpeculativeChunk list"

record SpeculativeMetrics =
  total_chunks :: nat
  accepted_chunks :: nat
  reused_tokens :: nat

record SpeculativeValidationResult =
  sv_completion_tokens :: "int list"
  sv_metrics :: SpeculativeMetrics

record backend_iface =
  is_ready :: bool
  generate_text :: "string \<Rightarrow> int \<Rightarrow> string"

record SpeculativeDecoder =
  dec_config :: SpeculativeConfig
  dec_validation_override :: "(int list \<Rightarrow> int \<Rightarrow> int list) option"

definition SetValidationOverride :: "(int list \<Rightarrow> int \<Rightarrow> int list) \<Rightarrow> SpeculativeDecoder \<Rightarrow> SpeculativeDecoder" where
  "SetValidationOverride cb d = d\<lparr>dec_validation_override := Some cb\<rparr>"

definition ClearValidationOverride :: "SpeculativeDecoder \<Rightarrow> SpeculativeDecoder" where
  "ClearValidationOverride d = d\<lparr>dec_validation_override := None\<rparr>"

definition RunGreedyDecode :: "int list \<Rightarrow> int list" where
  "RunGreedyDecode tokens = tokens @ [0]"

definition empty_draft :: SpeculativeDraft where
  "empty_draft = \<lparr>sd_completion_tokens = [], sd_chunks = []\<rparr>"

text \<open>The chunking loop; the cursor equals the number of tokens already in the draft.\<close>

function chunk_loop :: "nat \<Rightarrow> int list \<Rightarrow> SpeculativeDraft \<Rightarrow> SpeculativeDraft" where
  "chunk_loop chunk_size rest draft =
     (if rest = [] \<or> chunk_size = 0 then draft
      else
        let tokens = sd_completion_tokens draft @ take chunk_size rest
        in chunk_loop chunk_size (drop chunk_size rest)
             \<lparr>sd_completion_tokens = tokens,
              sd_chunks = sd_chunks draft @ [(length (sd_completion_tokens draft), length tokens)]\<rparr>)"
  by pat_completeness auto
termination by (relation "measure (\<lambda>(_, rest, _). length rest)") auto

declare chunk_loop.simps [simp del]

text \<open>The drafted tokens, before chunking, and the tokenizer after encoding.\<close>

definition draft_tokens ::
  "SpeculativeConfig \<Rightarrow> backend_iface option \<Rightarrow> int list \<Rightarrow> int \<Rightarrow> SimpleTokenizer \<Rightarrow> SimpleTokenizer \<times> int list" where
  "draft_tokens config draft_backend prompt_tokens max_new_tokens tk =
     (let prompt = (if sc_max_prefill_tokens config > 0 \<and> int (length prompt_tokens) > sc_max_prefill_tokens config
                    then take (nat (sc_max_prefill_tokens config)) prompt_tokens else prompt_tokens);
          (tk', new_tokens) =
            (case draft_backend of
               Some b \<Rightarrow>
                 if is_ready b then tok_Encode (generate_text b (tok_Decode prompt_tokens tk) max_new_tokens) tk
                 else (tk, let greedy = RunGreedyDecode prompt
                           in if length greedy > length prompt then drop (length prompt) greedy else greedy)
             | None \<Rightarrow>
                 (tk, let greedy = RunGreedyDecode prompt
                      in if length greedy > length prompt then drop (length prompt) greedy else greedy))
      in (tk', if max_new_tokens > 0 \<and> int (length new_tokens) > max_new_tokens
               then take (nat max_new_tokens) new_tokens else new_tokens))"

definition Draft ::
  "SpeculativeConfig \<Rightarrow> backend_iface option \<Rightarrow> int list \<Rightarrow> int \<Rightarrow> SimpleTokenizer \<Rightarrow> SimpleTokenizer \<times> SpeculativeDraft" where
  "Draft config draft_backend prompt_tokens max_new_tokens tk =
     (if \<not> sc_enabled config \<or> max_new_tokens \<le> 0 then (tk, empty_draft)
      else
        let (tk', new_tokens) = draft_tokens config draft_backend prompt_tokens max_new_tokens tk
        in if new_tokens = [] then (tk', empty_draft)
           else (tk', chunk_loop (nat (max 1 (sc_chunk_size config))) new_tokens empty_draft))"

text \<open>
  The inner loop of \<open>Validate\<close> over the draft tokens of one chunk: \<open>accepted\<close> are the tokens
  of earlier chunks, \<open>target\<close> the target tokens from \<open>target_index\<close> on. The result is the
  matched tokens, the remaining target tokens and \<open>chunk_ok\<close>.
\<close>

fun match_chunk :: "int \<Rightarrow> nat \<Rightarrow> int list \<Rightarrow> int list \<Rightarrow> int list \<times> int list \<times> bool" where
  "match_chunk limit accepted [] target = ([], target, True)"
| "match_chunk limit accepted (d # ds) target =
     (if int accepted \<ge> limit then ([], target, False)
      else case target of
          [] \<Rightarrow> ([], target, False)
        | t # ts \<Rightarrow>
            if d \<noteq> t then ([], target, False)
            else let (ms, rest, ok) = match_chunk limit (Suc accepted) ds ts in (d # ms, rest, ok))"

fun validate_chunks ::
  "int \<Rightarrow> int list \<Rightarrow> SpeculativeChunk list \<Rightarrow> int list \<Rightarrow> SpeculativeValidationResult \<Rightarrow>
   SpeculativeValidationResult \<times> int list" where
  "validate_chunks limit draft [] target result = (result, target)"
| "validate_chunks limit draft ((start, stop) # chunks) target result =
     (if int (length (sv_completion_tokens result)) \<ge> limit then (result, target)
      else
        let (chunk_tokens, target', chunk_ok) =
              match_chunk limit (length (sv_completion_tokens result)) (take (stop - start) (drop start draft)) target
        in if chunk_tokens = [] then (result, target')
           else
             let ms = sv_metrics result;
                 result1 = \<lparr>sv_completion_tokens = sv_completion_tokens result @ chunk_tokens,
                            sv_metrics = ms\<lparr>reused_tokens := reused_tokens ms + length chunk_tokens\<rparr>\<rparr>
             in if chunk_ok \<and> length chunk_tokens = stop - start
                then validate_chunks limit draft chunks target'
                       (result1\<lparr>sv_metrics := (sv_metrics result1)\<lparr>accepted_chunks := accepted_chunks ms + 1\<rparr>\<rparr>)
                else (result1, target'))"

definition target_tokens_for ::
  "(int list \<Rightarrow> int \<Rightarrow> int list) option \<Rightarrow> backend_iface option \<Rightarrow> int list \<Rightarrow> SpeculativeDraft \<Rightarrow> int \<Rightarrow>
   SimpleTokenizer \<Rightarrow> SimpleTokenizer \<times> int list" where
  "target_tokens_for override target_backend prompt_tokens draft max_new_tokens tk =
     (case override of
        Some f \<Rightarrow> (tk, f prompt_tokens max_new_tokens)
      | None \<Rightarrow>
          (case target_backend of
             Some b \<Rightarrow>
               if is_ready b then tok_Encode (generate_text b (tok_Decode prompt_tokens tk) max_new_tokens) tk
               else (tk, sd_completion_tokens draft)
           | None \<Rightarrow> (tk, sd_completion_tokens draft)))"

definition Validate ::
  "(int list \<Rightarrow> int \<Rightarrow> int list) option \<Rightarrow> backend_iface option \<Rightarrow> int list \<Rightarrow> SpeculativeDraft \<Rightarrow> int \<Rightarrow>
   SimpleTokenizer \<Rightarrow> SimpleTokenizer \<times> SpeculativeValidationResult" where
  "Validate override target_backend prompt_tokens draft max_new_tokens tk =
     (let result = \<lparr>sv_completion_tokens = [],
                    sv_metrics = \<lparr>total_chunks = length (sd_chunks draft), accepted_chunks = 0, reused_tokens = 0\<rparr>\<rparr>
      in if max_new_tokens \<le> 0 then (tk, result)
         else
           let (tk', target) = target_tokens_for override target_backend prompt_tokens draft max_new_tokens tk
           in if target = [] then (tk', result)
              else
                let (result1, rest) = validate_chunks max_new_tokens (sd_completion_tokens draft) (sd_chunks draft) target result
                in (tk', result1\<lparr>sv_completion_tokens := sv_completion_tokens result1 @
                             take (nat (max_new_tokens - int (length (sv_completion_tokens result1)))) rest\<rparr>))"

subsection \<open>The draft only decides how the tokens are found\<close>

lemma match_chunk_split:
  assumes "match_chunk limit n ds target = (ms, rest, ok)"
  shows "target = ms @ rest \<and> prefix ms ds \<and> (int n \<le> limit \<longrightarrow> int (n + length ms) \<le> limit)"
  using assms
proof (induction limit n ds target arbitrary: ms rest ok rule: match_chunk.induct)
  case (2 limit n d ds target)
  show ?case
  proof (cases "int n \<ge> limit")
    case True
    then show ?thesis using 2(2) by simp
  next
    case lt: False
    show ?thesis
    proof (cases target)
      case Nil
      then show ?thesis using 2(2) lt by simp
    next
      case (Cons t ts)
      show ?thesis
      proof (cases "d = t")
        case True
        obtain ms' ok' where m: "match_chunk limit (Suc n) ds ts = (ms', rest, ok')" "ms = d # ms'"
          using 2(2) lt Cons True by (auto split: prod.splits)
        then show ?thesis using 2(1) [OF lt Cons _ m(1)] lt Cons True by auto
      qed (use 2(2) lt Cons in simp)
    qed
  qed
qed simp

lemma validate_chunks_split:
  assumes "validate_chunks limit draft chunks target result = (result', rest)"
    "int (length (sv_completion_tokens result)) \<le> limit"
  shows "\<exists>ms. sv_completion_tokens result' = sv_completion_tokens result @ ms \<and> target = ms @ rest \<and>
           int (length (sv_completion_tokens result')) \<le> limit \<and>
           reused_tokens (sv_metrics result') = reused_tokens (sv_metrics result) + length ms \<and>
           total_chunks (sv_metrics result') = total_chunks (sv_metrics result) \<and>
           accepted_chunks (sv_metrics result') \<le> accepted_chunks (sv_metrics result) + length chunks"
  using assms
proof (induction limit draft chunks target result arbitrary: rest rule: validate_chunks.induct)
  case (2 limit draft start stop chunks target result)
  let ?n = "length (sv_completion_tokens result)"
  obtain ms target' ok where m:
    "match_chunk limit ?n (take (stop - start) (drop start draft)) target = (ms, target', ok)"
    by (metis prod_cases3)
  note split = match_chunk_split [OF m]
  show ?case
  proof (cases "int ?n \<ge> limit \<or> ms = []")
    case True
    then have "(result', rest) = (result, target)" using 2(2,3) m split by (auto split: if_splits)
    then show ?thesis using 2(3) by simp
  next
    case False
    let ?ms = "sv_metrics result"
    let ?r1 = "\<lparr>sv_completion_tokens = sv_completion_tokens result @ ms,
                sv_metrics = ?ms\<lparr>reused_tokens := reused_tokens ?ms + length ms\<rparr>\<rparr>"
    show ?thesis
    proof (cases "ok \<and> length ms = stop - start")
      case True
      let ?r2 = "?r1\<lparr>sv_metrics := (sv_metrics ?r1)\<lparr>accepted_chunks := accepted_chunks ?ms + 1\<rparr>\<rparr>"
      have "validate_chunks limit draft chunks target' ?r2 = (result', rest)"
        using 2(2) False m True by (simp add: Let_def)
      moreover have "int (length (sv_completion_tokens ?r2)) \<le> limit" using split 2(3) by simp
      ultimately show ?thesis
        using 2(1) [of "(ms, target', ok)" ms "(target', ok)" target' ok ?ms ?r1 rest] False m True split by auto
    next
      case no: False
      then have "(result', rest) = (?r1, target')" using 2(2) False m by (auto simp: Let_def)
      then show ?thesis using split 2(3) by auto
    qed
  qed
qed simp



text \<open>A draft of the decoder is cut into consecutive chunks of the configured size.\<close>

fun consecutive :: "nat \<Rightarrow> SpeculativeChunk list \<Rightarrow> nat \<Rightarrow> bool" where
  "consecutive i [] j = (i = j)"
| "consecutive i ((a, b) # cs) j = (a = i \<and> a < b \<and> consecutive b cs j)"

lemma consecutive_snoc: "consecutive i cs j \<Longrightarrow> j < k \<Longrightarrow> consecutive i (cs @ [(j, k)]) k"
  by (induction i cs j rule: consecutive.induct) auto

lemma chunk_loop_chunks:
  assumes "0 < n" "consecutive 0 (sd_chunks draft) (length (sd_completion_tokens draft))"
  shows "sd_completion_tokens (chunk_loop n rest draft) = sd_completion_tokens draft @ rest \<and>
         consecutive 0 (sd_chunks (chunk_loop n rest draft)) (length (sd_completion_tokens draft) + length rest)"
  using assms
proof (induction n rest draft rule: chunk_loop.induct)
  case (1 n rest draft)
  show ?case
  proof (cases "rest = []")
    case True
    then show ?thesis using 1(3) by (simp add: chunk_loop.simps)
  next
    case False
    let ?t = "sd_completion_tokens draft @ take n rest"
    let ?d = "\<lparr>sd_completion_tokens = ?t, sd_chunks = sd_chunks draft @ [(length (sd_completion_tokens draft), length ?t)]\<rparr>"
    have "consecutive 0 (sd_chunks ?d) (length (sd_completion_tokens ?d))"
      using 1(2,3) False consecutive_snoc [OF 1(3), of "length ?t"] by simp
    moreover have "chunk_loop n rest draft = chunk_loop n (drop n rest) ?d"
      using False 1(2) by (subst chunk_loop.simps) (simp add: Let_def)
    ultimately show ?thesis
      using 1(1) [of ?t] False 1(2) by (auto simp: min_def split: if_splits)
  qed
qed

lemma Draft_chunks:
  "consecutive 0 (sd_chunks (snd (Draft config b prompt n tk))) (length (sd_completion_tokens (snd (Draft config b prompt n tk))))"
  using chunk_loop_chunks [of "nat (max 1 (sc_chunk_size config))" empty_draft]
  by (auto simp: Draft_def empty_draft_def case_prod_beta Let_def)

end
