(* ===== verification/Rate_Limiter.thy ===== *)
theory Rate_Limiter
  imports Prelude "HOL-Library.AList"
begin

section \<open>Request rate limits\<close>

text \<open>
  \<open>server/auth/rate_limiter.{h,cpp}\<close>: per principal, a token bucket for all requests and one
  for each configured request class, refilled continuously. Time is an \<^typ>\<open>int\<close> number of
  nanoseconds, the clock's reading an argument; the \<open>double\<close> arithmetic of the buckets is exact
  real arithmetic here, so rounding is not modelled. A \<open>std::invalid_argument\<close> is \<open>None\<close>.
\<close>

datatype RequestClass = kOther | kGeneration | kEmbeddings

fun RequestClassName :: "RequestClass \<Rightarrow> string" where
  "RequestClassName kGeneration = ''generation''"
| "RequestClassName kEmbeddings = ''embeddings''"
| "RequestClassName kOther = ''aggregate''"

record RequestBucketPolicy =
  requests_per_minute :: int
  burst :: int

record EndpointRateLimits =
  generation_limit :: "RequestBucketPolicy option"
  embeddings_limit :: "RequestBucketPolicy option"

definition endpoints_Enabled :: "EndpointRateLimits \<Rightarrow> bool" where
  "endpoints_Enabled e \<longleftrightarrow> generation_limit e \<noteq> None \<or> embeddings_limit e \<noteq> None"

definition bucket_policy_ok :: "RequestBucketPolicy option \<Rightarrow> bool" where
  "bucket_policy_ok policy =
     (case policy of None \<Rightarrow> True
      | Some p \<Rightarrow> \<not> (requests_per_minute p \<le> 0 \<or> burst p \<le> 0 \<or> burst p > requests_per_minute p))"

definition ValidateEndpointRateLimits :: "EndpointRateLimits \<Rightarrow> bool" where
  "ValidateEndpointRateLimits limits \<longleftrightarrow>
     list_all bucket_policy_ok [generation_limit limits, embeddings_limit limits]"

record RateLimitDecision =
  rd_allowed :: bool
  rd_endpoint_policy :: bool
  rd_scope :: RequestClass
  rd_requests_per_minute :: int
  rd_retry_after_seconds :: int

record bucket_entry =
  b_tokens :: real
  b_last :: time_point

record Principal =
  p_buckets :: "bucket_entry list"
  p_last :: time_point

record RateLimiter =
  tokens_per_minute :: int
  endpoints :: EndpointRateLimits
  rl_source :: string
  rl_entries :: "(string \<times> Principal) list"
  last_eviction :: time_point

definition secs :: "int \<Rightarrow> real" where
  "secs d = of_int d / 1000000000"

definition RateLimiter_init :: "int \<Rightarrow> EndpointRateLimits \<Rightarrow> string \<Rightarrow> RateLimiter option" where
  "RateLimiter_init tpm eps source =
     (if \<not> ValidateEndpointRateLimits eps then None
      else if endpoints_Enabled eps \<and> tpm \<le> 0 then None
      else Some \<lparr>tokens_per_minute = tpm, endpoints = eps, rl_source = source, rl_entries = [], last_eviction = 0\<rparr>)"

definition EvictStaleLocked :: "time_point \<Rightarrow> RateLimiter \<Rightarrow> RateLimiter" where
  "EvictStaleLocked now rl =
     (if now - last_eviction rl < 60 * 1000000000 then rl
      else rl\<lparr>last_eviction := now,
              rl_entries := filter (\<lambda>(k, p). \<not> now - p_last p > 120 * 1000000000) (rl_entries rl)\<rparr>)"

definition bucket_policies :: "RateLimiter \<Rightarrow> RequestBucketPolicy option list" where
  "bucket_policies rl =
     [Some \<lparr>requests_per_minute = tokens_per_minute rl, burst = tokens_per_minute rl\<rparr>,
      generation_limit (endpoints rl), embeddings_limit (endpoints rl)]"

fun class_index :: "RequestClass \<Rightarrow> nat" where
  "class_index kOther = 0" | "class_index kGeneration = 1" | "class_index kEmbeddings = 2"

definition index_class :: "nat \<Rightarrow> RequestClass" where
  "index_class i = (if i = 0 then kOther else if i = 1 then kGeneration else kEmbeddings)"

definition fresh_principal :: "time_point \<Rightarrow> RequestBucketPolicy option list \<Rightarrow> Principal" where
  "fresh_principal now policies =
     \<lparr>p_buckets = map (\<lambda>policy. \<lparr>b_tokens = (case policy of Some p \<Rightarrow> of_int (burst p) | None \<Rightarrow> 0), b_last = now\<rparr>) policies,
      p_last = now\<rparr>"

definition applies :: "RequestBucketPolicy option list \<Rightarrow> nat \<Rightarrow> nat \<Rightarrow> bool" where
  "applies policies endpoint i \<longleftrightarrow> policies ! i \<noteq> None \<and> (i = 0 \<or> i = endpoint)"

text \<open>The tokens of a bucket at a time, refilled since it was last touched.\<close>

definition refilled :: "time_point \<Rightarrow> RequestBucketPolicy \<Rightarrow> bucket_entry \<Rightarrow> real" where
  "refilled now policy e =
     min (of_int (burst policy)) (b_tokens e + secs (now - b_last e) * (of_int (requests_per_minute policy) / 60))"

text \<open>The first loop of \<open>Admit\<close>: refill the bucket \<open>i\<close> and test it.\<close>

definition refill_bucket ::
  "time_point \<Rightarrow> RequestBucketPolicy option list \<Rightarrow> nat \<Rightarrow> nat \<Rightarrow>
   bucket_entry list \<times> RateLimitDecision \<Rightarrow> bucket_entry list \<times> RateLimitDecision" where
  "refill_bucket now policies endpoint i bd =
     (let (buckets, decision) = bd in
      if \<not> applies policies endpoint i then (buckets, decision)
      else
        let policy = the (policies ! i);
            refill = of_int (requests_per_minute policy) / 60;
            toks = refilled now policy (buckets ! i);
            buckets1 = buckets[i := \<lparr>b_tokens = toks, b_last = now\<rparr>]
        in if toks < 1 then
             let retry = \<lceil>(1 - toks) / refill\<rceil>;
                 decision1 = (if rd_allowed decision \<or> retry > rd_retry_after_seconds decision
                              then decision\<lparr>rd_scope := index_class i,
                                            rd_requests_per_minute := requests_per_minute policy,
                                            rd_retry_after_seconds := retry\<rparr>
                              else decision)
             in (buckets1, decision1\<lparr>rd_allowed := False\<rparr>)
           else (buckets1, decision))"

text \<open>The second loop: take one token from every bucket that applies.\<close>

definition debit_bucket :: "RequestBucketPolicy option list \<Rightarrow> nat \<Rightarrow> nat \<Rightarrow> bucket_entry list \<Rightarrow> bucket_entry list" where
  "debit_bucket policies endpoint i buckets =
     (if applies policies endpoint i then buckets[i := (buckets ! i)\<lparr>b_tokens := b_tokens (buckets ! i) - 1\<rparr>] else buckets)"

definition Admit :: "time_point \<Rightarrow> string \<Rightarrow> RequestClass \<Rightarrow> RateLimiter \<Rightarrow> RateLimiter \<times> RateLimitDecision" where
  "Admit now key request_class rl =
     (let decision = \<lparr>rd_allowed = True, rd_endpoint_policy = endpoints_Enabled (endpoints rl), rd_scope = kOther,
                      rd_requests_per_minute = 0, rd_retry_after_seconds = 0\<rparr>
      in if tokens_per_minute rl \<le> 0 then (rl, decision)
         else
           let rl1 = EvictStaleLocked now rl;
               policies = bucket_policies rl1;
               principal = (case map_of (rl_entries rl1) key of
                              None \<Rightarrow> fresh_principal now policies
                            | Some p \<Rightarrow> p\<lparr>p_last := now\<rparr>);
               endpoint = class_index request_class;
               (buckets, decision1) =
                 fold (refill_bucket now policies endpoint) [0, 1, 2] (p_buckets principal, decision);
               buckets1 = (if rd_allowed decision1 then fold (debit_bucket policies endpoint) [0, 1, 2] buckets else buckets)
           in (rl1\<lparr>rl_entries := AList.update key (principal\<lparr>p_buckets := buckets1\<rparr>) (rl_entries rl1)\<rparr>, decision1))"

definition Allow :: "time_point \<Rightarrow> string \<Rightarrow> RateLimiter \<Rightarrow> RateLimiter \<times> bool" where
  "Allow now key rl = (let (rl', d) = Admit now key kOther rl in (rl', rd_allowed d))"

definition UpdateLimit :: "time_point \<Rightarrow> int \<Rightarrow> string \<Rightarrow> RateLimiter \<Rightarrow> RateLimiter option" where
  "UpdateLimit now tpm source rl =
     (if endpoints_Enabled (endpoints rl) \<and> tpm \<le> 0 then None
      else
        let rl1 = rl\<lparr>tokens_per_minute := tpm, rl_source := source\<rparr>
        in if \<not> endpoints_Enabled (endpoints rl1) then Some (rl1\<lparr>rl_entries := []\<rparr>)
           else Some (rl1\<lparr>rl_entries :=
                  map (\<lambda>(k, p). (k, p\<lparr>p_buckets := (p_buckets p)[0 := \<lparr>b_tokens = of_int tpm, b_last = now\<rparr>]\<rparr>)) (rl_entries rl1)\<rparr>))"

definition limiter_Enabled :: "RateLimiter \<Rightarrow> bool" where
  "limiter_Enabled rl \<longleftrightarrow> tokens_per_minute rl > 0"

subsection \<open>The level of the shared bucket\<close>

definition aggregate_policy :: "RateLimiter \<Rightarrow> RequestBucketPolicy" where
  "aggregate_policy rl = \<lparr>requests_per_minute = tokens_per_minute rl, burst = tokens_per_minute rl\<rparr>"

definition aggregate_level :: "string \<Rightarrow> time_point \<Rightarrow> RateLimiter \<Rightarrow> real" where
  "aggregate_level key now rl =
     (case map_of (rl_entries rl) key of
        None \<Rightarrow> of_int (tokens_per_minute rl)
      | Some p \<Rightarrow> refilled now (aggregate_policy rl) (p_buckets p ! 0))"

definition limiter_ok :: "time_point \<Rightarrow> RateLimiter \<Rightarrow> bool" where
  "limiter_ok now rl \<longleftrightarrow>
     0 < tokens_per_minute rl \<and> distinct (map fst (rl_entries rl)) \<and>
     (\<forall>(k, p) \<in> set (rl_entries rl).
        length (p_buckets p) = 3 \<and> p_last p \<le> now \<and> b_last (p_buckets p ! 0) = p_last p \<and> 0 \<le> b_tokens (p_buckets p ! 0))"

lemma secs_simps [simp]: "secs 0 = 0" "0 \<le> secs d \<longleftrightarrow> 0 \<le> d"
  by (simp_all add: secs_def)

lemma secs_add: "secs (a - c) = secs (b - c) + secs (a - b)"
  by (simp add: secs_def field_simps)

lemma refilled_mono_time:
  assumes "0 < requests_per_minute pol" "t1 \<le> t2"
  shows "refilled t2 pol e \<le> refilled t1 pol e + secs (t2 - t1) * (of_int (requests_per_minute pol) / 60)"
proof -
  let ?r = "of_int (requests_per_minute pol) / 60 :: real"
  have "0 \<le> secs (t2 - t1) * ?r" using assms by simp
  moreover have "b_tokens e + secs (t2 - b_last e) * ?r = (b_tokens e + secs (t1 - b_last e) * ?r) + secs (t2 - t1) * ?r"
    using secs_add [of t2 "b_last e" t1] by (simp add: algebra_simps)
  ultimately show ?thesis unfolding refilled_def by linarith
qed

lemma refilled_bounds:
  assumes "0 < requests_per_minute pol" "0 \<le> burst pol" "b_last e \<le> now" "0 \<le> b_tokens e"
  shows "0 \<le> refilled now pol e \<and> refilled now pol e \<le> of_int (burst pol)"
  using assms by (simp add: refilled_def)

text \<open>A bucket that was idle for a minute or more is full: its burst is at most its rate.\<close>

lemma refilled_full:
  assumes "0 < requests_per_minute pol" "burst pol \<le> requests_per_minute pol" "0 \<le> b_tokens e"
    "now - b_last e \<ge> 60 * 1000000000"
  shows "refilled now pol e = of_int (burst pol)"
proof -
  have "60 \<le> secs (now - b_last e)" using assms(4) by (simp add: secs_def)
  then have "60 * (of_int (requests_per_minute pol) / 60) \<le> secs (now - b_last e) * (of_int (requests_per_minute pol) / 60)"
    using assms(1) by (intro mult_right_mono) simp_all
  then show ?thesis using assms(2,3) by (simp add: refilled_def)
qed

lemma limiter_ok_entry:
  assumes "limiter_ok now rl" "map_of (rl_entries rl) key = Some p"
  shows "length (p_buckets p) = 3" "p_last p \<le> now" "b_last (p_buckets p ! 0) = p_last p" "0 \<le> b_tokens (p_buckets p ! 0)"
  using assms map_of_SomeD [OF assms(2)] by (auto simp: limiter_ok_def)

lemma limiter_ok_later: "limiter_ok t1 rl \<Longrightarrow> t1 \<le> t2 \<Longrightarrow> limiter_ok t2 rl"
  by (fastforce simp: limiter_ok_def)

text \<open>Removing idle principals does not change the level of any bucket.\<close>

lemma EvictStale_tpm [simp]: "tokens_per_minute (EvictStaleLocked now rl) = tokens_per_minute rl"
  by (simp add: EvictStaleLocked_def)

lemma EvictStale_ok: "limiter_ok now rl \<Longrightarrow> limiter_ok now (EvictStaleLocked now rl)"
  by (auto simp: limiter_ok_def EvictStaleLocked_def distinct_map_filter)

lemma EvictStale_level:
  assumes "limiter_ok now rl"
  shows "aggregate_level key now (EvictStaleLocked now rl) = aggregate_level key now rl"
proof (cases "map_of (rl_entries rl) key")
  case None
  then have "map_of (rl_entries (EvictStaleLocked now rl)) key = None"
    by (auto simp: EvictStaleLocked_def map_of_eq_None_iff)
  then show ?thesis using None by (simp add: aggregate_level_def)
next
  case (Some p)
  note p = limiter_ok_entry [OF assms Some]
  have dist: "distinct (map fst (rl_entries rl))" and tpm: "0 < tokens_per_minute rl"
    using assms by (auto simp: limiter_ok_def)
  show ?thesis
  proof (cases "now - last_eviction rl < 60 * 1000000000")
    case True
    then show ?thesis by (simp add: EvictStaleLocked_def)
  next
    case evict: False
    have ent: "map_of (rl_entries (EvictStaleLocked now rl)) key =
        (if now - p_last p > 120 * 1000000000 then None else Some p)"
      using evict Some map_of_filter_distinct [OF dist, of "\<lambda>(k, p). \<not> now - p_last p > 120 * 1000000000" key]
      by (simp add: EvictStaleLocked_def)
    show ?thesis
    proof (cases "now - p_last p > 120 * 1000000000")
      case True
      then have "refilled now (aggregate_policy rl) (p_buckets p ! 0) = of_int (tokens_per_minute rl)"
        using refilled_full [of "aggregate_policy rl" "p_buckets p ! 0" now] p tpm by (simp add: aggregate_policy_def)
      then show ?thesis using ent Some True by (simp add: aggregate_level_def)
    next
      case False
      then show ?thesis using ent Some by (simp add: aggregate_level_def aggregate_policy_def)
    qed
  qed
qed

lemma policies_0 [simp]: "bucket_policies rl ! 0 = Some (aggregate_policy rl)"
  by (simp add: bucket_policies_def aggregate_policy_def)

lemma refill_bucket_other:
  "i \<noteq> 0 \<Longrightarrow> fst (refill_bucket now pols ep i (bs, d)) ! 0 = bs ! 0"
  "length (fst (refill_bucket now pols ep i (bs, d))) = length bs"
  "rd_allowed (snd (refill_bucket now pols ep i (bs, d))) \<Longrightarrow> rd_allowed d"
  by (auto simp: refill_bucket_def Let_def split: if_splits)

lemma refill_bucket_first:
  assumes "pols ! 0 = Some pol" "bs \<noteq> []"
  shows "fst (refill_bucket now pols ep 0 (bs, d)) ! 0 = \<lparr>b_tokens = refilled now pol (bs ! 0), b_last = now\<rparr>"
    and "rd_allowed (snd (refill_bucket now pols ep 0 (bs, d))) \<Longrightarrow> 1 \<le> refilled now pol (bs ! 0)"
  using assms by (auto simp: refill_bucket_def Let_def applies_def split: if_splits)

lemma refill_fold:
  assumes "pols ! 0 = Some pol" "length bs = 3"
    "fold (refill_bucket now pols ep) [0, 1, 2] (bs, d) = (bs', d')"
  shows "length bs' = 3 \<and> bs' ! 0 = \<lparr>b_tokens = refilled now pol (bs ! 0), b_last = now\<rparr> \<and>
         (rd_allowed d' \<longrightarrow> 1 \<le> refilled now pol (bs ! 0))"
proof -
  obtain b0 d0 where s0: "refill_bucket now pols ep 0 (bs, d) = (b0, d0)" by fastforce
  obtain b1 d1 where s1: "refill_bucket now pols ep 1 (b0, d0) = (b1, d1)" by fastforce
  have s2: "refill_bucket now pols ep 2 (b1, d1) = (bs', d')" using assms(3) s0 s1 by simp
  have "bs \<noteq> []" using assms(2) by auto
  then show ?thesis
    using refill_bucket_first [OF assms(1), where bs = bs and now = now and ep = ep and d = d] assms(2) s0 s1 s2
      refill_bucket_other(2,3) [where i = 0 and now = now and pols = pols and ep = ep and bs = bs and d = d]
      refill_bucket_other [where i = 1 and now = now and pols = pols and ep = ep and bs = b0 and d = d0]
      refill_bucket_other [where i = 2 and now = now and pols = pols and ep = ep and bs = b1 and d = d1]
    by auto
qed

lemma debit_fold:
  assumes "pols ! 0 = Some pol" "length bs = 3"
  shows "length (fold (debit_bucket pols ep) [0, 1, 2] bs) = 3 \<and>
         fold (debit_bucket pols ep) [0, 1, 2] bs ! 0 = (bs ! 0)\<lparr>b_tokens := b_tokens (bs ! 0) - 1\<rparr>"
  using assms by (auto simp: debit_bucket_def applies_def)

lemma aggregate_level_update:
  "aggregate_level k now (rl\<lparr>rl_entries := AList.update key p (rl_entries rl)\<rparr>) =
     (if k = key then refilled now (aggregate_policy rl) (p_buckets p ! 0) else aggregate_level k now rl)"
  by (simp add: aggregate_level_def update_conv' aggregate_policy_def split: option.split)

lemma Admit_level:
  assumes ok: "limiter_ok now rl" and admit: "Admit now key cls rl = (rl', d)"
  shows "limiter_ok now rl' \<and> tokens_per_minute rl' = tokens_per_minute rl \<and>
         aggregate_level k now rl' = aggregate_level k now rl - (if k = key \<and> rd_allowed d then 1 else 0)"
proof -
  let ?rl1 = "EvictStaleLocked now rl"
  let ?pols = "bucket_policies ?rl1" and ?pol = "aggregate_policy ?rl1"
  let ?ep = "class_index cls"
  let ?p = "case map_of (rl_entries ?rl1) key of None \<Rightarrow> fresh_principal now ?pols | Some p \<Rightarrow> p\<lparr>p_last := now\<rparr>"
  let ?d0 = "\<lparr>rd_allowed = True, rd_endpoint_policy = endpoints_Enabled (endpoints rl), rd_scope = kOther,
      rd_requests_per_minute = 0, rd_retry_after_seconds = 0\<rparr>"
  have tpm: "0 < tokens_per_minute rl" using ok by (simp add: limiter_ok_def)
  have ok1: "limiter_ok now ?rl1" by (rule EvictStale_ok [OF ok])
  obtain bs where f: "fold (refill_bucket now ?pols ?ep) [0, 1, 2] (p_buckets ?p, ?d0) = (bs, d)"
    and rl': "rl' = ?rl1\<lparr>rl_entries := AList.update key
        (?p\<lparr>p_buckets := if rd_allowed d then fold (debit_bucket ?pols ?ep) [0, 1, 2] bs else bs\<rparr>) (rl_entries ?rl1)\<rparr>"
    using admit tpm unfolding Admit_def Let_def by (auto split: prod.splits)
  let ?bs1 = "if rd_allowed d then fold (debit_bucket ?pols ?ep) [0, 1, 2] bs else bs"
  have len: "length (p_buckets ?p) = 3"
    using limiter_ok_entry(1) [OF ok1, of key] by (auto simp: fresh_principal_def bucket_policies_def split: option.split)
  have lvl: "refilled now ?pol (p_buckets ?p ! 0) = aggregate_level key now ?rl1"
    by (auto simp: aggregate_level_def fresh_principal_def bucket_policies_def aggregate_policy_def refilled_def
          split: option.split)
  have bounds: "0 \<le> aggregate_level key now ?rl1" "aggregate_level key now ?rl1 \<le> of_int (tokens_per_minute rl)"
    using refilled_bounds [of ?pol _ now] limiter_ok_entry [OF ok1, of key] tpm
    by (auto simp: aggregate_level_def aggregate_policy_def split: option.split)
  note r = refill_fold [OF policies_0 len f]
  have b0: "length ?bs1 = 3" "b_last (?bs1 ! 0) = now"
    "b_tokens (?bs1 ! 0) = aggregate_level key now ?rl1 - (if rd_allowed d then 1 else 0)"
    using r lvl debit_fold [OF policies_0, of bs ?rl1 ?ep] by auto
  have nonneg: "0 \<le> b_tokens (?bs1 ! 0)" using b0(3) r lvl bounds(1) by auto
  have "p_last ?p = now" by (simp add: fresh_principal_def split: option.split)
  then have "limiter_ok now rl'"
    using ok1 b0(1,2) nonneg tpm rl'
    by (auto simp: limiter_ok_def distinct_update dest!: in_set_update)
  moreover have "aggregate_level k now rl' = aggregate_level k now ?rl1 - (if k = key \<and> rd_allowed d then 1 else 0)"
  proof (cases "k = key")
    case True
    have "aggregate_level key now rl' = b_tokens (?bs1 ! 0)"
      using rl' b0(2,3) bounds by (simp add: aggregate_level_update refilled_def aggregate_policy_def)
    then show ?thesis using True b0(3) by simp
  next
    case False
    then show ?thesis using rl' by (simp add: aggregate_level_update)
  qed
  ultimately show ?thesis using EvictStale_level [OF ok] rl' by simp
qed

subsection \<open>Admissions over time\<close>

text \<open>A sequence of calls, with the number of admissions of one principal.\<close>

fun admissions :: "string \<Rightarrow> (time_point \<times> string \<times> RequestClass) list \<Rightarrow> RateLimiter \<Rightarrow> RateLimiter \<times> nat" where
  "admissions k [] rl = (rl, 0)"
| "admissions k ((now, key, cls) # calls) rl =
     (let (rl1, d) = Admit now key cls rl; (rl2, n) = admissions k calls rl1
      in (rl2, n + (if key = k \<and> rd_allowed d then 1 else 0)))"

fun times_from :: "time_point \<Rightarrow> (time_point \<times> string \<times> RequestClass) list \<Rightarrow> bool" where
  "times_from t [] = True"
| "times_from t ((now, key, cls) # calls) = (t \<le> now \<and> times_from now calls)"

definition last_time :: "time_point \<Rightarrow> (time_point \<times> string \<times> RequestClass) list \<Rightarrow> time_point" where
  "last_time t calls = last (t # map fst calls)"

lemma aggregate_level_later:
  assumes "0 < tokens_per_minute rl" "t1 \<le> t2"
  shows "aggregate_level k t2 rl \<le> aggregate_level k t1 rl + secs (t2 - t1) * (of_int (tokens_per_minute rl) / 60)"
proof (cases "map_of (rl_entries rl) k")
  case None
  then show ?thesis using assms by (simp add: aggregate_level_def)
next
  case (Some p)
  then show ?thesis
    using assms refilled_mono_time [of "aggregate_policy rl" t1 t2 "p_buckets p ! 0"]
    by (simp add: aggregate_level_def aggregate_policy_def)
qed

lemma aggregate_level_nonneg:
  assumes "limiter_ok now rl"
  shows "0 \<le> aggregate_level k now rl"
proof (cases "map_of (rl_entries rl) k")
  case None
  then show ?thesis using assms by (simp add: aggregate_level_def limiter_ok_def)
next
  case (Some p)
  have "0 \<le> refilled now (aggregate_policy rl) (p_buckets p ! 0)"
    using refilled_bounds [of "aggregate_policy rl" "p_buckets p ! 0" now] limiter_ok_entry [OF assms Some] assms
    by (simp add: aggregate_policy_def limiter_ok_def)
  then show ?thesis using Some by (simp add: aggregate_level_def)
qed

lemma admissions_bound:
  assumes "limiter_ok t rl" "times_from t calls" "admissions k calls rl = (rl', n)"
  shows "of_nat n \<le> aggregate_level k t rl + secs (last_time t calls - t) * (of_int (tokens_per_minute rl) / 60)"
  using assms
proof (induction k calls rl arbitrary: t rl' n rule: admissions.induct)
  case (1 k rl)
  then show ?case using aggregate_level_nonneg by (simp add: last_time_def)
next
  case (2 k now key cls calls rl)
  obtain rl1 d where a: "Admit now key cls rl = (rl1, d)" by fastforce
  obtain m where r: "admissions k calls rl1 = (rl', m)" and n: "n = m + (if key = k \<and> rd_allowed d then 1 else 0)"
    using 2(4) a by (auto split: prod.splits)
  have t: "t \<le> now" "times_from now calls" using 2(3) by auto
  let ?r = "of_int (tokens_per_minute rl) / 60 :: real"
  note lvl = Admit_level [OF limiter_ok_later [OF 2(2) t(1)] a, of k]
  have "of_nat m \<le> aggregate_level k now rl1 + secs (last_time now calls - now) * ?r"
    using 2(1) [OF a [symmetric] refl _ t(2) r] lvl by simp
  then have "of_nat n \<le> aggregate_level k now rl + secs (last_time now calls - now) * ?r"
    using lvl n by (auto split: if_splits)
  also have "\<dots> \<le> aggregate_level k t rl + secs (now - t) * ?r + secs (last_time now calls - now) * ?r"
    using aggregate_level_later [of rl t now k] t(1) 2(2) by (simp add: limiter_ok_def)
  also have "\<dots> = aggregate_level k t rl + secs (last_time t ((now, key, cls) # calls) - t) * ?r"
    using secs_add [of "last_time now calls" t now] by (simp add: last_time_def algebra_simps)
  finally show ?case .
qed


definition no_endpoints :: EndpointRateLimits where
  "no_endpoints = \<lparr>generation_limit = None, embeddings_limit = None\<rparr>"


end
