(* ===== verification/Access_Control.thy ===== *)
theory Access_Control
  imports String_Utils Marker_Scan
begin

section \<open>API keys and guardrails\<close>

text \<open>
  \<open>server/auth/api_key_auth.{h,cpp}\<close> and \<open>server/policy/guardrail.{h,cpp}\<close>. A set of scopes is a
  list without duplicates; the hash of a key (SHA-256, library code) and the answer of the OPA
  client (a service) are arguments.
\<close>

subsection \<open>API keys\<close>

definition MakeScopes :: "string list \<Rightarrow> string list" where
  "MakeScopes scopes =
     (if scopes = [] then [''generate'', ''read''] else remdups (filter (\<lambda>scope. scope \<noteq> []) scopes))"

record ApiKeyAuth =
  auth_keys :: "(string \<times> string list) list"

definition SubjectFromHash :: "string \<Rightarrow> string" where
  "SubjectFromHash hash = ''api-key:'' @ hash"

definition AddKeyHashed :: "string \<Rightarrow> string list \<Rightarrow> ApiKeyAuth \<Rightarrow> ApiKeyAuth" where
  "AddKeyHashed hash scopes a =
     (let made = MakeScopes scopes in
      a\<lparr>auth_keys := AList.update hash (if ''read'' \<in> set made then made else made @ [''read'']) (auth_keys a)\<rparr>)"

definition AddKey :: "(string \<Rightarrow> string) \<Rightarrow> string \<Rightarrow> string list \<Rightarrow> ApiKeyAuth \<Rightarrow> ApiKeyAuth" where
  "AddKey HashKey key scopes a = AddKeyHashed (HashKey key) scopes a"

definition IsAllowedByHash :: "string \<Rightarrow> ApiKeyAuth \<Rightarrow> bool" where
  "IsAllowedByHash hash a \<longleftrightarrow> map_of (auth_keys a) hash \<noteq> None"

definition IsAllowed :: "(string \<Rightarrow> string) \<Rightarrow> string \<Rightarrow> ApiKeyAuth \<Rightarrow> bool" where
  "IsAllowed HashKey key a \<longleftrightarrow> IsAllowedByHash (HashKey key) a"

definition HasKeys :: "ApiKeyAuth \<Rightarrow> bool" where
  "HasKeys a \<longleftrightarrow> auth_keys a \<noteq> []"

definition ScopesByHash :: "string \<Rightarrow> ApiKeyAuth \<Rightarrow> string list" where
  "ScopesByHash hash a = (case map_of (auth_keys a) hash of None \<Rightarrow> [] | Some scopes \<Rightarrow> scopes)"

definition Scopes :: "(string \<Rightarrow> string) \<Rightarrow> string \<Rightarrow> ApiKeyAuth \<Rightarrow> string list" where
  "Scopes HashKey key a = ScopesByHash (HashKey key) a"

definition RemoveKey :: "(string \<Rightarrow> string) \<Rightarrow> string \<Rightarrow> ApiKeyAuth \<Rightarrow> ApiKeyAuth" where
  "RemoveKey HashKey key a = a\<lparr>auth_keys := AList.delete (HashKey key) (auth_keys a)\<rparr>"

lemma AddKey_allows:
  "IsAllowed h k (AddKey h k scopes a)" "''read'' \<in> set (Scopes h k (AddKey h k scopes a))"
  by (auto simp: IsAllowed_def IsAllowedByHash_def AddKey_def AddKeyHashed_def Scopes_def ScopesByHash_def Let_def update_conv')

lemma RemoveKey_denies: "\<not> IsAllowed h k (RemoveKey h k a)"
  by (simp add: IsAllowed_def IsAllowedByHash_def RemoveKey_def delete_conv')

lemma AddKey_other: "h k' \<noteq> h k \<Longrightarrow> Scopes h k' (AddKey h k scopes a) = Scopes h k' a"
  by (simp add: AddKey_def AddKeyHashed_def Scopes_def ScopesByHash_def Let_def update_conv')

text \<open>A key gets no scope that was not asked for, except \<open>read\<close>; with no scopes asked for, also \<open>generate\<close>.\<close>

lemma AddKey_scopes:
  "set (Scopes h k (AddKey h k scopes a)) =
     (if scopes = [] then {''generate'', ''read''} else insert ''read'' (set scopes - {[]}))"
  by (auto simp: AddKey_def AddKeyHashed_def Scopes_def ScopesByHash_def MakeScopes_def Let_def update_conv')

subsection \<open>Guardrails\<close>

definition NormalizeWords :: "string list \<Rightarrow> string list" where
  "NormalizeWords words = filter (\<lambda>w. w \<noteq> []) (map ToLower words)"

record OPAResult =
  opa_allow :: bool
  opa_reason :: string

record Guardrail =
  blocklist :: "string list"
  opa_endpoint :: string

definition UpdateBlocklist :: "string list \<Rightarrow> Guardrail \<Rightarrow> Guardrail" where
  "UpdateBlocklist words g = g\<lparr>blocklist := NormalizeWords words\<rparr>"

definition SetBlocklist :: "string list \<Rightarrow> Guardrail \<Rightarrow> Guardrail" where
  "SetBlocklist words g = UpdateBlocklist words g"

definition SetOPAEndpoint :: "string \<Rightarrow> Guardrail \<Rightarrow> Guardrail" where
  "SetOPAEndpoint endpoint g = g\<lparr>opa_endpoint := endpoint\<rparr>"

definition guardrail_Enabled :: "Guardrail \<Rightarrow> bool" where
  "guardrail_Enabled g \<longleftrightarrow> blocklist g \<noteq> [] \<or> opa_endpoint g \<noteq> []"

definition first_blocked :: "string \<Rightarrow> string list \<Rightarrow> string option" where
  "first_blocked lower words = List.find (\<lambda>word. word \<noteq> [] \<and> str_find lower word \<noteq> None) words"

text \<open>Whether the text is allowed, with the reason that is reported when it is not.\<close>

definition guardrail_Check :: "(string \<Rightarrow> OPAResult) \<Rightarrow> string \<Rightarrow> Guardrail \<Rightarrow> bool \<times> string" where
  "guardrail_Check opa str g =
     (case (if blocklist g \<noteq> [] then first_blocked (ToLower str) (blocklist g) else None) of
        Some word \<Rightarrow> (False, ''Blocked content keyword: '' @ word)
      | None \<Rightarrow>
          if opa_endpoint g \<noteq> [] \<and> \<not> opa_allow (opa str)
          then (False, if opa_reason (opa str) = [] then ''OPA denied prompt'' else opa_reason (opa str))
          else (True, []))"

text \<open>
  After \<open>SetBlocklist\<close>, a text is blocked whenever it contains one of the words in any
  capitalisation, whatever the policy service answers.
\<close>

lemma guardrail_blocks_words:
  assumes "w \<in> set words" "w \<noteq> []" "ToLower str = a @ ToLower w @ b"
  shows "\<not> fst (guardrail_Check opa str (SetBlocklist words g))"
proof -
  have "occurs_at (ToLower w) (ToLower str) (length a)" using assms(3) by (simp add: occurs_at_def)
  moreover have "ToLower w \<noteq> []" using assms(2) by (simp add: ToLower_def)
  ultimately have "str_find (ToLower str) (ToLower w) \<noteq> None" by (auto simp: str_find_None)
  moreover have "ToLower w \<in> set (NormalizeWords words)"
    using assms(1) \<open>ToLower w \<noteq> []\<close> by (simp add: NormalizeWords_def)
  ultimately have "first_blocked (ToLower str) (NormalizeWords words) \<noteq> None"
    using \<open>ToLower w \<noteq> []\<close> unfolding first_blocked_def find_None_iff by blast
  moreover have "NormalizeWords words \<noteq> []" using \<open>ToLower w \<in> set (NormalizeWords words)\<close> by auto
  ultimately show ?thesis by (auto simp: guardrail_Check_def SetBlocklist_def UpdateBlocklist_def)
qed

end
