(* ===== verification/Spec2Isabelle.thy ===== *)
theory Spec2Isabelle
  imports Async_Writer Radix_Prefix_Cache Sequence_Slots Session_Handles Prefix_Cache Utf8_Assembler Splitters
    Scheduler_Progress KV_Transport Batch_Overlap KV_Plan Image_Content Speculative Rate_Limiter Model_Selection Policy_Store Access_Control
begin

text \<open>
  A verification development of the InferFlux inference server.

  Theories: Prelude (shared vocabulary), Block_Pool (the interface of a reference-counted
  pool), Paged_KV_Cache (runtime/kv_cache), Async_Writer (io/async_file_writer).
\<close>

section \<open>Properties that span components\<close>

subsection \<open>Offloaded pages\<close>

definition enqueued :: "kv_io_event list \<Rightarrow> AsyncWriteTask list" where
  "enqueued io = concat (map (\<lambda>e. case e of WriterEnqueue f b \<Rightarrow> [(f, b)] | _ \<Rightarrow> []) io)"

lemma enqueued_append [simp]: "enqueued (xs @ ys) = enqueued xs @ enqueued ys"
  by (simp add: enqueued_def)

lemma enqueued_simps [simp]:
  "enqueued [] = []" "enqueued (WriterEnqueue f b # io) = (f, b) # enqueued io"
  by (simp_all add: enqueued_def)

text \<open>
  C19: Offloading is lossless. On a cache with an offload path, a page is written and then
  released by its last owner, which drops the page's memory. Once the writer (one worker,
  no failing file) has carried out everything the cache handed to it, reading the page
  returns the values written, from the file.
\<close>

theorem offload_read_back:
  assumes "offload_path c \<noteq> []" "writer c" "in_range b (pages c)" "ref_count (pages c ! nat b) = 1"
    and "kv_Write b vs c = (c1, Inr ())" "c2 = ReleasePage b c1"
    and "writer_run (AsyncFileWriter_init depth, dir0) es = Some (w, dir)"
      "list_all single_worker_event es" "tasks w = []" "in_flight (workers w) = []"
    and "accepted w = enqueued (kv_io c2)"
  shows "data (pages c2 ! nat b) = [] \<and> snd (kv_Read dir b c2) = Inr vs"
proof -
  let ?file = "page_file (offload_path c) b"
  have b: "nat b < length (pages c)" using assms(3) by (rule in_range_nat)
  have c1: "c1 = fst (kv_Write b vs c)" using assms(5) by simp
  have pages: "pages c1 = upd_at (nat b) (\<lambda>p. p\<lparr>data := vs, dirty := True, last_used := usage_counter c\<rparr>) (pages c)"
    and path: "offload_path c1 = offload_path c" and wr: "writer c1 = writer c"
    and io1: "kv_io c1 = kv_io c @ [WriterEnqueue ?file (floats_bytes vs)]"
    using assms(1-3) by (simp_all add: c1 kv_Write_def Let_def PersistPage_def)
  have gone: "data (pages c2 ! nat b) = []"
    using assms(3,4) b by (simp add: assms(6) ReleasePage_def ReleasePageLocked_pages in_range_def pages)
  have path2: "offload_path c2 = offload_path c" and range2: "in_range b (pages c2)"
    using assms(3) by (simp_all add: assms(6) ReleasePage_def ReleasePageLocked_def Let_def path pages)
  have "\<exists>ts. enqueued (kv_io c2) = ts @ [(?file, floats_bytes vs)]"
    using assms(1-4) b
    by (auto simp: assms(6) ReleasePage_def ReleasePageLocked_def Let_def pages path wr io1 PersistPage_def)
  then obtain ts where ts: "accepted w = ts @ [(?file, floats_bytes vs)]" using assms(11) by auto
  have "dir ?file = Some (floats_bytes vs, True)"
    using writer_fifo_quiescent [OF assms(7-10)] by (simp add: ts write_all_last)
  then have "LoadPage dir b c2 = vs" using assms(1) by (simp add: LoadPage_def path2)
  then have "snd (kv_Read dir b c2) = Inr vs"
    using gone range2 assms(1) in_range_nat [OF range2] by (simp add: kv_Read_def Let_def path2)
  with gone show ?thesis by blast
qed

theorem offload_read_back_witness:
  "\<exists>c w dir es. writer_run (AsyncFileWriter_init 4, Map.empty) es = Some (w, dir) \<and>
     accepted w = enqueued (kv_io c) \<and> data (pages c ! 0) = [] \<and> snd (kv_Read dir 0 c) = Inr [7]"
proof -
  let ?c = "fst (ReservePage (SetOffloadPath ''d'' (PagedKVCache_init 1 4 kLRU)))"
  let ?c1 = "fst (kv_Write 0 [7] ?c)"
  let ?c2 = "ReleasePage 0 ?c1"
  let ?t = "(''d/page_0.bin'', [7, 0, 0, 0 :: byte])"
  let ?es = "[EvStart 1, EvEnqueue ?t, EvEnqueue ?t, EvTake 0, EvWrite 0 True, EvTake 0, EvWrite 0 True]"
  let ?r = "writer_run (AsyncFileWriter_init 4, Map.empty) ?es"
  have c: "offload_path ?c \<noteq> []" "writer ?c" "in_range 0 (pages ?c)" "ref_count (pages ?c ! nat 0) = 1"
    by code_simp+
  have "snd (kv_Write 0 [7] ?c) = Inr ()" by code_simp
  then have c1: "kv_Write 0 [7] ?c = (?c1, Inr ())" by (metis prod.collapse)
  have io: "enqueued (kv_io ?c2) = [?t, ?t]" by code_simp
  have r: "?r = Some (fst (the ?r), snd (the ?r))" "tasks (fst (the ?r)) = []"
    "in_flight (workers (fst (the ?r))) = []" "accepted (fst (the ?r)) = [?t, ?t]"
    by (simp_all add: AsyncFileWriter_init_def Start_def Enqueue_def Worker_take_def Worker_write_def Let_def)
  have acc: "accepted (fst (the ?r)) = enqueued (kv_io ?c2)" unfolding r(4) io ..
  have "list_all single_worker_event ?es" by (simp add: single_worker_event_def)
  from offload_read_back [OF c c1 refl r(1) this r(2,3) acc] r(1) acc show ?thesis
    unfolding nat_0 by blast
qed

subsection \<open>Donated prefixes and the block pool\<close>

text \<open>The effects of a prefix cache call on the KV cache it shares.\<close>

definition apply_releases :: "radix_effect list \<Rightarrow> PagedKVCache \<Rightarrow> PagedKVCache" where
  "apply_releases eff c =
     foldl (\<lambda>c e. case e of ReleaseRef bs \<Rightarrow> ReleaseBlocksRef bs c | _ \<Rightarrow> c) c eff"

lemma apply_releases_eq: "apply_releases eff c = ReleaseBlocks (released eff) c"
proof (induction eff arbitrary: c)
  case Nil
  then show ?case by (simp add: apply_releases_def released_def ReleaseBlocks_def)
next
  case (Cons e eff)
  then show ?case
    by (cases e) (simp_all add: apply_releases_def released_def ReleaseBlocksRef_def ReleaseBlocks_def)
qed

text \<open>
  C18: Ownership of blocks is conserved across a donation. If the reference counts of the
  KV cache equal the references of the other owners (\<open>L\<close>, which holds the references of the
  finished sequence) plus those the prefix cache retains, then after the sequence's blocks
  are donated with \<open>Insert\<close>, evictions and replacement of an older donor included, the
  counts equal what the other owners are left with plus what the prefix cache then retains.
  No block is leaked and none is released twice.
\<close>

theorem donation_conserves_references:
  assumes "balanced kv_wf block_refs (c, L + retained (root r))" "mset blocks \<subseteq># L"
    and "radix_ok r" "has_kv_cache r" "0 \<le> seq" "0 < capacity r" "tokens \<noteq> []" "blocks \<noteq> []"
  shows "\<exists>r' eff. radix_Insert alive tokens blocks seq be r = Some (r', eff, True) \<and>
     balanced kv_wf block_refs (apply_releases eff c, (L - mset blocks) + retained (root r'))"
proof (rule radix_Insert_spec [OF assms(3,5-8), where alive = alive and be = be])
  fix r1 e1 r' e2
  assume run: "radix_Insert alive tokens blocks seq be r = Some (r', e1 @ e2, True)"
    and ins: "inserted r r1 e1 tokens (blocks, seq, be)" and sh: "shrunk r1 r' e2"
  have cons: "retained (root r') + mset (released (e1 @ e2)) = retained (root r) + mset blocks"
    using ins sh assms(4) by (auto simp: inserted_def shrunk_def ac_simps)
  have "L + retained (root r) = (L - mset blocks) + (retained (root r) + mset blocks)"
    using subset_mset.diff_add [OF assms(2)] by (metis add.assoc add.commute)
  then have eq: "L + retained (root r) = ((L - mset blocks) + retained (root r')) + mset (released (e1 @ e2))"
    unfolding cons [symmetric] by (simp add: add.assoc)
  have "balanced kv_wf block_refs (ReleaseBlocks (released (e1 @ e2)) c,
      L + retained (root r) - mset (released (e1 @ e2)))"
    by (rule kv.balanced_release [OF assms(1)]) (simp add: eq)
  then show ?thesis using run by (auto simp: eq apply_releases_eq)
qed

theorem donation_conserves_references_witness:
  "\<exists>c r' eff. radix_Insert (\<lambda>_. True) [1, 2] [0] 3 (Some 0) (RadixPrefixCache_init True True 8 8) = Some (r', eff, True) \<and>
     balanced kv_wf block_refs (apply_releases eff c, {#} + retained (root r'))"
proof -
  let ?r = "RadixPrefixCache_init True True 8 8"
  let ?c = "fst (ReserveBlocks 1 (PagedKVCache_init 1 4 kLRU))"
  have init: "balanced kv_wf block_refs (PagedKVCache_init 1 4 kLRU, {#})"
    by (simp add: balanced_def kv_wf_init fun_eq_iff block_refs_init)
  have "snd (ReserveBlocks 1 (PagedKVCache_init 1 4 kLRU)) = Inr [0]" by code_simp
  then have "ReserveBlocks 1 (PagedKVCache_init 1 4 kLRU) = (?c, Inr [0])" by (metis prod.collapse)
  from kv.balanced_reserve [OF init this] have "balanced kv_wf block_refs (?c, {#0#} + retained (root ?r))"
    by (simp add: RadixPrefixCache_init_def retained_def empty_info_def)
  moreover have "mset [0] \<subseteq># {#0 :: int#}" "has_kv_cache ?r" "0 \<le> (3 :: int)" "0 < capacity ?r"
    "[1, 2 :: int] \<noteq> []" "[0 :: int] \<noteq> []" by (simp_all add: RadixPrefixCache_init_def)
  moreover have "{#0 :: int#} - mset [0] = {#}" by simp
  ultimately show ?thesis
    using donation_conserves_references [of ?c "{#0#}" ?r "[0]" 3 "[1, 2]" "\<lambda>_. True" "Some 0"] radix_ok_init
    by metis
qed

end
